(* ===== verification/Prelude.thy ===== *)
theory Prelude
  imports Complex_Main "HOL-Library.Word"
begin

text \<open>
  What the component theories share: the C++ integer types at their width, the named
  collections that the proofs pass to the simplifier, and generic facts on words and on
  lists that are updated by index.

  The engine's integers are fixed-width: \<open>std::uint8_t\<close> prices, \<open>std::uint32_t\<close> sizes,
  \<open>std::uint64_t\<close> timestamps and \<open>std::size_t\<close> indices (64 bits on the supported
  platforms) wrap around, so they are words. A signed \<open>int\<close> does not wrap: overflow is
  undefined behaviour, which the models report as \<open>None\<close>.
\<close>

type_synonym u8 = "8 word"
type_synonym u32 = "32 word"
type_synonym u64 = "64 word"

named_theorems f64_eval \<open>rewrite rules that compute a closed binary64 expression\<close>
named_theorems book_simps \<open>how book operations act on level sizes\<close>
named_theorems queue_simps \<open>how queue operations act on the abstract contents\<close>

section \<open>Signed machine integers\<close>

text \<open>The values of a 32-bit \<open>int\<close>; an operation whose result leaves them is undefined.\<close>

definition int_min :: int where
  "int_min = - (2 ^ 31)"

definition int_max :: int where
  "int_max = 2 ^ 31 - 1"

definition in_int :: "int \<Rightarrow> bool" where
  "in_int n \<longleftrightarrow> int_min \<le> n \<and> n \<le> int_max"

definition checked_int :: "int \<Rightarrow> int option" where
  "checked_int n = (if in_int n then Some n else None)"

lemma checked_int_Some_iff [simp]: "checked_int n = Some m \<longleftrightarrow> in_int n \<and> m = n"
  by (auto simp: checked_int_def)

lemma checked_int_None_iff [simp]: "checked_int n = None \<longleftrightarrow> \<not> in_int n"
  by (simp add: checked_int_def)

lemma checked_int_in_range [simp]: "in_int n \<Longrightarrow> checked_int n = Some n"
  by simp

lemma in_int_bound: "\<bar>n\<bar> \<le> int_max \<Longrightarrow> in_int n"
  by (auto simp: in_int_def int_min_def int_max_def)

section \<open>Words\<close>

lemma uint_u8_bounds: "0 \<le> uint (x :: u8)" "uint (x :: u8) < 256"
  using uint_bounded [of x] by simp_all

lemma uint_u32_bounds: "0 \<le> uint (x :: u32)" "uint (x :: u32) < 4294967296"
  using uint_bounded [of x] by simp_all

lemma unat_u64_less: "unat (x :: u64) < 2 ^ 64"
proof -
  have "unat x < 2 ^ LENGTH(64)" by (rule unsigned_less)
  then show ?thesis by simp
qed

lemma uint_add_no_wrap:
  "uint x + uint y < 2 ^ LENGTH('a) \<Longrightarrow> uint (x + y :: 'a::len word) = uint x + uint y"
  by (simp add: uint_add_lem)

section \<open>Lists\<close>

lemma list_update_same_length: "length (xs[i := v]) = length xs"
  by simp

lemma foldl_snoc_append: "foldl (\<lambda>acc x. acc @ [f x]) acc xs = acc @ map f xs"
  by (induction xs arbitrary: acc) simp_all

end
