(* ===== verification/OrderBook.thy ===== *)
theory OrderBook
  imports Prelude
begin

text \<open>
  The limit order book of \<open>include/order_book.hpp\<close>: two arrays of 101 sizes indexed by a
  price in cents, the update by one tick, and the linear scans for the best prices. The
  arrays are lists; \<open>wf_book\<close> says that they have their 101 entries, which every operation
  keeps, so that each index that the code uses lies inside them.

  The locale \<open>level_store\<close> is the contract of an update with the levels it changes, and
  \<open>quoted_book\<close> adds the best prices; both are interpreted on the arrays at the end.
\<close>

record market_tick =
  price :: u8
  tsize :: u32
  is_bid :: bool

record limit_order_book =
  bids :: "u32 list"
  asks :: "u32 list"

definition kMinPrice :: u8 where
  "kMinPrice = 0"

definition kMaxPrice :: u8 where
  "kMaxPrice = 100"

definition kLevels :: nat where
  "kLevels = 101"

definition kNoBid :: u8 where
  "kNoBid = 255"

definition kNoAsk :: u8 where
  "kNoAsk = 255"

definition empty_book :: limit_order_book where
  "empty_book = \<lparr>bids = replicate kLevels 0, asks = replicate kLevels 0\<rparr>"

definition apply_tick :: "market_tick \<Rightarrow> limit_order_book \<Rightarrow> limit_order_book" where
  "apply_tick tick book =
     (if price tick < kMinPrice \<or> kMaxPrice < price tick then book
      else let idx = unat (price tick)
           in if is_bid tick then book\<lparr>bids := (bids book)[idx := tsize tick]\<rparr>
              else book\<lparr>asks := (asks book)[idx := tsize tick]\<rparr>)"

function scan_bids :: "u32 list \<Rightarrow> int \<Rightarrow> u8" where
  "scan_bids levels p =
     (if uint kMinPrice \<le> p
      then if levels ! nat p \<noteq> 0 then word_of_int p else scan_bids levels (p - 1)
      else kNoBid)"
  by pat_completeness auto
termination
  by (relation "measure (\<lambda>(levels, p). nat (p + 1))") (auto simp: kMinPrice_def)

function scan_asks :: "u32 list \<Rightarrow> int \<Rightarrow> u8" where
  "scan_asks levels p =
     (if p \<le> uint kMaxPrice
      then if levels ! nat p \<noteq> 0 then word_of_int p else scan_asks levels (p + 1)
      else kNoAsk)"
  by pat_completeness auto
termination
  by (relation "measure (\<lambda>(levels, p). nat (101 - p))") (auto simp: kMaxPrice_def)

declare scan_bids.simps [simp del] scan_asks.simps [simp del]

definition get_best_bid :: "limit_order_book \<Rightarrow> u8" where
  "get_best_bid book = scan_bids (bids book) (uint kMaxPrice)"

definition get_best_ask :: "limit_order_book \<Rightarrow> u8" where
  "get_best_ask book = scan_asks (asks book) (uint kMinPrice)"

definition get_bid_size :: "limit_order_book \<Rightarrow> u8 \<Rightarrow> u32" where
  "get_bid_size book p = (if p < kMinPrice \<or> kMaxPrice < p then 0 else bids book ! unat p)"

definition get_ask_size :: "limit_order_book \<Rightarrow> u8 \<Rightarrow> u32" where
  "get_ask_size book p = (if p < kMinPrice \<or> kMaxPrice < p then 0 else asks book ! unat p)"

lemmas book_consts = kMinPrice_def kMaxPrice_def kLevels_def kNoBid_def kNoAsk_def

definition wf_book :: "limit_order_book \<Rightarrow> bool" where
  "wf_book book \<longleftrightarrow> length (bids book) = kLevels \<and> length (asks book) = kLevels"

definition depth :: "limit_order_book \<Rightarrow> bool \<Rightarrow> u8 \<Rightarrow> u32" where
  "depth book side p = (if side then get_bid_size book p else get_ask_size book p)"

lemma wf_empty_book [simp]: "wf_book empty_book"
  by (simp add: wf_book_def empty_book_def)

lemma wf_apply_tick [simp]: "wf_book book \<Longrightarrow> wf_book (apply_tick tick book)"
  by (simp add: wf_book_def apply_tick_def Let_def)

lemma depth_empty_book [simp, book_simps]: "depth empty_book side p = 0"
proof -
  have "unat p < 101" if "p \<le> 100" using that by (simp add: word_le_nat_alt)
  then show ?thesis
    by (auto simp: depth_def get_bid_size_def get_ask_size_def empty_book_def book_consts not_less)
qed

lemma depth_out_of_range [book_simps]: "kMaxPrice < p \<Longrightarrow> depth book side p = 0"
  by (simp add: depth_def get_bid_size_def get_ask_size_def)

lemma price_index: "p \<le> kMaxPrice \<Longrightarrow> unat p < kLevels"
  by (simp add: book_consts word_le_nat_alt)

lemma get_bid_size_eq: "get_bid_size book p = (if p \<le> kMaxPrice then bids book ! unat p else 0)"
  and get_ask_size_eq: "get_ask_size book p = (if p \<le> kMaxPrice then asks book ! unat p else 0)"
  by (auto simp: get_bid_size_def get_ask_size_def kMinPrice_def not_less)

lemma apply_tick_eq:
  "apply_tick tick book =
     (if kMaxPrice < price tick then book
      else if is_bid tick then book\<lparr>bids := (bids book)[unat (price tick) := tsize tick]\<rparr>
      else book\<lparr>asks := (asks book)[unat (price tick) := tsize tick]\<rparr>)"
  by (simp add: apply_tick_def kMinPrice_def Let_def)

lemma nth_update_level:
  assumes "length levels = kLevels" "p \<le> kMaxPrice"
  shows "(levels[unat q := v]) ! unat p = (if p = q then v else levels ! unat p)"
proof (cases "p = q")
  case True
  then show ?thesis using assms price_index [of p] by simp
next
  case False
  then have "unat q \<noteq> unat p" by (metis unsigned_word_eqI)
  with False show ?thesis by simp
qed

lemma depth_apply_tick [book_simps]:
  assumes "wf_book book"
  shows "depth (apply_tick tick book) side p =
    (if side = is_bid tick \<and> p = price tick \<and> price tick \<le> kMaxPrice then tsize tick
     else depth book side p)"
proof -
  have len: "length (bids book) = kLevels" "length (asks book) = kLevels"
    using assms by (simp_all add: wf_book_def)
  show ?thesis
  proof (cases "price tick \<le> kMaxPrice")
    case False
    then have "kMaxPrice < price tick" by simp
    with False show ?thesis by (auto simp: apply_tick_eq)
  next
    case True
    then show ?thesis using len
      by (cases "p \<le> kMaxPrice"; cases side; cases "is_bid tick")
        (auto simp: depth_def get_bid_size_eq get_ask_size_eq apply_tick_eq nth_update_level not_less)
  qed
qed

section \<open>The best prices\<close>

lemma scan_bids_cases:
  assumes "- 1 \<le> p"
  shows "scan_bids levels p = kNoBid \<and> (\<forall>i. 0 \<le> i \<and> i \<le> p \<longrightarrow> levels ! nat i = 0) \<or>
    (\<exists>i. 0 \<le> i \<and> i \<le> p \<and> scan_bids levels p = word_of_int i \<and> levels ! nat i \<noteq> 0 \<and>
       (\<forall>j. i < j \<and> j \<le> p \<longrightarrow> levels ! nat j = 0))"
  using assms
proof (induction levels p rule: scan_bids.induct)
  case (1 levels p)
  note unfold = scan_bids.simps [of levels p]
  consider "p = - 1" | "0 \<le> p" "levels ! nat p \<noteq> 0" | "0 \<le> p" "levels ! nat p = 0"
    using "1.prems" by linarith
  then show ?case
  proof cases
    case 1
    then show ?thesis using unfold by (auto simp: kMinPrice_def)
  next
    case 2
    then show ?thesis using unfold by (intro disjI2 exI [of _ p]) (auto simp: kMinPrice_def)
  next
    case 3
    then have "scan_bids levels p = scan_bids levels (p - 1)"
      using unfold by (simp add: kMinPrice_def)
    moreover have "- 1 \<le> p - 1" using 3 by simp
    ultimately have IH: "scan_bids levels p = kNoBid \<and> (\<forall>i. 0 \<le> i \<and> i \<le> p - 1 \<longrightarrow> levels ! nat i = 0) \<or>
      (\<exists>i. 0 \<le> i \<and> i \<le> p - 1 \<and> scan_bids levels p = word_of_int i \<and> levels ! nat i \<noteq> 0 \<and>
       (\<forall>j. i < j \<and> j \<le> p - 1 \<longrightarrow> levels ! nat j = 0))"
      using "1.IH" 3 by (simp add: kMinPrice_def)
    have step: "levels ! nat j = 0 \<or> j \<le> p - 1" if "j \<le> p" for j
      using that 3 by (cases "j = p") auto
    from IH show ?thesis
    proof (elim disjE exE conjE)
      fix i assume "0 \<le> i" "i \<le> p - 1" "scan_bids levels p = word_of_int i" "levels ! nat i \<noteq> 0"
        "\<forall>j. i < j \<and> j \<le> p - 1 \<longrightarrow> levels ! nat j = 0"
      then show ?thesis using step by (intro disjI2 exI [of _ i]) auto
    qed (use step in auto)
  qed
qed

lemma scan_asks_cases:
  assumes "p \<le> 101"
  shows "scan_asks levels p = kNoAsk \<and> (\<forall>i. p \<le> i \<and> i \<le> 100 \<longrightarrow> levels ! nat i = 0) \<or>
    (\<exists>i. p \<le> i \<and> i \<le> 100 \<and> scan_asks levels p = word_of_int i \<and> levels ! nat i \<noteq> 0 \<and>
       (\<forall>j. p \<le> j \<and> j < i \<longrightarrow> levels ! nat j = 0))"
  using assms
proof (induction levels p rule: scan_asks.induct)
  case (1 levels p)
  note unfold = scan_asks.simps [of levels p]
  consider "p = 101" | "p \<le> 100" "levels ! nat p \<noteq> 0" | "p \<le> 100" "levels ! nat p = 0"
    using "1.prems" by linarith
  then show ?case
  proof cases
    case 1
    then show ?thesis using unfold by (auto simp: kMaxPrice_def)
  next
    case 2
    then show ?thesis using unfold by (intro disjI2 exI [of _ p]) (auto simp: kMaxPrice_def)
  next
    case 3
    then have "scan_asks levels p = scan_asks levels (p + 1)"
      using unfold by (simp add: kMaxPrice_def)
    moreover have "p + 1 \<le> 101" using 3 by simp
    ultimately have IH: "scan_asks levels p = kNoAsk \<and> (\<forall>i. p + 1 \<le> i \<and> i \<le> 100 \<longrightarrow> levels ! nat i = 0) \<or>
      (\<exists>i. p + 1 \<le> i \<and> i \<le> 100 \<and> scan_asks levels p = word_of_int i \<and> levels ! nat i \<noteq> 0 \<and>
       (\<forall>j. p + 1 \<le> j \<and> j < i \<longrightarrow> levels ! nat j = 0))"
      using "1.IH" 3 by (simp add: kMaxPrice_def)
    have step: "levels ! nat j = 0 \<or> p + 1 \<le> j" if "p \<le> j" for j
      using that 3 by (cases "j = p") auto
    from IH show ?thesis
    proof (elim disjE exE conjE)
      fix i assume "p + 1 \<le> i" "i \<le> 100" "scan_asks levels p = word_of_int i" "levels ! nat i \<noteq> 0"
        "\<forall>j. p + 1 \<le> j \<and> j < i \<longrightarrow> levels ! nat j = 0"
      then show ?thesis using step by (intro disjI2 exI [of _ i]) auto
    qed (use step in auto)
  qed
qed

lemma ladder_index:
  assumes "0 \<le> i" "i \<le> 100"
  shows "(word_of_int i :: u8) \<le> kMaxPrice" "unat (word_of_int i :: u8) = nat i"
    "uint (word_of_int i :: u8) = i"
proof -
  show u: "uint (word_of_int i :: u8) = i"
    using assms by (simp add: uint_word_of_int_eq take_bit_int_eq_self)
  then show "unat (word_of_int i :: u8) = nat i" by (simp add: unat_eq_nat_uint)
  show "(word_of_int i :: u8) \<le> kMaxPrice"
    using u assms by (simp add: word_le_def kMaxPrice_def)
qed

lemma depth_bid: "p \<le> kMaxPrice \<Longrightarrow> depth book True p = bids book ! unat p"
  and depth_ask: "p \<le> kMaxPrice \<Longrightarrow> depth book False p = asks book ! unat p"
  by (simp_all add: depth_def get_bid_size_eq get_ask_size_eq)

lemma ladder_uint: "p \<le> kMaxPrice \<longleftrightarrow> uint p \<le> 100"
  by (simp add: word_le_def kMaxPrice_def)

lemma best_bid_cases:
  "get_best_bid book = kNoBid \<and> (\<forall>p. depth book True p = 0) \<or>
   get_best_bid book \<le> kMaxPrice \<and> depth book True (get_best_bid book) \<noteq> 0 \<and>
     (\<forall>p. get_best_bid book < p \<longrightarrow> depth book True p = 0)"
proof -
  have out: "depth book True p = 0" if "\<not> uint p \<le> 100" for p
    using that by (intro depth_out_of_range) (simp add: ladder_uint flip: not_le)
  have eq: "get_best_bid book = scan_bids (bids book) 100"
    by (simp add: get_best_bid_def kMaxPrice_def)
  have range: "- 1 \<le> (100 :: int)" by simp
  from scan_bids_cases [of 100 "bids book", OF range] show ?thesis
  proof (elim disjE conjE exE)
    assume none: "scan_bids (bids book) 100 = kNoBid"
      and all: "\<forall>i. 0 \<le> i \<and> i \<le> 100 \<longrightarrow> bids book ! nat i = 0"
    have "depth book True p = 0" for p
      using all [rule_format, of "uint p"] out [of p] by (cases "uint p \<le> 100") (simp_all add: depth_bid ladder_uint)
    with none show ?thesis by (simp add: eq)
  next
    fix i
    assume i: "0 \<le> i" "i \<le> 100" and best: "scan_bids (bids book) 100 = word_of_int i"
      and live: "bids book ! nat i \<noteq> 0"
      and above: "\<forall>j. i < j \<and> j \<le> 100 \<longrightarrow> bids book ! nat j = 0"
    have "depth book True p = 0" if "word_of_int i < p" for p
      using that above [rule_format, of "uint p"] out [of p] ladder_index(3) [OF i]
      by (cases "uint p \<le> 100") (simp_all add: depth_bid ladder_uint word_less_def)
    then show ?thesis
      using ladder_index [OF i] live by (simp add: eq best depth_bid)
  qed
qed

lemma best_ask_cases:
  "get_best_ask book = kNoAsk \<and> (\<forall>p. depth book False p = 0) \<or>
   get_best_ask book \<le> kMaxPrice \<and> depth book False (get_best_ask book) \<noteq> 0 \<and>
     (\<forall>p. p < get_best_ask book \<longrightarrow> depth book False p = 0)"
proof -
  have out: "depth book False p = 0" if "\<not> uint p \<le> 100" for p
    using that by (intro depth_out_of_range) (simp add: ladder_uint flip: not_le)
  have eq: "get_best_ask book = scan_asks (asks book) 0"
    by (simp add: get_best_ask_def kMinPrice_def)
  have range: "0 \<le> (101 :: int)" by simp
  from scan_asks_cases [of 0 "asks book", OF range] show ?thesis
  proof (elim disjE conjE exE)
    assume none: "scan_asks (asks book) 0 = kNoAsk"
      and all: "\<forall>i. 0 \<le> i \<and> i \<le> 100 \<longrightarrow> asks book ! nat i = 0"
    have "depth book False p = 0" for p
      using all [rule_format, of "uint p"] out [of p] by (cases "uint p \<le> 100") (simp_all add: depth_ask ladder_uint)
    with none show ?thesis by (simp add: eq)
  next
    fix i
    assume i: "0 \<le> i" "i \<le> 100" and best: "scan_asks (asks book) 0 = word_of_int i"
      and live: "asks book ! nat i \<noteq> 0"
      and below: "\<forall>j. 0 \<le> j \<and> j < i \<longrightarrow> asks book ! nat j = 0"
    have "depth book False p = 0" if "p < word_of_int i" for p
      using that below [rule_format, of "uint p"] out [of p] ladder_index(3) [OF i]
      by (cases "uint p \<le> 100") (simp_all add: depth_ask ladder_uint word_less_def)
    then show ?thesis
      using ladder_index [OF i] live by (simp add: eq best depth_ask)
  qed
qed

section \<open>The interface of a book of price levels\<close>

fun last_update :: "market_tick list \<Rightarrow> bool \<Rightarrow> u8 \<Rightarrow> u32 option" where
  "last_update [] side p = None"
| "last_update (t # ts) side p =
     (case last_update ts side p of
        Some v \<Rightarrow> Some v
      | None \<Rightarrow> if side = is_bid t \<and> p = price t \<and> price t \<le> kMaxPrice then Some (tsize t) else None)"

definition apply_ticks :: "market_tick list \<Rightarrow> limit_order_book \<Rightarrow> limit_order_book" where
  "apply_ticks = fold apply_tick"

locale level_store =
  fixes update :: "market_tick \<Rightarrow> 'b \<Rightarrow> 'b"
    and level :: "'b \<Rightarrow> bool \<Rightarrow> u8 \<Rightarrow> u32"
    and inv :: "'b \<Rightarrow> bool"
  assumes inv_update: "inv b \<Longrightarrow> inv (update t b)"
    and level_update: "inv b \<Longrightarrow> level (update t b) side p =
      (if side = is_bid t \<and> p = price t \<and> price t \<le> kMaxPrice then tsize t else level b side p)"
    and level_range: "inv b \<Longrightarrow> kMaxPrice < p \<Longrightarrow> level b side p = 0"
begin

lemma inv_fold: "inv b \<Longrightarrow> inv (fold update ts b)"
  by (induction ts arbitrary: b) (simp_all add: inv_update)

lemma level_fold:
  "inv b \<Longrightarrow> level (fold update ts b) side p =
     (case last_update ts side p of Some v \<Rightarrow> v | None \<Rightarrow> level b side p)"
  by (induction ts arbitrary: b) (simp_all add: inv_update level_update split: option.splits)

lemma level_untouched:
  "inv b \<Longrightarrow> (\<forall>t \<in> set ts. is_bid t \<noteq> side \<or> price t \<noteq> p) \<Longrightarrow>
   level (fold update ts b) side p = level b side p"
  by (induction ts arbitrary: b) (auto simp: inv_update level_update)

lemma level_overwrite:
  assumes "inv b" "is_bid t = is_bid u" "price t = price u"
  shows "level (update u (update t b)) side p = level (update u b) side p"
  using assms by (simp add: inv_update level_update)

lemma level_commute:
  assumes "inv b" "is_bid t \<noteq> is_bid u \<or> price t \<noteq> price u"
  shows "level (update u (update t b)) side p = level (update t (update u b)) side p"
  using assms by (auto simp: inv_update level_update)

end

locale quoted_book = level_store +
  fixes best_bid :: "'b \<Rightarrow> u8"
    and best_ask :: "'b \<Rightarrow> u8"
  assumes bid_cases: "inv b \<Longrightarrow>
      best_bid b = kNoBid \<and> (\<forall>p. level b True p = 0) \<or>
      best_bid b \<le> kMaxPrice \<and> level b True (best_bid b) \<noteq> 0 \<and>
        (\<forall>p. best_bid b < p \<longrightarrow> level b True p = 0)"
    and ask_cases: "inv b \<Longrightarrow>
      best_ask b = kNoAsk \<and> (\<forall>p. level b False p = 0) \<or>
      best_ask b \<le> kMaxPrice \<and> level b False (best_ask b) \<noteq> 0 \<and>
        (\<forall>p. p < best_ask b \<longrightarrow> level b False p = 0)"
begin

lemma sentinel_off_ladder: "\<not> kNoBid \<le> kMaxPrice" "\<not> kNoAsk \<le> kMaxPrice"
  by (simp_all add: book_consts)

lemma no_bid_iff: "inv b \<Longrightarrow> best_bid b = kNoBid \<longleftrightarrow> (\<forall>p. level b True p = 0)"
  using bid_cases [of b] sentinel_off_ladder(1) by metis

lemma no_ask_iff: "inv b \<Longrightarrow> best_ask b = kNoAsk \<longleftrightarrow> (\<forall>p. level b False p = 0)"
  using ask_cases [of b] sentinel_off_ladder(2) by metis

lemma quoted_bid: "inv b \<Longrightarrow> best_bid b \<noteq> kNoBid \<Longrightarrow>
    best_bid b \<le> kMaxPrice \<and> level b True (best_bid b) \<noteq> 0"
  using bid_cases [of b] by blast

lemma quoted_ask: "inv b \<Longrightarrow> best_ask b \<noteq> kNoAsk \<Longrightarrow>
    best_ask b \<le> kMaxPrice \<and> level b False (best_ask b) \<noteq> 0"
  using ask_cases [of b] by blast

lemma best_bid_unique:
  assumes "inv b" "level b True q \<noteq> 0" "\<And>p. q < p \<Longrightarrow> level b True p = 0"
  shows "best_bid b = q"
  using bid_cases [OF assms(1)] assms(2,3) by (metis linorder_neq_iff)

lemma best_ask_unique:
  assumes "inv b" "level b False q \<noteq> 0" "\<And>p. p < q \<Longrightarrow> level b False p = 0"
  shows "best_ask b = q"
  using ask_cases [OF assms(1)] assms(2,3) by (metis linorder_neq_iff)

lemma best_bid_Max:
  assumes "inv b"
  shows "best_bid b = (if {p. level b True p \<noteq> 0} = {} then kNoBid else Max {p. level b True p \<noteq> 0})"
proof (cases "{p. level b True p \<noteq> 0} = {}")
  case True
  then show ?thesis using no_bid_iff [OF assms] by auto
next
  case False
  then have "best_bid b \<noteq> kNoBid" using no_bid_iff [OF assms] by auto
  then have "Max {p. level b True p \<noteq> 0} = best_bid b"
    using bid_cases [OF assms] by (intro Max_eqI) (auto simp: not_less [symmetric])
  with False show ?thesis by (simp only: if_False)
qed

lemma best_ask_Min:
  assumes "inv b"
  shows "best_ask b = (if {p. level b False p \<noteq> 0} = {} then kNoAsk else Min {p. level b False p \<noteq> 0})"
proof (cases "{p. level b False p \<noteq> 0} = {}")
  case True
  then show ?thesis using no_ask_iff [OF assms] by auto
next
  case False
  then have "best_ask b \<noteq> kNoAsk" using no_ask_iff [OF assms] by auto
  then have "Min {p. level b False p \<noteq> 0} = best_ask b"
    using ask_cases [OF assms] by (intro Min_eqI) (auto simp: not_less [symmetric])
  with False show ?thesis by (simp only: if_False)
qed

lemma improving_bid:
  assumes "inv b" "is_bid t" "tsize t \<noteq> 0" "price t \<le> kMaxPrice"
    and "best_bid b = kNoBid \<or> best_bid b \<le> price t"
  shows "best_bid (update t b) = price t"
proof (rule best_bid_unique)
  show "inv (update t b)" using assms(1) by (rule inv_update)
  show "level (update t b) True (price t) \<noteq> 0"
    using assms by (simp add: level_update)
  fix p assume "price t < p"
  then show "level (update t b) True p = 0"
    using assms bid_cases [OF assms(1)] by (auto simp: level_update no_bid_iff)
qed

lemma improving_ask:
  assumes "inv b" "\<not> is_bid t" "tsize t \<noteq> 0" "price t \<le> kMaxPrice"
    and "best_ask b = kNoAsk \<or> price t \<le> best_ask b"
  shows "best_ask (update t b) = price t"
proof (rule best_ask_unique)
  show "inv (update t b)" using assms(1) by (rule inv_update)
  show "level (update t b) False (price t) \<noteq> 0"
    using assms by (simp add: level_update)
  fix p assume "p < price t"
  then show "level (update t b) False p = 0"
    using assms ask_cases [OF assms(1)] by (auto simp: level_update no_ask_iff)
qed

lemma deleted_bid_falls_back:
  assumes "inv b" "is_bid t" "tsize t = 0" "price t = best_bid b" "best_bid b \<noteq> kNoBid"
  shows "best_bid (update t b) = kNoBid \<or> best_bid (update t b) < best_bid b"
proof -
  have "best_bid b \<le> kMaxPrice" using quoted_bid assms by blast
  then have zero: "level (update t b) True p = 0" if "best_bid b \<le> p" for p
    using that assms bid_cases [OF assms(1)] by (auto simp: level_update)
  show ?thesis
    using bid_cases [OF inv_update [OF assms(1), of t]] zero [of "best_bid (update t b)"]
    by (metis not_le_imp_less)
qed

end

interpretation lob: quoted_book apply_tick depth wf_book get_best_bid get_best_ask
  by unfold_locales (simp_all add: depth_apply_tick depth_out_of_range best_bid_cases best_ask_cases)

section \<open>Properties\<close>

lemma apply_ticks_wf: "wf_book (apply_ticks ts empty_book)"
  unfolding apply_ticks_def by (rule lob.inv_fold) simp

text \<open>
  C21: after any sequence of ticks the size at a price level is the size of the last
  in-range tick for that side and price, and zero where there was none: the two arrays
  implement "last writer wins" per level, and ticks off the ladder change nothing.
\<close>
theorem book_replays_last_update:
  "depth (apply_ticks ts empty_book) side p =
     (case last_update ts side p of Some v \<Rightarrow> v | None \<Rightarrow> 0)"
  unfolding apply_ticks_def using lob.level_fold [OF wf_empty_book, of ts side p] by (simp split: option.splits)

text \<open>
  C22: in every book the engine can build, the best bid is the largest price whose bid size is
  non-zero and the best ask is the smallest price whose ask size is non-zero; the sentinels 255
  are returned exactly for an empty side.
\<close>
theorem best_prices_are_extremes:
  "get_best_bid (apply_ticks ts empty_book) =
     (let live = {p. depth (apply_ticks ts empty_book) True p \<noteq> 0} in if live = {} then kNoBid else Max live) \<and>
   get_best_ask (apply_ticks ts empty_book) =
     (let live = {p. depth (apply_ticks ts empty_book) False p \<noteq> 0} in if live = {} then kNoAsk else Min live)"
  unfolding Let_def using lob.best_bid_Max [OF apply_ticks_wf] lob.best_ask_Min [OF apply_ticks_wf] by blast

text \<open>
  A tick with a non-zero size at a price that is at least as good as the best one of its
  side becomes the best price of that side.
\<close>
theorem improving_quote_is_best:
  assumes "wf_book book" "tsize t \<noteq> 0" "price t \<le> kMaxPrice"
    and "is_bid t \<longrightarrow> get_best_bid book = kNoBid \<or> get_best_bid book \<le> price t"
    and "\<not> is_bid t \<longrightarrow> price t \<le> get_best_ask book"
  shows "(if is_bid t then get_best_bid (apply_tick t book) else get_best_ask (apply_tick t book)) = price t"
  using lob.improving_bid [of book t] lob.improving_ask [of book t] assms by auto

theorem improving_quote_is_best_witness:
  "(if is_bid \<lparr>price = 57, tsize = 3, is_bid = True\<rparr>
    then get_best_bid (apply_tick \<lparr>price = 57, tsize = 3, is_bid = True\<rparr> empty_book)
    else get_best_ask (apply_tick \<lparr>price = 57, tsize = 3, is_bid = True\<rparr> empty_book)) = 57"
  using improving_quote_is_best [of empty_book "\<lparr>price = 57, tsize = 3, is_bid = True\<rparr>"]
    lob.no_bid_iff [OF wf_empty_book] by (simp add: kMaxPrice_def)

text \<open>
  A zero-size tick at the best bid deletes that level: the best bid falls to a
  strictly lower price, or to the sentinel when no other bid is left, and the ask side keeps its best price.
\<close>
theorem deleted_best_bid_recedes:
  assumes "wf_book book" "get_best_bid book \<noteq> kNoBid"
  defines "book' \<equiv> apply_tick \<lparr>price = get_best_bid book, tsize = 0, is_bid = True\<rparr> book"
  shows "(get_best_bid book' = kNoBid \<or> get_best_bid book' < get_best_bid book) \<and>
    get_best_ask book' = get_best_ask book"
  unfolding book'_def
  using lob.deleted_bid_falls_back [OF assms(1), of "\<lparr>price = get_best_bid book, tsize = 0, is_bid = True\<rparr>"] assms(2)
  by (simp add: get_best_ask_def apply_tick_eq)

theorem deleted_best_bid_recedes_witness:
  "let book = apply_ticks [\<lparr>price = 40, tsize = 7, is_bid = True\<rparr>, \<lparr>price = 57, tsize = 3, is_bid = True\<rparr>] empty_book;
       book' = apply_tick \<lparr>price = get_best_bid book, tsize = 0, is_bid = True\<rparr> book
   in (get_best_bid book' = kNoBid \<or> get_best_bid book' < get_best_bid book) \<and>
      get_best_ask book' = get_best_ask book"
proof -
  let ?t = "\<lparr>price = 40, tsize = 7, is_bid = True\<rparr>" and ?u = "\<lparr>price = 57, tsize = 3, is_bid = True\<rparr>"
  have "get_best_bid (apply_ticks [?t, ?u] empty_book) \<noteq> kNoBid"
    using lob.no_bid_iff [OF apply_ticks_wf, of "[?t, ?u]"]
      lob.level_fold [OF wf_empty_book, of "[?t, ?u]" True 40]
    by (auto simp: apply_ticks_def kMaxPrice_def)
  from deleted_best_bid_recedes [OF apply_ticks_wf this] show ?thesis by (simp only: Let_def)
qed

text \<open>
  Ticks for different levels commute, so the book does not depend on the order in
  which a snapshot lists its levels.
\<close>
theorem ticks_of_distinct_levels_commute:
  assumes "is_bid t \<noteq> is_bid u \<or> price t \<noteq> price u"
  shows "apply_tick u (apply_tick t book) = apply_tick t (apply_tick u book)"
proof (cases "is_bid t = is_bid u")
  case True
  then have "unat (price t) \<noteq> unat (price u)" using assms unsigned_word_eqI by auto
  with True show ?thesis by (auto simp: apply_tick_eq list_update_swap)
qed (auto simp: apply_tick_eq)

theorem ticks_of_distinct_levels_commute_witness:
  "apply_tick \<lparr>price = 41, tsize = 5, is_bid = True\<rparr> (apply_tick \<lparr>price = 40, tsize = 7, is_bid = True\<rparr> empty_book) =
   apply_tick \<lparr>price = 40, tsize = 7, is_bid = True\<rparr> (apply_tick \<lparr>price = 41, tsize = 5, is_bid = True\<rparr> empty_book)"
  by (rule ticks_of_distinct_levels_commute) simp

end
