(* ===== verification/SpscQueue.thy ===== *)
theory SpscQueue
  imports Prelude
begin

text \<open>
  The bounded ring of \<open>include/spsc_queue.hpp\<close>, one operation at a time. The storage cells are
  a list of \<open>'a option\<close>: \<open>None\<close> is raw storage, \<open>Some\<close> a live object, so that moving out of or
  destroying a dead cell (undefined in C++) is visible as \<open>Pop_undefined\<close> and \<open>None\<close>. The two
  indices are 64-bit words that grow without bound and wrap; the size is a parameter that the
  two static assertions restrict to the powers of two from 2 on.

  The locale \<open>bounded_fifo\<close> is the contract that both clients of the queue use (the parser and
  the engine, the engine and the logger); \<open>ring_size\<close> gives it for every valid size, and
  the clients' theories interpret \<open>ring_size\<close> at their sizes 65536 and 4096.
\<close>

unbundle bit_operations_syntax

record 'a spsc =
  buffer :: "'a option list"
  write_index :: u64
  read_index :: u64

datatype 'a pop_result = Pop_empty | Pop_item 'a | Pop_undefined

definition valid_size :: "u64 \<Rightarrow> bool" where
  "valid_size sz \<longleftrightarrow> 2 \<le> sz \<and> sz AND (sz - 1) = 0"

definition spsc_init :: "u64 \<Rightarrow> 'a spsc" where
  "spsc_init sz = \<lparr>buffer = replicate (unat sz) None, write_index = 0, read_index = 0\<rparr>"

definition spsc_slot :: "u64 \<Rightarrow> u64 \<Rightarrow> nat" where
  "spsc_slot sz i = unat (i AND (sz - 1))"

definition spsc_push :: "u64 \<Rightarrow> 'a \<Rightarrow> 'a spsc \<Rightarrow> bool \<times> 'a spsc" where
  "spsc_push sz item q =
     (let write = write_index q; read = read_index q
      in if write - read = sz then (False, q)
         else let slot = spsc_slot sz write
              in (True, q\<lparr>buffer := (buffer q)[slot := Some item], write_index := write + 1\<rparr>))"

definition spsc_pop :: "u64 \<Rightarrow> 'a spsc \<Rightarrow> 'a pop_result \<times> 'a spsc" where
  "spsc_pop sz q =
     (let read = read_index q; write = write_index q
      in if read = write then (Pop_empty, q)
         else let slot = spsc_slot sz read
              in case buffer q ! slot of
                   None \<Rightarrow> (Pop_undefined, q)
                 | Some x \<Rightarrow> (Pop_item x, q\<lparr>buffer := (buffer q)[slot := None], read_index := read + 1\<rparr>))"

function spsc_destroy_from :: "u64 \<Rightarrow> u64 \<Rightarrow> u64 \<Rightarrow> 'a option list \<Rightarrow> 'a option list option" where
  "spsc_destroy_from sz read write buf =
     (if read = write then Some buf
      else case buf ! spsc_slot sz read of
             None \<Rightarrow> None
           | Some x \<Rightarrow> spsc_destroy_from sz (read + 1) write (buf[spsc_slot sz read := None]))"
  by pat_completeness auto
termination
proof (relation "measure (\<lambda>(sz, r, w, buf). unat (w - r))")
  show "wf (measure (\<lambda>(sz, r, w, buf). unat (w - r)))" by simp
next
  fix sz r w :: u64 and buf :: "'a option list" and x
  assume "r \<noteq> w"
  then have "w - r \<noteq> 0" by simp
  then have "unat (w - r - 1) < unat (w - r)" by (rule measure_unat)
  then show "((sz, r + 1, w, buf[spsc_slot sz r := None]), (sz, r, w, buf))
      \<in> measure (\<lambda>(sz, r, w, buf). unat (w - r))"
    by (simp add: diff_diff_eq)
qed

declare spsc_destroy_from.simps [simp del]

definition spsc_destroy :: "u64 \<Rightarrow> 'a spsc \<Rightarrow> 'a option list option" where
  "spsc_destroy sz q = spsc_destroy_from sz (read_index q) (write_index q) (buffer q)"

section \<open>Powers of two\<close>

lemma nat_and_pred_power_of_two: "0 < n \<Longrightarrow> n AND (n - 1) = 0 \<Longrightarrow> \<exists>k. n = 2 ^ k" for n :: nat
proof (induction n rule: less_induct)
  case (less n)
  show ?case
  proof (cases "even n")
    case True
    then obtain m where m: "n = 2 * m" by blast
    with less.prems have "0 < m" by simp
    then have "n - 1 = 2 * (m - 1) + 1" using m by simp
    then have "n AND (n - 1) = 2 * (m AND (m - 1))"
      using m by (subst and_nat_rec) simp
    with less.prems m have "m AND (m - 1) = 0" by simp
    with less.IH [of m] m \<open>0 < m\<close> obtain k where "m = 2 ^ k" by auto
    then have "n = 2 ^ Suc k" using m by simp
    then show ?thesis by blast
  next
    case False
    then obtain m where m: "n = 2 * m + 1" by (elim oddE)
    then have "n - 1 = 2 * m" by simp
    then have "n AND (n - 1) = 2 * (m AND m)"
      using m by (subst and_nat_rec) simp
    with less.prems have "n = 2 ^ 0" using m by simp
    then show ?thesis by blast
  qed
qed

lemma valid_sizeE:
  assumes "valid_size sz"
  obtains k where "1 \<le> k" "k < 64" "unat sz = 2 ^ k" "sz = 2 ^ k"
proof -
  have sz: "2 \<le> unat sz" using assms by (simp add: valid_size_def word_le_nat_alt)
  have "unat sz AND unat (sz - 1) = 0"
    using assms by (simp add: valid_size_def flip: unsigned_and_eq)
  moreover have "unat (sz - 1) = unat sz - 1"
    using sz by (intro unat_minus_one) auto
  ultimately obtain k where k: "unat sz = 2 ^ k"
    using nat_and_pred_power_of_two [of "unat sz"] sz by auto
  have "unat sz < 2 ^ 64" by (rule unat_u64_less)
  then have "(2 :: nat) ^ k < 2 ^ 64" using k by simp
  then have "k < 64" by (rule power_less_imp_less_exp [rotated]) simp
  moreover have "1 \<le> k" using sz k by (cases k) auto
  moreover have "sz = word_of_nat (unat sz)" by simp
  then have "sz = 2 ^ k" by (simp only: k of_nat_power of_nat_numeral)
  ultimately show thesis using that k by blast
qed

lemma spsc_slot_mod:
  assumes "valid_size sz"
  shows "spsc_slot sz i = unat i mod unat sz"
proof -
  obtain k where k: "k < 64" "unat sz = 2 ^ k" "sz = 2 ^ k" using assms by (rule valid_sizeE)
  have "i AND (sz - 1) = take_bit k i"
    using k by (simp only: take_bit_eq_mask mask_eq_decr_exp)
  then have "spsc_slot sz i = take_bit k (unat i)"
    by (simp only: spsc_slot_def unsigned_take_bit_eq)
  then show ?thesis
    using k by (simp only: take_bit_eq_mod)
qed

lemma spsc_slot_less: "valid_size sz \<Longrightarrow> spsc_slot sz i < unat sz"
  by (auto simp: spsc_slot_mod elim: valid_sizeE)

lemma spsc_slot_add:
  assumes "valid_size sz"
  shows "spsc_slot sz (i + word_of_nat n) = (unat i + n) mod unat sz"
proof -
  obtain k where k: "k < 64" "unat sz = 2 ^ k" using assms by (rule valid_sizeE)
  then have dvd: "unat sz dvd 2 ^ 64" by (simp only: le_imp_power_dvd order_less_imp_le)
  have "unat (i + word_of_nat n) = (unat i + n) mod 2 ^ 64"
    by (simp add: unat_word_ariths unat_of_nat mod_add_right_eq)
  then show ?thesis using dvd by (simp add: spsc_slot_mod [OF assms] mod_mod_cancel)
qed

lemma mod_window_inj:
  assumes "(r + i) mod n = (r + j) mod n" "i < n" "j < n"
  shows "i = (j :: nat)"
proof -
  have "int i mod int n = int j mod int n"
    using assms(1) by (metis mod_add_eq add_diff_cancel_left' zmod_int of_nat_add mod_diff_left_eq)
  then show ?thesis using assms(2,3) by simp
qed

section \<open>The abstract contents\<close>

definition spsc_count :: "'a spsc \<Rightarrow> nat" where
  "spsc_count q = unat (write_index q - read_index q)"

definition live_slot :: "u64 \<Rightarrow> 'a spsc \<Rightarrow> nat \<Rightarrow> nat" where
  "live_slot sz q i = spsc_slot sz (read_index q + word_of_nat i)"

definition spsc_contents :: "u64 \<Rightarrow> 'a spsc \<Rightarrow> 'a list" where
  "spsc_contents sz q = map (\<lambda>i. the (buffer q ! live_slot sz q i)) [0..<spsc_count q]"

definition spsc_inv :: "u64 \<Rightarrow> 'a spsc \<Rightarrow> bool" where
  "spsc_inv sz q \<longleftrightarrow>
     valid_size sz \<and> length (buffer q) = unat sz \<and> spsc_count q \<le> unat sz \<and>
     (\<forall>s < unat sz. buffer q ! s \<noteq> None \<longleftrightarrow> s \<in> live_slot sz q ` {..<spsc_count q})"

lemma live_slot_inj:
  assumes "valid_size sz" "i < unat sz" "j < unat sz"
  shows "live_slot sz q i = live_slot sz q j \<longleftrightarrow> i = j"
  unfolding live_slot_def spsc_slot_add [OF assms(1)]
  using mod_window_inj [of "unat (read_index q)" i "unat sz" j] assms(2,3) by blast

lemma live_slot_less: "valid_size sz \<Longrightarrow> live_slot sz q i < unat sz"
  by (simp add: live_slot_def spsc_slot_less)

lemma live_slot_0: "live_slot sz q 0 = spsc_slot sz (read_index q)"
  by (simp add: live_slot_def)

lemma live_slot_count: "live_slot sz q (spsc_count q) = spsc_slot sz (write_index q)"
  by (simp add: live_slot_def spsc_count_def)

lemma length_spsc_contents: "length (spsc_contents sz q) = spsc_count q"
  by (simp add: spsc_contents_def)

lemma spsc_full_iff: "write_index q - read_index q = sz \<longleftrightarrow> spsc_count q = unat sz"
  unfolding spsc_count_def by (metis unsigned_word_eqI)

lemma spsc_empty_iff: "read_index q = write_index q \<longleftrightarrow> spsc_count q = 0"
  by (auto simp: spsc_count_def unat_eq_0)

lemma spsc_inv_init:
  assumes "valid_size sz"
  shows "spsc_inv sz (spsc_init sz)"
  using assms by (simp add: spsc_inv_def spsc_init_def spsc_count_def)

lemma spsc_contents_init: "spsc_contents sz (spsc_init sz) = []"
  by (simp add: spsc_contents_def spsc_init_def spsc_count_def)

lemma spsc_push_full:
  "spsc_count q = unat sz \<Longrightarrow> spsc_push sz x q = (False, q)"
  by (simp add: spsc_push_def Let_def spsc_full_iff)

text \<open>A push into a queue with room: the new cell, the index and the contents.\<close>

lemma spsc_push_room:
  assumes inv: "spsc_inv sz q" and room: "spsc_count q \<noteq> unat sz"
  obtains q' where "spsc_push sz x q = (True, q')" "spsc_inv sz q'"
    "spsc_contents sz q' = spsc_contents sz q @ [x]"
proof -
  let ?n = "spsc_count q"
  have v: "valid_size sz" and len: "length (buffer q) = unat sz" and n: "?n < unat sz"
    and cells: "\<And>s. s < unat sz \<Longrightarrow> buffer q ! s \<noteq> None \<longleftrightarrow> s \<in> live_slot sz q ` {..<?n}"
    using inv room by (auto simp: spsc_inv_def)
  define q' where "q' = q\<lparr>buffer := (buffer q)[live_slot sz q ?n := Some x], write_index := write_index q + 1\<rparr>"
  have push: "spsc_push sz x q = (True, q')"
    using room by (simp add: spsc_push_def Let_def q'_def spsc_full_iff live_slot_count)
  have "unat (write_index q - read_index q) + 1 < 2 ^ 64"
    using n unat_u64_less [of sz] by (simp add: spsc_count_def)
  then have "unat (write_index q - read_index q + 1) = unat (write_index q - read_index q) + 1"
    by (simp add: unat_plus_if')
  moreover have "write_index q' - read_index q' = write_index q - read_index q + 1"
    by (simp add: q'_def)
  ultimately have cnt: "spsc_count q' = Suc ?n" by (simp add: spsc_count_def)
  have slot: "live_slot sz q' i = live_slot sz q i" for i by (simp add: live_slot_def q'_def)
  have buf: "buffer q' ! s = (if s = live_slot sz q ?n then Some x else buffer q ! s)"
    if "s < unat sz" for s
    using that len by (simp add: q'_def nth_list_update)
  have "spsc_inv sz q'"
    unfolding spsc_inv_def cnt slot
    using v len n cells buf by (auto simp: q'_def lessThan_Suc)
  moreover have "spsc_contents sz q' = spsc_contents sz q @ [x]"
    unfolding spsc_contents_def cnt slot
    using n by (auto simp: buf live_slot_less [OF v] live_slot_inj [OF v _ n])
  ultimately show thesis using that push by blast
qed

text \<open>A pop from a non-empty queue: the oldest element leaves and its cell is destroyed.\<close>

lemma spsc_pop_item:
  assumes inv: "spsc_inv sz q" and some: "spsc_count q \<noteq> 0"
  obtains x q' where "spsc_pop sz q = (Pop_item x, q')" "spsc_inv sz q'"
    "spsc_contents sz q = x # spsc_contents sz q'"
proof -
  obtain n where n: "spsc_count q = Suc n" using some not0_implies_Suc by blast
  have v: "valid_size sz" and len: "length (buffer q) = unat sz" and le: "Suc n \<le> unat sz"
    and cells: "\<And>s. s < unat sz \<Longrightarrow> buffer q ! s \<noteq> None \<longleftrightarrow> s \<in> live_slot sz q ` {..<Suc n}"
    using inv n by (auto simp: spsc_inv_def)
  have zero: "0 < unat sz" using le by simp
  have "buffer q ! live_slot sz q 0 \<noteq> None"
    using cells [OF live_slot_less [OF v, of q 0]] by simp
  then obtain x where x: "buffer q ! live_slot sz q 0 = Some x" by blast
  define q' where "q' = q\<lparr>buffer := (buffer q)[live_slot sz q 0 := None], read_index := read_index q + 1\<rparr>"
  have pop: "spsc_pop sz q = (Pop_item x, q')"
    using x some by (simp add: spsc_pop_def Let_def spsc_empty_iff live_slot_0 q'_def)
  have "write_index q' - read_index q' = write_index q - read_index q - 1"
    by (simp add: q'_def diff_diff_eq)
  moreover have "write_index q - read_index q \<noteq> 0" using some by (auto simp: spsc_count_def)
  ultimately have cnt: "spsc_count q' = n"
    using n by (simp add: spsc_count_def unat_minus_one)
  have slot: "live_slot sz q' i = live_slot sz q (Suc i)" for i
    by (simp add: live_slot_def q'_def ac_simps)
  have buf: "buffer q' ! s = (if s = live_slot sz q 0 then None else buffer q ! s)"
    if "s < unat sz" for s
    using that len by (simp add: q'_def nth_list_update)
  have shift: "live_slot sz q ` {..<Suc n} = insert (live_slot sz q 0) (live_slot sz q' ` {..<n})"
    unfolding slot by (auto simp: lessThan_Suc_eq_insert_0)
  have fresh: "live_slot sz q 0 \<notin> live_slot sz q' ` {..<n}"
  proof
    assume "live_slot sz q 0 \<in> live_slot sz q' ` {..<n}"
    then obtain i where "i < n" "live_slot sz q 0 = live_slot sz q (Suc i)"
      unfolding slot by blast
    then show False using live_slot_inj [OF v zero, of "Suc i" q] le by simp
  qed
  have "spsc_inv sz q'"
    unfolding spsc_inv_def cnt
    using v len le cells shift fresh buf by (auto simp: q'_def)
  moreover have "spsc_contents sz q = x # spsc_contents sz q'"
    unfolding spsc_contents_def cnt n upt_conv_Cons [OF zero_less_Suc]
    using x le by (auto simp: slot buf live_slot_less [OF v] live_slot_inj [OF v _ zero]
        map_Suc_upt [symmetric] simp del: upt_Suc)
  ultimately show thesis using that pop by blast
qed

lemma spsc_pop_empty: "spsc_count q = 0 \<Longrightarrow> spsc_pop sz q = (Pop_empty, q)"
  by (simp add: spsc_pop_def Let_def spsc_empty_iff)

text \<open>The destructor's loop meets a live object in every cell it destroys and leaves none.\<close>

lemma spsc_destroy_all:
  "spsc_inv sz q \<Longrightarrow> spsc_destroy sz q = Some (replicate (unat sz) None)"
proof (induction "spsc_count q" arbitrary: q)
  case 0
  then have "\<forall>s < unat sz. buffer q ! s = None" by (simp add: spsc_inv_def)
  then have "buffer q = replicate (unat sz) None"
    using "0.prems" by (intro nth_equalityI) (simp_all add: spsc_inv_def)
  moreover have "read_index q = write_index q" using "0.hyps" by (simp add: spsc_empty_iff)
  ultimately show ?case by (simp add: spsc_destroy_def spsc_destroy_from.simps)
next
  case (Suc n)
  then have ne: "spsc_count q \<noteq> 0" by simp
  then obtain x q' where pop: "spsc_pop sz q = (Pop_item x, q')" and inv': "spsc_inv sz q'"
    and cont: "spsc_contents sz q = x # spsc_contents sz q'"
    using spsc_pop_item [OF Suc.prems] by blast
  have "spsc_count q' = n" using cont Suc.hyps(2) by (metis length_spsc_contents length_Cons nat.inject)
  then have "spsc_destroy sz q' = Some (replicate (unat sz) None)"
    using inv' Suc.hyps(1) by simp
  moreover have "spsc_destroy sz q = spsc_destroy sz q'"
    using pop ne
    by (auto simp: spsc_pop_def Let_def spsc_empty_iff spsc_destroy_def
        spsc_destroy_from.simps [of sz "read_index q"] split: option.splits if_splits)
  ultimately show ?case by simp
qed

section \<open>The interface of a bounded first-in first-out queue\<close>

fun push_all :: "('a \<Rightarrow> 'q \<Rightarrow> bool \<times> 'q) \<Rightarrow> 'a list \<Rightarrow> 'q \<Rightarrow> 'q" where
  "push_all push [] q = q"
| "push_all push (x # xs) q = push_all push xs (snd (push x q))"

fun pop_all :: "('q \<Rightarrow> 'a pop_result \<times> 'q) \<Rightarrow> nat \<Rightarrow> 'q \<Rightarrow> ('a list \<times> 'q) option" where
  "pop_all pop 0 q = None"
| "pop_all pop (Suc fuel) q =
     (case pop q of
        (Pop_empty, q') \<Rightarrow> Some ([], q')
      | (Pop_undefined, _) \<Rightarrow> None
      | (Pop_item x, q') \<Rightarrow> map_option (\<lambda>(xs, q''). (x # xs, q'')) (pop_all pop fuel q'))"

locale bounded_fifo =
  fixes push :: "'a \<Rightarrow> 'q \<Rightarrow> bool \<times> 'q"
    and pop :: "'q \<Rightarrow> 'a pop_result \<times> 'q"
    and contents :: "'q \<Rightarrow> 'a list"
    and inv :: "'q \<Rightarrow> bool"
    and cap :: nat
  assumes bounded: "inv q \<Longrightarrow> length (contents q) \<le> cap"
    and push_full: "inv q \<Longrightarrow> length (contents q) = cap \<Longrightarrow> push x q = (False, q)"
    and push_room: "inv q \<Longrightarrow> length (contents q) < cap \<Longrightarrow>
      \<exists>q'. push x q = (True, q') \<and> inv q' \<and> contents q' = contents q @ [x]"
    and pop_empty: "inv q \<Longrightarrow> contents q = [] \<Longrightarrow> pop q = (Pop_empty, q)"
    and pop_item: "inv q \<Longrightarrow> contents q = x # xs \<Longrightarrow>
      \<exists>q'. pop q = (Pop_item x, q') \<and> inv q' \<and> contents q' = xs"
begin

lemma push_cases:
  assumes "inv q"
  obtains "length (contents q) = cap" "push x q = (False, q)"
  | q' where "length (contents q) < cap" "push x q = (True, q')" "inv q'" "contents q' = contents q @ [x]"
  using bounded [OF assms] push_full [OF assms] push_room [OF assms] by (meson le_neq_implies_less)

lemma pop_cases:
  assumes "inv q"
  obtains "contents q = []" "pop q = (Pop_empty, q)"
  | x q' where "pop q = (Pop_item x, q')" "inv q'" "contents q = x # contents q'"
  using pop_empty [OF assms] pop_item [OF assms] by (cases "contents q") auto

lemma inv_push: "inv q \<Longrightarrow> inv (snd (push x q))"
  by (rule push_cases [of q x]) simp_all

lemma inv_pop: "inv q \<Longrightarrow> inv (snd (pop q))"
  by (rule pop_cases [of q]) simp_all

lemma pop_defined: "inv q \<Longrightarrow> fst (pop q) \<noteq> Pop_undefined"
  by (rule pop_cases [of q]) simp_all

lemma contents_push: "inv q \<Longrightarrow> contents (snd (push x q)) = take cap (contents q @ [x])"
  by (rule push_cases [of q x]) simp_all

lemma push_accepts: "inv q \<Longrightarrow> fst (push x q) \<longleftrightarrow> length (contents q) < cap"
  by (rule push_cases [of q x]) simp_all

lemma contents_push_all:
  "inv q \<Longrightarrow> inv (push_all push xs q) \<and> contents (push_all push xs q) = take cap (contents q @ xs)"
proof (induction xs arbitrary: q)
  case Nil
  then show ?case using bounded [of q] by simp
next
  case (Cons x xs)
  let ?q' = "snd (push x q)"
  have "inv ?q'" using Cons.prems by (rule inv_push)
  then have "inv (push_all push xs ?q') \<and> contents (push_all push xs ?q') = take cap (contents ?q' @ xs)"
    by (rule Cons.IH)
  moreover have "take cap (take cap (contents q @ [x]) @ xs) = take cap (contents q @ x # xs)"
    using bounded [OF Cons.prems] by (cases "length (contents q) = cap") simp_all
  ultimately show ?case using contents_push [OF Cons.prems] by simp
qed

lemma pop_all_drains:
  "inv q \<Longrightarrow> length (contents q) < fuel \<Longrightarrow>
   \<exists>q'. pop_all pop fuel q = Some (contents q, q') \<and> inv q' \<and> contents q' = []"
proof (induction fuel arbitrary: q)
  case 0
  then show ?case by simp
next
  case (Suc fuel)
  from Suc.prems(1) show ?case
  proof (cases rule: pop_cases)
    case 1
    with Suc.prems show ?thesis by simp
  next
    case (2 x q')
    with Suc.prems Suc.IH [of q'] show ?thesis by auto
  qed
qed

lemma push_then_pop_all:
  assumes "inv q" "length (contents q) + length xs \<le> cap" "cap < fuel"
  shows "\<exists>q'. pop_all pop fuel (push_all push xs q) = Some (contents q @ xs, q')"
proof -
  have "inv (push_all push xs q)" "contents (push_all push xs q) = contents q @ xs"
    using contents_push_all [OF assms(1), of xs] assms(2) by simp_all
  then show ?thesis using pop_all_drains [of "push_all push xs q" fuel] assms(2,3) by auto
qed

end

lemma spsc_bounded_fifo:
  "valid_size sz \<Longrightarrow>
   bounded_fifo (spsc_push sz) (spsc_pop sz) (spsc_contents sz) (spsc_inv sz) (unat sz)"
proof (unfold_locales, goal_cases)
  case (1 q)
  then show ?case by (simp add: length_spsc_contents spsc_inv_def)
next
  case (2 q x)
  then show ?case by (simp add: length_spsc_contents spsc_push_full)
next
  case (3 q x)
  then have "spsc_count q \<noteq> unat sz" by (simp add: length_spsc_contents)
  with 3 show ?case by (metis spsc_push_room)
next
  case (4 q)
  then have "spsc_count q = 0" by (metis length_spsc_contents list.size(3))
  then show ?case by (rule spsc_pop_empty)
next
  case (5 q x xs)
  then have "spsc_count q \<noteq> 0" by (metis length_spsc_contents list.size(4) add_is_0 one_neq_zero One_nat_def)
  with 5 show ?case by (metis spsc_pop_item list.inject)
qed

text \<open>The two static assertions of the class template are the only assumption on the size.\<close>

locale ring_size =
  fixes sz :: u64
  assumes static_assert: "valid_size sz"

sublocale ring_size \<subseteq> bounded_fifo "spsc_push sz" "spsc_pop sz" "spsc_contents sz" "spsc_inv sz" "unat sz"
  by (rule spsc_bounded_fifo [OF static_assert])

section \<open>The two sizes of the engine\<close>

lemma valid_size_4: "valid_size 4"
  by (simp add: valid_size_def)

lemma inv_init_4: "spsc_inv 4 (spsc_init 4)"
  by (rule spsc_inv_init [OF valid_size_4])

section \<open>Properties\<close>

text \<open>
  C17: on every queue state that satisfies the invariant, for every size that passes the two static
  assertions, \<open>push\<close> and \<open>pop\<close> are the operations of a bounded first-in first-out queue on the
  abstract contents: \<open>push\<close> appends and answers true when there is room, changes nothing and
  answers false when the queue holds \<open>sz\<close> items; \<open>pop\<close> returns the oldest item and never moves
  out of a dead cell. The indices wrap around at \<open>2 ^ 64\<close>.
\<close>
theorem ring_refines_fifo:
  assumes "valid_size sz" "spsc_inv sz q"
  shows "(let (accepted, q') = spsc_push sz x q
      in spsc_inv sz q' \<and> accepted = (length (spsc_contents sz q) < unat sz) \<and>
         spsc_contents sz q' = (if accepted then spsc_contents sz q @ [x] else spsc_contents sz q)) \<and>
    (case spsc_contents sz q of
        [] \<Rightarrow> spsc_pop sz q = (Pop_empty, q)
      | y # ys \<Rightarrow> (\<exists>q'. spsc_pop sz q = (Pop_item y, q') \<and> spsc_inv sz q' \<and> spsc_contents sz q' = ys))"
proof (intro conjI)
  note fifo = spsc_bounded_fifo [OF assms(1)]
  show "let (accepted, q') = spsc_push sz x q
      in spsc_inv sz q' \<and> accepted = (length (spsc_contents sz q) < unat sz) \<and>
         spsc_contents sz q' = (if accepted then spsc_contents sz q @ [x] else spsc_contents sz q)"
    using assms(2) by (rule bounded_fifo.push_cases [OF fifo, of q x]) (use assms(2) in simp_all)
  show "case spsc_contents sz q of
        [] \<Rightarrow> spsc_pop sz q = (Pop_empty, q)
      | y # ys \<Rightarrow> (\<exists>q'. spsc_pop sz q = (Pop_item y, q') \<and> spsc_inv sz q' \<and> spsc_contents sz q' = ys)"
    using assms(2) by (rule bounded_fifo.pop_cases [OF fifo, of q]) simp_all
qed

theorem ring_refines_fifo_witness:
  "(let (accepted, q') = spsc_push 4 (9 :: nat) (spsc_init 4)
      in spsc_inv 4 q' \<and> accepted = (length (spsc_contents 4 (spsc_init 4 :: nat spsc)) < unat (4 :: u64)) \<and>
         spsc_contents 4 q' = (if accepted then spsc_contents 4 (spsc_init 4) @ [9] else spsc_contents 4 (spsc_init 4)))"
  using ring_refines_fifo [OF valid_size_4 inv_init_4, of 9] by blast

text \<open>
  Items that fit are popped in the order they were pushed, none lost or invented, whatever the
  indices were at the start; a consumer that pops until the queue is empty gets all of them.
\<close>
theorem ring_round_trip:
  assumes "valid_size sz" "spsc_inv sz q" "length (spsc_contents sz q) + length xs \<le> unat sz" "unat sz < fuel"
  shows "\<exists>q'. pop_all (spsc_pop sz) fuel (push_all (spsc_push sz) xs q) = Some (spsc_contents sz q @ xs, q')"
  using bounded_fifo.push_then_pop_all [OF spsc_bounded_fifo [OF assms(1)] assms(2-4)] .

theorem ring_round_trip_witness:
  "\<exists>q'. pop_all (spsc_pop 4) 5 (push_all (spsc_push 4) [7, 8, 9 :: nat] (spsc_init 4)) = Some ([7, 8, 9], q')"
  using ring_round_trip [OF valid_size_4 inv_init_4, of "[7, 8, 9 :: nat]" 5] by (simp add: spsc_contents_init)

text \<open>
  C38: the destructor's loop ends, calls \<open>destroy_at\<close> only on cells that hold an object,
  and leaves no live object behind.
\<close>
theorem destructor_destroys_live_items:
  assumes "spsc_inv sz q"
  shows "spsc_destroy sz q = Some (replicate (unat sz) None)"
  using assms by (rule spsc_destroy_all)

theorem destructor_destroys_live_items_witness:
  "spsc_destroy 4 (snd (spsc_push 4 (9 :: nat) (spsc_init 4))) = Some (replicate 4 None)"
proof -
  have "spsc_inv 4 (snd (spsc_push 4 (9 :: nat) (spsc_init 4)))"
    by (rule bounded_fifo.inv_push [OF spsc_bounded_fifo [OF valid_size_4] inv_init_4])
  from destructor_destroys_live_items [OF this] show ?thesis by simp
qed

end
