(* ===== verification/SpscConcurrent.thy ===== *)
theory SpscConcurrent
  imports SpscQueue
begin

text \<open>
  The same ring shared by its two threads. Each atomic load and store and each access to a
  cell of \<open>SpscQueue::push\<close> and \<open>SpscQueue::pop\<close> (\<open>include/spsc_queue.hpp\<close>) is a step of its own, and the steps
  of the two threads interleave freely. An index is its modification order, the list of all
  values stored to it: a thread reads its own index exactly, and the other thread's index with
  an acquire load that may return any value not older than the last one it read. The
  release store publishes the accesses that precede it; \<open>p_stamp\<close> and \<open>c_stamp\<close> hold, per
  cell, the store that publishes the last access, and an access whose counterpart's stamp has not been
  read is a data race, which sets \<open>undefined_behaviour\<close>. \<open>pushed\<close> and \<open>popped\<close> are ghost
  histories of the two release stores.
\<close>

datatype 'a producer_pc =
    P_idle
  | P_own 'a u64
  | P_checked 'a u64 u64
  | P_room 'a u64
  | P_built 'a u64

datatype 'a consumer_pc =
    C_idle
  | C_own u64
  | C_checked u64 u64
  | C_item u64
  | C_moved 'a u64
  | C_destroyed 'a u64

record 'a spsc_sys =
  cells :: "'a option list"
  write_hist :: "u64 list"
  read_hist :: "u64 list"
  p_seen :: nat
  c_seen :: nat
  p_pc :: "'a producer_pc"
  c_pc :: "'a consumer_pc"
  p_stamp :: "nat \<Rightarrow> nat"
  c_stamp :: "nat \<Rightarrow> nat"
  pushed :: "'a list"
  popped :: "'a list"
  undefined_behaviour :: bool

definition sys_init :: "u64 \<Rightarrow> 'a spsc_sys" where
  "sys_init sz =
     \<lparr>cells = replicate (unat sz) None, write_hist = [0], read_hist = [0], p_seen = 0, c_seen = 0,
      p_pc = P_idle, c_pc = C_idle, p_stamp = (\<lambda>_. 0), c_stamp = (\<lambda>_. 0),
      pushed = [], popped = [], undefined_behaviour = False\<rparr>"

inductive spsc_step :: "u64 \<Rightarrow> 'a spsc_sys \<Rightarrow> 'a spsc_sys \<Rightarrow> bool" for sz :: u64 where
  push_load_own:
    "p_pc s = P_idle \<Longrightarrow>
     spsc_step sz s (s\<lparr>p_pc := P_own x (last (write_hist s))\<rparr>)"
| push_load_other:
    "p_pc s = P_own x w \<Longrightarrow> p_seen s \<le> v \<Longrightarrow> v < length (read_hist s) \<Longrightarrow>
     spsc_step sz s (s\<lparr>p_pc := P_checked x w (read_hist s ! v), p_seen := v\<rparr>)"
| push_full:
    "p_pc s = P_checked x w r \<Longrightarrow> w - r = sz \<Longrightarrow>
     spsc_step sz s (s\<lparr>p_pc := P_idle\<rparr>)"
| push_room:
    "p_pc s = P_checked x w r \<Longrightarrow> w - r \<noteq> sz \<Longrightarrow>
     spsc_step sz s (s\<lparr>p_pc := P_room x w\<rparr>)"
| push_construct:
    "p_pc s = P_room x w \<Longrightarrow>
     spsc_step sz s
       (s\<lparr>p_pc := P_built x w,
          cells := (cells s)[spsc_slot sz w := Some x],
          p_stamp := (p_stamp s)(spsc_slot sz w := length (write_hist s)),
          undefined_behaviour := undefined_behaviour s \<or> p_seen s < c_stamp s (spsc_slot sz w)\<rparr>)"
| push_publish:
    "p_pc s = P_built x w \<Longrightarrow>
     spsc_step sz s
       (s\<lparr>p_pc := P_idle, write_hist := write_hist s @ [w + 1], pushed := pushed s @ [x]\<rparr>)"
| pop_load_own:
    "c_pc s = C_idle \<Longrightarrow>
     spsc_step sz s (s\<lparr>c_pc := C_own (last (read_hist s))\<rparr>)"
| pop_load_other:
    "c_pc s = C_own r \<Longrightarrow> c_seen s \<le> v \<Longrightarrow> v < length (write_hist s) \<Longrightarrow>
     spsc_step sz s (s\<lparr>c_pc := C_checked r (write_hist s ! v), c_seen := v\<rparr>)"
| pop_empty:
    "c_pc s = C_checked r w \<Longrightarrow> r = w \<Longrightarrow>
     spsc_step sz s (s\<lparr>c_pc := C_idle\<rparr>)"
| pop_item:
    "c_pc s = C_checked r w \<Longrightarrow> r \<noteq> w \<Longrightarrow>
     spsc_step sz s (s\<lparr>c_pc := C_item r\<rparr>)"
| pop_move:
    "c_pc s = C_item r \<Longrightarrow> cells s ! spsc_slot sz r = Some x \<Longrightarrow>
     spsc_step sz s
       (s\<lparr>c_pc := C_moved x r,
          c_stamp := (c_stamp s)(spsc_slot sz r := length (read_hist s)),
          undefined_behaviour := undefined_behaviour s \<or> c_seen s < p_stamp s (spsc_slot sz r)\<rparr>)"
| pop_move_dead:
    "c_pc s = C_item r \<Longrightarrow> cells s ! spsc_slot sz r = None \<Longrightarrow>
     spsc_step sz s (s\<lparr>undefined_behaviour := True\<rparr>)"
| pop_destroy:
    "c_pc s = C_moved x r \<Longrightarrow>
     spsc_step sz s
       (s\<lparr>c_pc := C_destroyed x r,
          cells := (cells s)[spsc_slot sz r := None],
          c_stamp := (c_stamp s)(spsc_slot sz r := length (read_hist s)),
          undefined_behaviour := undefined_behaviour s \<or> c_seen s < p_stamp s (spsc_slot sz r) \<or>
            cells s ! spsc_slot sz r = None\<rparr>)"
| pop_publish:
    "c_pc s = C_destroyed x r \<Longrightarrow>
     spsc_step sz s
       (s\<lparr>c_pc := C_idle, read_hist := read_hist s @ [r + 1], popped := popped s @ [x]\<rparr>)"

inductive sys_reachable :: "u64 \<Rightarrow> 'a spsc_sys \<Rightarrow> bool" for sz :: u64 where
  start: "sys_reachable sz (sys_init sz)"
| step: "sys_reachable sz s \<Longrightarrow> spsc_step sz s t \<Longrightarrow> sys_reachable sz t"

section \<open>The invariant\<close>

definition written :: "'a spsc_sys \<Rightarrow> nat" where
  "written s = length (pushed s)"

definition taken :: "'a spsc_sys \<Rightarrow> nat" where
  "taken s = length (popped s)"

definition building :: "'a spsc_sys \<Rightarrow> 'a list" where
  "building s = (case p_pc s of P_built x _ \<Rightarrow> [x] | _ \<Rightarrow> [])"

definition taking :: "'a spsc_sys \<Rightarrow> nat" where
  "taking s = (case c_pc s of C_destroyed _ _ \<Rightarrow> 1 | _ \<Rightarrow> 0)"

definition touching :: "'a spsc_sys \<Rightarrow> nat" where
  "touching s = (case c_pc s of C_destroyed _ _ \<Rightarrow> 1 | C_moved _ _ \<Rightarrow> 1 | _ \<Rightarrow> 0)"

definition elements :: "'a spsc_sys \<Rightarrow> 'a list" where
  "elements s = pushed s @ building s"

definition index_inv :: "nat \<Rightarrow> 'a spsc_sys \<Rightarrow> bool" where
  "index_inv n s \<longleftrightarrow>
     write_hist s = map word_of_nat [0..<Suc (written s)] \<and>
     read_hist s = map word_of_nat [0..<Suc (taken s)] \<and>
     p_seen s \<le> taken s \<and> c_seen s \<le> written s \<and>
     taken s \<le> c_seen s \<and> written s \<le> p_seen s + n"

definition producer_inv :: "nat \<Rightarrow> 'a spsc_sys \<Rightarrow> bool" where
  "producer_inv n s \<longleftrightarrow>
     (case p_pc s of
        P_idle \<Rightarrow> True
      | P_own x w \<Rightarrow> w = word_of_nat (written s)
      | P_checked x w r \<Rightarrow> w = word_of_nat (written s) \<and> r = word_of_nat (p_seen s)
      | P_room x w \<Rightarrow> w = word_of_nat (written s) \<and> written s < p_seen s + n
      | P_built x w \<Rightarrow> w = word_of_nat (written s) \<and> written s < p_seen s + n)"

definition consumer_inv :: "'a spsc_sys \<Rightarrow> bool" where
  "consumer_inv s \<longleftrightarrow>
     (case c_pc s of
        C_idle \<Rightarrow> True
      | C_own r \<Rightarrow> r = word_of_nat (taken s)
      | C_checked r w \<Rightarrow> r = word_of_nat (taken s) \<and> w = word_of_nat (c_seen s)
      | C_item r \<Rightarrow> r = word_of_nat (taken s) \<and> taken s < c_seen s
      | C_moved x r \<Rightarrow> r = word_of_nat (taken s) \<and> taken s < c_seen s \<and> pushed s ! taken s = x
      | C_destroyed x r \<Rightarrow> r = word_of_nat (taken s) \<and> taken s < c_seen s \<and> pushed s ! taken s = x)"

definition cell_inv :: "nat \<Rightarrow> 'a spsc_sys \<Rightarrow> bool" where
  "cell_inv n s \<longleftrightarrow>
     length (cells s) = n \<and>
     (\<forall>i. taken s + taking s \<le> i \<and> i < length (elements s) \<longrightarrow> cells s ! (i mod n) = Some (elements s ! i)) \<and>
     (\<forall>c < n. cells s ! c \<noteq> None \<longrightarrow>
        (\<exists>i. taken s + taking s \<le> i \<and> i < length (elements s) \<and> i mod n = c))"

definition stamp_inv :: "nat \<Rightarrow> 'a spsc_sys \<Rightarrow> bool" where
  "stamp_inv n s \<longleftrightarrow>
     (\<forall>c < n. p_stamp s c \<noteq> 0 \<longrightarrow> p_stamp s c \<le> length (elements s) \<and> (p_stamp s c - 1) mod n = c) \<and>
     (\<forall>c < n. c_stamp s c \<noteq> 0 \<longrightarrow> c_stamp s c \<le> taken s + touching s \<and> (c_stamp s c - 1) mod n = c)"

definition order_inv :: "'a spsc_sys \<Rightarrow> bool" where
  "order_inv s \<longleftrightarrow> popped s = take (taken s) (pushed s)"

definition sys_inv :: "u64 \<Rightarrow> 'a spsc_sys \<Rightarrow> bool" where
  "sys_inv sz s \<longleftrightarrow>
     index_inv (unat sz) s \<and> producer_inv (unat sz) s \<and> consumer_inv s \<and> cell_inv (unat sz) s \<and>
     stamp_inv (unat sz) s \<and> order_inv s \<and> \<not> undefined_behaviour s"

lemmas phase_defs = written_def taken_def building_def taking_def touching_def elements_def
lemmas inv_defs = index_inv_def producer_inv_def consumer_inv_def cell_inv_def stamp_inv_def order_inv_def

lemma mod_gap:
  assumes "i mod n = j mod n" "i < (j :: nat)"
  shows "i + n \<le> j"
proof -
  have "n dvd j - i" using mod_eq_dvd_iff_nat [of i j n] assms by simp
  then have "n \<le> j - i" using assms(2) by (intro dvd_imp_le) auto
  then show ?thesis using assms(2) by linarith
qed

lemma slot_of_position: "valid_size sz \<Longrightarrow> spsc_slot sz (word_of_nat i) = i mod unat sz"
  using spsc_slot_add [of sz 0 i] by simp

lemma sys_inv_init: "valid_size sz \<Longrightarrow> sys_inv sz (sys_init sz)"
  by (simp add: sys_inv_def inv_defs phase_defs sys_init_def)

lemma word_of_nat_diff_eq:
  assumes "v \<le> w" "w - v \<le> unat (sz :: u64)"
  shows "word_of_nat w - word_of_nat v = sz \<longleftrightarrow> w - v = unat sz"
proof -
  have "w - v < 2 ^ 64" using assms(2) unat_u64_less [of sz] by linarith
  then have "unat (word_of_nat (w - v) :: u64) = w - v" by (simp add: unat_of_nat)
  moreover have "word_of_nat w - word_of_nat v = (word_of_nat (w - v) :: u64)"
    using assms(1) by simp
  ultimately show ?thesis by (metis unsigned_word_eqI)
qed

lemma word_of_nat_eq_window:
  assumes "v \<le> w" "w - v \<le> unat (sz :: u64)"
  shows "word_of_nat v = (word_of_nat w :: u64) \<longleftrightarrow> v = w"
proof -
  have "w - v < 2 ^ 64" using assms(2) unat_u64_less [of sz] by linarith
  then have "unat (word_of_nat (w - v) :: u64) = w - v" by (simp add: unat_of_nat)
  moreover have "word_of_nat w - word_of_nat v = (word_of_nat (w - v) :: u64)"
    using assms(1) by simp
  ultimately have "(word_of_nat w :: u64) = word_of_nat v \<Longrightarrow> w - v = 0"
    by (metis diff_self unsigned_0)
  then show ?thesis using assms(1) by auto
qed

lemma history_last [simp]: "last (map word_of_nat [0..<Suc n]) = (word_of_nat n :: u64)"
  by simp

lemma history_nth [simp]: "v < Suc n \<Longrightarrow> map word_of_nat [0..<Suc n] ! v = (word_of_nat v :: u64)"
  by (simp only: nth_map length_upt nth_upt) simp

lemma history_snoc [simp]:
  "map word_of_nat [0..<Suc n] @ [word_of_nat n + 1 :: u64] = map word_of_nat [0..<Suc (Suc n)]"
  by (simp add: add.commute)

declare upt_Suc [simp del]

text \<open>Which fields each part of the invariant reads.\<close>

lemma index_frame [simp]:
  "index_inv n (s\<lparr>cells := a\<rparr>) = index_inv n s" "index_inv n (s\<lparr>p_pc := b\<rparr>) = index_inv n s"
  "index_inv n (s\<lparr>c_pc := c\<rparr>) = index_inv n s" "index_inv n (s\<lparr>p_stamp := d\<rparr>) = index_inv n s"
  "index_inv n (s\<lparr>c_stamp := d\<rparr>) = index_inv n s"
  "index_inv n (s\<lparr>undefined_behaviour := e\<rparr>) = index_inv n s"
  by (simp_all add: index_inv_def phase_defs)

lemma producer_frame [simp]:
  "producer_inv n (s\<lparr>cells := a\<rparr>) = producer_inv n s" "producer_inv n (s\<lparr>c_pc := c\<rparr>) = producer_inv n s"
  "producer_inv n (s\<lparr>p_stamp := d\<rparr>) = producer_inv n s" "producer_inv n (s\<lparr>c_stamp := d\<rparr>) = producer_inv n s"
  "producer_inv n (s\<lparr>read_hist := h\<rparr>) = producer_inv n s" "producer_inv n (s\<lparr>popped := p\<rparr>) = producer_inv n s"
  "producer_inv n (s\<lparr>c_seen := v\<rparr>) = producer_inv n s" 
  "producer_inv n (s\<lparr>undefined_behaviour := e\<rparr>) = producer_inv n s"
  by (simp_all add: producer_inv_def phase_defs cong: producer_pc.case_cong)

lemma consumer_frame [simp]:
  "consumer_inv (s\<lparr>cells := a\<rparr>) = consumer_inv s" "consumer_inv (s\<lparr>p_pc := b\<rparr>) = consumer_inv s"
  "consumer_inv (s\<lparr>p_stamp := d\<rparr>) = consumer_inv s" "consumer_inv (s\<lparr>c_stamp := d\<rparr>) = consumer_inv s"
  "consumer_inv (s\<lparr>write_hist := h\<rparr>) = consumer_inv s" "consumer_inv (s\<lparr>p_seen := v\<rparr>) = consumer_inv s"
  "consumer_inv (s\<lparr>undefined_behaviour := e\<rparr>) = consumer_inv s"
  by (simp_all add: consumer_inv_def phase_defs cong: consumer_pc.case_cong)

lemma cell_frame [simp]:
  "cell_inv n (s\<lparr>p_stamp := d\<rparr>) = cell_inv n s" "cell_inv n (s\<lparr>c_stamp := d\<rparr>) = cell_inv n s"
  "cell_inv n (s\<lparr>write_hist := h\<rparr>) = cell_inv n s" "cell_inv n (s\<lparr>read_hist := h\<rparr>) = cell_inv n s"
  "cell_inv n (s\<lparr>p_seen := v\<rparr>) = cell_inv n s" "cell_inv n (s\<lparr>c_seen := v\<rparr>) = cell_inv n s"
  "cell_inv n (s\<lparr>undefined_behaviour := e\<rparr>) = cell_inv n s"
  by (simp_all add: cell_inv_def phase_defs)

lemma stamp_frame [simp]:
  "stamp_inv n (s\<lparr>cells := a\<rparr>) = stamp_inv n s"
  "stamp_inv n (s\<lparr>write_hist := h\<rparr>) = stamp_inv n s" "stamp_inv n (s\<lparr>read_hist := h\<rparr>) = stamp_inv n s"
  "stamp_inv n (s\<lparr>p_seen := v\<rparr>) = stamp_inv n s" "stamp_inv n (s\<lparr>c_seen := v\<rparr>) = stamp_inv n s"
  "stamp_inv n (s\<lparr>undefined_behaviour := e\<rparr>) = stamp_inv n s"
  by (simp_all add: stamp_inv_def phase_defs)

lemma order_frame [simp]:
  "order_inv (s\<lparr>cells := a\<rparr>) = order_inv s" "order_inv (s\<lparr>p_pc := b\<rparr>) = order_inv s"
  "order_inv (s\<lparr>c_pc := c\<rparr>) = order_inv s" "order_inv (s\<lparr>p_stamp := d\<rparr>) = order_inv s"
  "order_inv (s\<lparr>c_stamp := d\<rparr>) = order_inv s" "order_inv (s\<lparr>write_hist := h\<rparr>) = order_inv s"
  "order_inv (s\<lparr>read_hist := h\<rparr>) = order_inv s" "order_inv (s\<lparr>p_seen := v\<rparr>) = order_inv s"
  "order_inv (s\<lparr>c_seen := v\<rparr>) = order_inv s" "order_inv (s\<lparr>undefined_behaviour := e\<rparr>) = order_inv s"
  by (simp_all add: order_inv_def phase_defs)

lemma producer_pc_frame:
  assumes "building (s\<lparr>p_pc := pc\<rparr>) = building s"
  shows "cell_inv n (s\<lparr>p_pc := pc\<rparr>) = cell_inv n s" "stamp_inv n (s\<lparr>p_pc := pc\<rparr>) = stamp_inv n s"
  using assms by (simp_all add: cell_inv_def stamp_inv_def elements_def taken_def taking_def touching_def)

lemma consumer_pc_frame:
  assumes "taking (s\<lparr>c_pc := pc\<rparr>) = taking s"
  shows "cell_inv n (s\<lparr>c_pc := pc\<rparr>) = cell_inv n s"
  using assms by (simp_all add: cell_inv_def elements_def taken_def building_def)

lemma consumer_pc_frame_touching:
  assumes "touching (s\<lparr>c_pc := pc\<rparr>) = touching s"
  shows "stamp_inv n (s\<lparr>c_pc := pc\<rparr>) = stamp_inv n s"
  using assms by (simp_all add: stamp_inv_def elements_def taken_def building_def)

lemmas pc_frames = producer_pc_frame consumer_pc_frame consumer_pc_frame_touching

section \<open>Every step keeps the invariant\<close>

lemma push_load_own_inv:
  assumes "sys_inv sz s" "p_pc s = P_idle"
  shows "sys_inv sz (s\<lparr>p_pc := P_own x (last (write_hist s))\<rparr>)"
  using assms by (simp add: sys_inv_def pc_frames building_def)
    (simp add: producer_inv_def index_inv_def written_def)

lemma push_load_other_inv:
  assumes "sys_inv sz s" "p_pc s = P_own x w" "p_seen s \<le> v" "v < length (read_hist s)"
  shows "sys_inv sz (s\<lparr>p_pc := P_checked x w (read_hist s ! v), p_seen := v\<rparr>)"
  using assms by (simp add: sys_inv_def pc_frames building_def)
    (simp add: producer_inv_def index_inv_def phase_defs)

lemma push_full_inv:
  assumes "sys_inv sz s" "p_pc s = P_checked x w r"
  shows "sys_inv sz (s\<lparr>p_pc := P_idle\<rparr>)"
  using assms by (simp add: sys_inv_def pc_frames building_def) (simp add: producer_inv_def)

lemma push_room_inv:
  assumes "sys_inv sz s" "p_pc s = P_checked x w r" "w - r \<noteq> sz"
  shows "sys_inv sz (s\<lparr>p_pc := P_room x w\<rparr>)"
proof -
  have "p_seen s \<le> written s" "written s - p_seen s \<le> unat sz"
    and "w = word_of_nat (written s)" "r = word_of_nat (p_seen s)"
    using assms by (auto simp: sys_inv_def index_inv_def producer_inv_def)
  then have "written s - p_seen s \<noteq> unat sz" using assms(3) word_of_nat_diff_eq by blast
  then show ?thesis using assms
    by (simp add: sys_inv_def pc_frames building_def) (auto simp: producer_inv_def index_inv_def phase_defs)
qed

lemma push_publish_inv:
  assumes "sys_inv sz s" "p_pc s = P_built x w"
  shows "sys_inv sz (s\<lparr>p_pc := P_idle, write_hist := write_hist s @ [w + 1], pushed := pushed s @ [x]\<rparr>)"
    (is "sys_inv sz ?t")
proof -
  have el: "elements ?t = elements s" using assms(2) by (simp add: elements_def building_def)
  have ph: "taken ?t = taken s" "taking ?t = taking s" "touching ?t = touching s"
    by (simp_all add: phase_defs)
  have w: "written ?t = Suc (written s)" by (simp add: written_def)
  have le: "taken s \<le> written s" using assms(1) by (auto simp: sys_inv_def index_inv_def)
  have "index_inv (unat sz) ?t" "producer_inv (unat sz) ?t"
    using assms by (auto simp: sys_inv_def index_inv_def producer_inv_def written_def taken_def)
  moreover have "consumer_inv ?t"
    using assms le
    by (auto simp: sys_inv_def consumer_inv_def index_inv_def phase_defs nth_append split: consumer_pc.splits)
  moreover have "cell_inv (unat sz) ?t" "stamp_inv (unat sz) ?t"
    using assms(1) el ph by (simp_all add: sys_inv_def cell_inv_def stamp_inv_def)
  moreover have "order_inv ?t"
    using assms(1) le by (simp add: sys_inv_def order_inv_def phase_defs)
  ultimately show ?thesis using assms(1) by (simp add: sys_inv_def)
qed

lemma pop_load_own_inv:
  assumes "sys_inv sz s" "c_pc s = C_idle"
  shows "sys_inv sz (s\<lparr>c_pc := C_own (last (read_hist s))\<rparr>)"
  using assms by (simp add: sys_inv_def pc_frames taking_def touching_def)
    (simp add: consumer_inv_def index_inv_def taken_def)

lemma pop_load_other_inv:
  assumes "sys_inv sz s" "c_pc s = C_own r" "c_seen s \<le> v" "v < length (write_hist s)"
  shows "sys_inv sz (s\<lparr>c_pc := C_checked r (write_hist s ! v), c_seen := v\<rparr>)"
  using assms by (simp add: sys_inv_def pc_frames taking_def touching_def)
    (simp add: consumer_inv_def index_inv_def phase_defs)

lemma pop_empty_inv:
  assumes "sys_inv sz s" "c_pc s = C_checked r w"
  shows "sys_inv sz (s\<lparr>c_pc := C_idle\<rparr>)"
  using assms by (simp add: sys_inv_def pc_frames taking_def touching_def) (simp add: consumer_inv_def)

lemma pop_item_inv:
  assumes "sys_inv sz s" "c_pc s = C_checked r w" "r \<noteq> w"
  shows "sys_inv sz (s\<lparr>c_pc := C_item r\<rparr>)"
proof -
  have "taken s \<le> c_seen s" and "r = word_of_nat (taken s)" "w = word_of_nat (c_seen s)"
    using assms by (auto simp: sys_inv_def index_inv_def consumer_inv_def)
  then have "taken s < c_seen s" using assms(3) by (cases "taken s = c_seen s") auto
  then show ?thesis using assms
    by (simp add: sys_inv_def pc_frames taking_def touching_def) (simp add: consumer_inv_def taken_def)
qed

lemma length_elements: "p_pc s = P_room x w \<Longrightarrow> elements s = pushed s"
  by (simp add: elements_def building_def)

lemma taken_below_written:
  assumes "sys_inv sz s"
  shows "taken s + taking s \<le> written s" "taken s + touching s \<le> written s"
  using assms by (cases "c_pc s"; auto simp: sys_inv_def index_inv_def consumer_inv_def taking_def touching_def)+

lemma push_construct_inv:
  assumes valid: "valid_size sz" and inv: "sys_inv sz s" and pc: "p_pc s = P_room x w"
  shows "sys_inv sz
       (s\<lparr>p_pc := P_built x w,
          cells := (cells s)[spsc_slot sz w := Some x],
          p_stamp := (p_stamp s)(spsc_slot sz w := length (write_hist s)),
          undefined_behaviour := undefined_behaviour s \<or> p_seen s < c_stamp s (spsc_slot sz w)\<rparr>)"
    (is "sys_inv sz ?t")
proof -
  let ?n = "unat sz" and ?w = "written s"
  have w: "w = word_of_nat ?w" and room: "?w < p_seen s + ?n" and seen: "p_seen s \<le> taken s"
    and hist: "length (write_hist s) = Suc ?w"
    using inv pc by (auto simp: sys_inv_def producer_inv_def index_inv_def)
  have slot: "spsc_slot sz w = ?w mod ?n" using slot_of_position [OF valid] w by simp
  have n: "0 < ?n" using valid by (auto elim: valid_sizeE)
  have els: "elements s = pushed s" using pc by (rule length_elements)
  have elt: "elements ?t = pushed s @ [x]" by (simp add: elements_def building_def)
  have ph: "taken ?t = taken s" "taking ?t = taking s" "touching ?t = touching s" "written ?t = ?w"
    by (simp_all add: phase_defs)
  note below = taken_below_written [OF inv]
  have old: "cell_inv ?n s" and st: "stamp_inv ?n s" using inv by (simp_all add: sys_inv_def)
  have other: "i mod ?n \<noteq> ?w mod ?n" if "taken s + taking s \<le> i" "i < ?w" for i
    using mod_gap [of i ?n ?w] that room seen by linarith
  have "cell_inv ?n ?t"
    unfolding cell_inv_def elt ph
  proof (intro conjI allI impI, goal_cases)
    case 1
    then show ?case using old by (simp add: cell_inv_def)
  next
    case (2 i)
    then show ?case using old other [of i] n
      by (cases "i = ?w") (auto simp: cell_inv_def els slot nth_append written_def)
  next
    case (3 c)
    show ?case
    proof (cases "c = ?w mod ?n")
      case True
      then show ?thesis using below by (intro exI [of _ ?w]) (simp add: written_def)
    next
      case False
      then have "cells s ! c \<noteq> None" using 3 by (simp add: slot)
      then obtain i where "taken s + taking s \<le> i" "i < length (pushed s)" "i mod ?n = c"
        using old 3(1) by (auto simp: cell_inv_def els)
      then show ?thesis by (intro exI [of _ i]) simp
    qed
  qed
  moreover have "stamp_inv ?n ?t"
    using st unfolding stamp_inv_def elt ph els by (auto simp: slot hist written_def)
  moreover have "\<not> p_seen s < c_stamp s (spsc_slot sz w)"
  proof
    let ?c = "c_stamp s (spsc_slot sz w)"
    assume less: "p_seen s < ?c"
    then have "?c \<le> taken s + touching s" "(?c - 1) mod ?n = ?w mod ?n"
      using st n by (auto simp: stamp_inv_def slot)
    then have "?c - 1 + ?n \<le> ?w" using below less by (intro mod_gap) linarith+
    then show False using less room by linarith
  qed
  moreover have "producer_inv ?n ?t" using w room by (simp add: producer_inv_def written_def)
  ultimately show ?thesis using inv by (simp add: sys_inv_def)
qed

lemma current_cell:
  assumes valid: "valid_size sz" and inv: "sys_inv sz s" and less: "taken s < c_seen s" and tk: "taking s = 0"
  shows "cells s ! (taken s mod unat sz) = Some (pushed s ! taken s)"
proof -
  have lt: "taken s < length (pushed s)"
    using inv less by (auto simp: sys_inv_def index_inv_def written_def)
  then have "cells s ! (taken s mod unat sz) = Some (elements s ! taken s)"
    using inv tk by (auto simp: sys_inv_def cell_inv_def elements_def)
  with lt show ?thesis by (simp add: elements_def nth_append)
qed

text \<open>The consumer's accesses happen after the construction they read.\<close>

lemma consumer_access_ordered:
  assumes valid: "valid_size sz" and inv: "sys_inv sz s" and less: "taken s < c_seen s"
  shows "\<not> c_seen s < p_stamp s (taken s mod unat sz)"
proof
  let ?n = "unat sz" and ?p = "p_stamp s (taken s mod unat sz)"
  assume lt: "c_seen s < ?p"
  have n: "0 < ?n" using valid by (auto elim: valid_sizeE)
  have p: "?p \<le> length (elements s)" "(?p - 1) mod ?n = taken s mod ?n"
    using inv n lt by (auto simp: sys_inv_def stamp_inv_def)
  have "length (elements s) \<le> taken s + ?n"
    using inv by (cases "p_pc s")
      (auto simp: sys_inv_def index_inv_def producer_inv_def elements_def building_def written_def)
  then have "?p - 1 < taken s + ?n" using p(1) lt by linarith
  moreover have "taken s + ?n \<le> ?p - 1" if "taken s < ?p - 1"
    using p(2) that by (intro mod_gap) simp_all
  ultimately have "?p - 1 \<le> taken s" by linarith
  then show False using lt less by linarith
qed

lemma pop_move_inv:
  assumes valid: "valid_size sz" and inv: "sys_inv sz s" and pc: "c_pc s = C_item r"
    and x: "cells s ! spsc_slot sz r = Some x"
  shows "sys_inv sz
       (s\<lparr>c_pc := C_moved x r,
          c_stamp := (c_stamp s)(spsc_slot sz r := length (read_hist s)),
          undefined_behaviour := undefined_behaviour s \<or> c_seen s < p_stamp s (spsc_slot sz r)\<rparr>)"
    (is "sys_inv sz ?t")
proof -
  have r: "r = word_of_nat (taken s)" and less: "taken s < c_seen s"
    and hist: "length (read_hist s) = Suc (taken s)"
    using inv pc by (auto simp: sys_inv_def consumer_inv_def index_inv_def)
  have slot: "spsc_slot sz r = taken s mod unat sz" using slot_of_position [OF valid] r by simp
  have tk: "taking s = 0" "touching s = 0" using pc by (simp_all add: taking_def touching_def)
  have "pushed s ! taken s = x" using current_cell [OF valid inv less tk(1)] x slot by simp
  then have "consumer_inv ?t" using r less by (simp add: consumer_inv_def taken_def)
  moreover have "cell_inv (unat sz) ?t"
    using inv tk by (simp add: sys_inv_def pc_frames taking_def)
  moreover have "stamp_inv (unat sz) ?t"
    using inv tk by (auto simp: sys_inv_def stamp_inv_def slot hist phase_defs)
  moreover have "\<not> undefined_behaviour ?t"
    using inv consumer_access_ordered [OF valid inv less] by (simp add: sys_inv_def slot)
  ultimately show ?thesis using inv by (simp add: sys_inv_def)
qed

lemma pop_destroy_inv:
  assumes valid: "valid_size sz" and inv: "sys_inv sz s" and pc: "c_pc s = C_moved x r"
  shows "sys_inv sz
       (s\<lparr>c_pc := C_destroyed x r,
          cells := (cells s)[spsc_slot sz r := None],
          c_stamp := (c_stamp s)(spsc_slot sz r := length (read_hist s)),
          undefined_behaviour := undefined_behaviour s \<or> c_seen s < p_stamp s (spsc_slot sz r) \<or>
            cells s ! spsc_slot sz r = None\<rparr>)"
    (is "sys_inv sz ?t")
proof -
  let ?n = "unat sz"
  have r: "r = word_of_nat (taken s)" and less: "taken s < c_seen s" and x: "pushed s ! taken s = x"
    and hist: "length (read_hist s) = Suc (taken s)"
    using inv pc by (auto simp: sys_inv_def consumer_inv_def index_inv_def)
  have slot: "spsc_slot sz r = taken s mod ?n" using slot_of_position [OF valid] r by simp
  have tk: "taking s = 0" "touching s = 1" using pc by (simp_all add: taking_def touching_def)
  have n: "0 < ?n" using valid by (auto elim: valid_sizeE)
  have el: "elements ?t = elements s" "taken ?t = taken s" "taking ?t = 1" "touching ?t = 1"
    by (simp_all add: phase_defs)
  have old: "cell_inv ?n s" using inv by (simp add: sys_inv_def)
  have "length (elements s) \<le> taken s + ?n"
    using inv by (cases "p_pc s")
      (auto simp: sys_inv_def index_inv_def producer_inv_def elements_def building_def written_def)
  then have other: "i mod ?n \<noteq> taken s mod ?n" if "taken s < i" "i < length (elements s)" for i
    using mod_gap [of "taken s" ?n i] that by linarith
  have "cell_inv ?n ?t"
    unfolding cell_inv_def el
  proof (intro conjI allI impI, goal_cases)
    case 1
    then show ?case using old by (simp add: cell_inv_def)
  next
    case (2 i)
    then have "i mod ?n \<noteq> taken s mod ?n" using other [of i] by auto
    with 2 show ?case using old tk by (auto simp: cell_inv_def slot)
  next
    case (3 c)
    then have c: "c \<noteq> taken s mod ?n" "cells s ! c \<noteq> None"
      using old by (auto simp: cell_inv_def slot nth_list_update split: if_splits)
    then obtain i where i: "taken s \<le> i" "i < length (elements s)" "i mod ?n = c"
      using old 3(1) tk by (auto simp: cell_inv_def)
    then have "i \<noteq> taken s" using c(1) by auto
    with i show ?case by (intro exI [of _ i]) simp
  qed
  moreover have "stamp_inv ?n ?t"
    using inv tk unfolding stamp_inv_def el by (auto simp: sys_inv_def stamp_inv_def slot hist)
  moreover have "consumer_inv ?t" using r less x by (simp add: consumer_inv_def taken_def)
  moreover have "\<not> undefined_behaviour ?t"
    using inv consumer_access_ordered [OF valid inv less] current_cell [OF valid inv less tk(1)]
    by (simp add: sys_inv_def slot)
  ultimately show ?thesis using inv by (simp add: sys_inv_def)
qed

lemma pop_publish_inv:
  assumes inv: "sys_inv sz s" and pc: "c_pc s = C_destroyed x r"
  shows "sys_inv sz (s\<lparr>c_pc := C_idle, read_hist := read_hist s @ [r + 1], popped := popped s @ [x]\<rparr>)"
    (is "sys_inv sz ?t")
proof -
  have r: "r = word_of_nat (taken s)" and less: "taken s < c_seen s" and x: "pushed s ! taken s = x"
    and cw: "c_seen s \<le> written s"
    using inv pc by (auto simp: sys_inv_def consumer_inv_def index_inv_def)
  have tk: "taking s = 1" "touching s = 1" using pc by (simp_all add: taking_def touching_def)
  have el: "elements ?t = elements s" "taken ?t = Suc (taken s)" "taking ?t = 0" "touching ?t = 0"
    "written ?t = written s"
    by (simp_all add: phase_defs)
  have "index_inv (unat sz) ?t"
    using inv r less by (auto simp: sys_inv_def index_inv_def written_def taken_def)
  moreover have "cell_inv (unat sz) ?t" "stamp_inv (unat sz) ?t"
    using inv tk by (simp_all add: sys_inv_def cell_inv_def stamp_inv_def el)
  moreover have "order_inv ?t"
    using inv x less cw unfolding order_inv_def el
    by (simp add: sys_inv_def order_inv_def written_def take_Suc_conv_app_nth)
  moreover have "consumer_inv ?t" by (simp add: consumer_inv_def)
  ultimately show ?thesis using inv by (simp add: sys_inv_def)
qed

lemma pop_never_dead:
  assumes valid: "valid_size sz" and inv: "sys_inv sz s" and pc: "c_pc s = C_item r"
  shows "cells s ! spsc_slot sz r \<noteq> None"
proof -
  have "r = word_of_nat (taken s)" "taken s < c_seen s" "taking s = 0"
    using inv pc by (auto simp: sys_inv_def consumer_inv_def taking_def)
  then show ?thesis using current_cell [OF valid inv] slot_of_position [OF valid] by simp
qed

lemma sys_inv_step:
  assumes "valid_size sz" "spsc_step sz s t" "sys_inv sz s"
  shows "sys_inv sz t"
  using assms(2)
proof cases
  case pop_move_dead
  then show ?thesis using pop_never_dead [OF assms(1,3)] by blast
qed (use assms(1,3) in \<open>auto intro: push_load_own_inv push_load_other_inv push_full_inv push_room_inv
      push_construct_inv push_publish_inv pop_load_own_inv pop_load_other_inv pop_empty_inv pop_item_inv
      pop_move_inv pop_destroy_inv pop_publish_inv\<close>)

lemma reachable_inv: "sys_reachable sz s \<Longrightarrow> valid_size sz \<Longrightarrow> sys_inv sz s"
  by (induction rule: sys_reachable.induct) (auto intro: sys_inv_init sys_inv_step)

section \<open>What the queue promises to its two threads\<close>

definition in_flight :: "'a spsc_sys \<Rightarrow> 'a list" where
  "in_flight s = drop (taken s) (pushed s)"

lemma pushed_split: "sys_inv sz s \<Longrightarrow> pushed s = popped s @ in_flight s"
  by (auto simp: sys_inv_def order_inv_def in_flight_def)

lemma in_flight_bound: "sys_inv sz s \<Longrightarrow> length (in_flight s) \<le> unat sz"
  by (auto simp: sys_inv_def index_inv_def in_flight_def written_def)

text \<open>
  The queue as the memory holds it: the objects in the cells between the two indices, where the
  item the consumer has already moved out, and whose cell is dead until the read index moves on,
  counts as still there. \<open>None\<close> is a dead cell.
\<close>

definition memory_queue :: "u64 \<Rightarrow> 'a spsc_sys \<Rightarrow> 'a option list" where
  "memory_queue sz s =
     (let r = last (read_hist s); w = last (write_hist s);
          stored = map (\<lambda>i. cells s ! spsc_slot sz (r + word_of_nat i)) [0..<unat (w - r)]
      in case c_pc s of C_destroyed x _ \<Rightarrow> Some x # tl stored | _ \<Rightarrow> stored)"

lemma upt_cons: "0 < n \<Longrightarrow> [0..<n] = 0 # [Suc 0..<n]"
  by (rule upt_conv_Cons)

lemma memory_queue_in_flight:
  assumes valid: "valid_size sz" and inv: "sys_inv sz s"
  shows "memory_queue sz s = map Some (in_flight s)"
proof -
  let ?n = "unat sz" and ?k = "written s - taken s"
  have le: "taken s \<le> written s" and k: "?k \<le> ?n"
    and hist: "last (read_hist s) = word_of_nat (taken s)" "last (write_hist s) = word_of_nat (written s)"
    using inv by (auto simp: sys_inv_def index_inv_def)
  have "unat (word_of_nat ?k :: u64) = ?k" using k unat_u64_less [of sz] by (simp add: unat_of_nat)
  then have span: "unat (last (write_hist s) - last (read_hist s)) = ?k" using le hist by simp
  have slot: "spsc_slot sz (last (read_hist s) + word_of_nat i) = (taken s + i) mod ?n" for i
    using slot_of_position [OF valid, of "taken s + i"] hist by simp
  have cell: "cells s ! ((taken s + i) mod ?n) = Some (pushed s ! (taken s + i))"
    if "taking s \<le> i" "i < ?k" for i
  proof -
    have "taken s + i < length (pushed s)" using that by (simp add: written_def)
    then have "cells s ! ((taken s + i) mod ?n) = Some (elements s ! (taken s + i))"
      using inv that by (auto simp: sys_inv_def cell_inv_def elements_def)
    then show ?thesis using \<open>taken s + i < length (pushed s)\<close> by (simp add: elements_def nth_append)
  qed
  have flight: "in_flight s = map (\<lambda>i. pushed s ! (taken s + i)) [0..<?k]"
    using le by (intro nth_equalityI) (auto simp: in_flight_def written_def)
  show ?thesis
  proof (cases "taking s = 0")
    case True
    then have "memory_queue sz s = map (\<lambda>i. cells s ! ((taken s + i) mod ?n)) [0..<?k]"
      by (auto simp: memory_queue_def Let_def span slot taking_def split: consumer_pc.splits)
    then show ?thesis using True cell by (simp add: flight)
  next
    case False
    then obtain x r where pc: "c_pc s = C_destroyed x r" by (auto simp: taking_def split: consumer_pc.splits)
    have x: "pushed s ! taken s = x" and pos: "0 < ?k" and one: "taking s = 1"
      using inv pc by (auto simp: sys_inv_def consumer_inv_def index_inv_def taking_def)
    have "memory_queue sz s = Some x # map (\<lambda>i. cells s ! ((taken s + i) mod ?n)) [Suc 0..<?k]"
      using pos by (simp add: memory_queue_def Let_def span slot pc upt_cons)
    then show ?thesis using pos one cell x by (simp add: flight upt_cons)
  qed
qed

lemma in_flight_step:
  assumes valid: "valid_size sz" and inv: "sys_inv sz s" and step: "spsc_step sz s t"
  shows "in_flight t = in_flight s \<and> write_hist t = write_hist s \<and> read_hist t = read_hist s \<or>
    (\<exists>x w. p_pc s = P_built x w \<and> p_pc t = P_idle \<and> c_pc t = c_pc s \<and> read_hist t = read_hist s \<and>
       length (in_flight s) < unat sz \<and> in_flight t = in_flight s @ [x]) \<or>
    (\<exists>x r. c_pc s = C_destroyed x r \<and> c_pc t = C_idle \<and> p_pc t = p_pc s \<and> write_hist t = write_hist s \<and>
       in_flight s = x # in_flight t)"
  using step
proof cases
  case (push_publish x w)
  have "taken s \<le> written s" "written s < taken s + unat sz"
    using inv push_publish(2) by (auto simp: sys_inv_def index_inv_def producer_inv_def)
  then have "length (in_flight s) < unat sz" "in_flight t = in_flight s @ [x]"
    using push_publish by (auto simp: in_flight_def taken_def written_def)
  then show ?thesis using push_publish by simp
next
  case (pop_publish x r)
  have inv': "sys_inv sz t" using valid step inv by (rule sys_inv_step)
  have "popped t @ in_flight t = popped s @ in_flight s"
    using pushed_split [OF inv] pushed_split [OF inv'] pop_publish by simp
  then show ?thesis using pop_publish by simp
qed (simp_all add: in_flight_def taken_def)

lemma full_is_full:
  assumes inv: "sys_inv sz s" and pc: "p_pc s = P_checked x w r" and full: "w - r = sz"
  shows "written s = p_seen s + unat sz"
proof -
  have "p_seen s \<le> written s" "written s - p_seen s \<le> unat sz"
    and "w = word_of_nat (written s)" "r = word_of_nat (p_seen s)"
    using inv pc by (auto simp: sys_inv_def index_inv_def producer_inv_def)
  then show ?thesis using full word_of_nat_diff_eq [of "p_seen s" "written s" sz] by auto
qed

lemma empty_is_empty:
  assumes inv: "sys_inv sz s" and pc: "c_pc s = C_checked r w" and empty: "r = w"
  shows "c_seen s = taken s"
proof -
  have "taken s \<le> c_seen s" "c_seen s - taken s \<le> unat sz"
    and "r = word_of_nat (taken s)" "w = word_of_nat (c_seen s)"
    using inv pc by (auto simp: sys_inv_def index_inv_def consumer_inv_def)
  then show ?thesis using empty word_of_nat_eq_window [of "taken s" "c_seen s" sz] by auto
qed

section \<open>The sequential operations are uninterrupted runs\<close>

definition seq_view :: "'a spsc_sys \<Rightarrow> 'a spsc" where
  "seq_view s = \<lparr>buffer = cells s, write_index = last (write_hist s), read_index = last (read_hist s)\<rparr>"

lemma uninterrupted_push:
  assumes inv: "sys_inv sz s" and idle: "p_pc s = P_idle"
  shows "\<exists>t. (spsc_step sz)\<^sup>*\<^sup>* s t \<and> p_pc t = P_idle \<and> c_pc t = c_pc s \<and>
    seq_view t = snd (spsc_push sz x (seq_view s)) \<and>
    pushed t = (if fst (spsc_push sz x (seq_view s)) then pushed s @ [x] else pushed s)"
proof -
  let ?w = "last (write_hist s)" and ?v = "length (read_hist s) - 1"
  have ne: "read_hist s \<noteq> []" using inv by (auto simp: sys_inv_def index_inv_def)
  have v: "p_seen s \<le> ?v" "?v < length (read_hist s)" "read_hist s ! ?v = last (read_hist s)"
    using inv ne by (auto simp: sys_inv_def index_inv_def last_conv_nth)
  let ?s1 = "s\<lparr>p_pc := P_own x ?w\<rparr>"
  let ?s2 = "?s1\<lparr>p_pc := P_checked x ?w (last (read_hist s)), p_seen := ?v\<rparr>"
  have "spsc_step sz s ?s1" using idle by (rule spsc_step.push_load_own)
  moreover have "spsc_step sz ?s1 ?s2"
    using spsc_step.push_load_other [of ?s1 x ?w ?v sz] v by simp
  ultimately have run: "(spsc_step sz)\<^sup>*\<^sup>* s ?s2" by (meson r_into_rtranclp rtranclp.rtrancl_into_rtrancl)
  show ?thesis
  proof (cases "?w - last (read_hist s) = sz")
    case True
    then have "spsc_step sz ?s2 (?s2\<lparr>p_pc := P_idle\<rparr>)"
      using spsc_step.push_full [of ?s2 x ?w "last (read_hist s)" sz] by simp
    with run have "(spsc_step sz)\<^sup>*\<^sup>* s (?s2\<lparr>p_pc := P_idle\<rparr>)" by (rule rtranclp.rtrancl_into_rtrancl)
    then show ?thesis using True
      by (intro exI [of _ "?s2\<lparr>p_pc := P_idle\<rparr>"]) (simp add: seq_view_def spsc_push_def)
  next
    case False
    let ?s3 = "?s2\<lparr>p_pc := P_room x ?w\<rparr>"
    have "spsc_step sz ?s2 ?s3"
      using spsc_step.push_room [of ?s2 x ?w "last (read_hist s)" sz] False by simp
    with run have "(spsc_step sz)\<^sup>*\<^sup>* s ?s3" by (rule rtranclp.rtrancl_into_rtrancl)
    moreover obtain s4 where s4: "spsc_step sz ?s3 s4" "p_pc s4 = P_built x ?w"
        "cells s4 = (cells s)[spsc_slot sz ?w := Some x]" "write_hist s4 = write_hist s"
        "read_hist s4 = read_hist s" "pushed s4 = pushed s" "c_pc s4 = c_pc s"
      using spsc_step.push_construct [of ?s3 x ?w sz] by fastforce
    moreover obtain t where "spsc_step sz s4 t" "p_pc t = P_idle" "cells t = cells s4"
        "write_hist t = write_hist s4 @ [?w + 1]" "read_hist t = read_hist s4"
        "pushed t = pushed s4 @ [x]" "c_pc t = c_pc s4"
      using spsc_step.push_publish [OF s4(2), of sz] by fastforce
    ultimately show ?thesis using False
      by (intro exI [of _ t]) (auto simp: seq_view_def spsc_push_def Let_def)
  qed
qed

section \<open>Properties\<close>

text \<open>
  C3: with one producer thread and one consumer thread no interleaving, with any staleness the
  acquire loads allow, reaches undefined behaviour: no cell is moved from or destroyed while
  it holds no object, and every access to a cell happens after the other thread's last access to it.
\<close>
theorem no_data_race:
  assumes "valid_size sz" "sys_reachable sz s"
  shows "\<not> undefined_behaviour s"
  using reachable_inv [OF assms(2,1)] by (simp add: sys_inv_def)

theorem no_data_race_witness:
  "\<not> undefined_behaviour ((sys_init 4 :: nat spsc_sys)\<lparr>p_pc := P_own 9 0\<rparr>)"
proof -
  have "spsc_step 4 (sys_init 4) ((sys_init 4 :: nat spsc_sys)\<lparr>p_pc := P_own 9 0\<rparr>)"
    using spsc_step.push_load_own [of "sys_init 4" 4 9] by (simp add: sys_init_def)
  then have "sys_reachable 4 ((sys_init 4 :: nat spsc_sys)\<lparr>p_pc := P_own 9 0\<rparr>)"
    by (rule sys_reachable.step [OF sys_reachable.start])
  with valid_size_4 show ?thesis by (rule no_data_race)
qed

text \<open>
  C4: in every reachable state what has been popped followed by what is in flight is what has been
  pushed, in order, and at most \<open>sz\<close> items are in flight.
\<close>
theorem concurrent_fifo:
  assumes "valid_size sz" "sys_reachable sz s"
  shows "pushed s = popped s @ in_flight s \<and> length (in_flight s) \<le> unat sz"
  using pushed_split in_flight_bound reachable_inv [OF assms(2,1)] by blast

theorem concurrent_fifo_witness:
  "pushed (sys_init 4 :: nat spsc_sys) = popped (sys_init 4) @ in_flight (sys_init 4) \<and>
   length (in_flight (sys_init 4 :: nat spsc_sys)) \<le> unat (4 :: u64)"
  by (rule concurrent_fifo [OF valid_size_4 sys_reachable.start])

text \<open>
  C16: read off the cells and the two indices, the ring of two interleaving threads is a
  bounded FIFO queue. It starts empty, and every step of either thread either stores no index and
  leaves the queue as it was, or is the producer's release store, which finds fewer than \<open>sz\<close> items
  and enqueues at the tail the very argument of the \<open>push\<close> in progress, or is the consumer's release
  store, which dequeues the head, the very item its \<open>pop\<close> has moved out. No position of the queue is
  ever a dead cell.
\<close>
theorem interleaving_refines_fifo:
  assumes "valid_size sz" "sys_reachable sz s" "spsc_step sz s t"
  shows "memory_queue sz (sys_init sz :: 'a spsc_sys) = [] \<and> None \<notin> set (memory_queue sz s) \<and>
    (memory_queue sz t = memory_queue sz s \<and> write_hist t = write_hist s \<and> read_hist t = read_hist s \<or>
     (\<exists>x w. p_pc s = P_built x w \<and> p_pc t = P_idle \<and> c_pc t = c_pc s \<and> read_hist t = read_hist s \<and>
        length (memory_queue sz s) < unat sz \<and> memory_queue sz t = memory_queue sz s @ [Some x]) \<or>
     (\<exists>x r. c_pc s = C_destroyed x r \<and> c_pc t = C_idle \<and> p_pc t = p_pc s \<and> write_hist t = write_hist s \<and>
        memory_queue sz s = Some x # memory_queue sz t))"
proof -
  have inv: "sys_inv sz s" using assms(2,1) by (rule reachable_inv)
  have "sys_inv sz t" using assms(1,3) inv by (rule sys_inv_step)
  note views = memory_queue_in_flight [OF assms(1) inv] memory_queue_in_flight [OF assms(1) this]
  have "memory_queue sz (sys_init sz :: 'a spsc_sys) = []"
    by (simp add: memory_queue_def sys_init_def)
  moreover have "None \<notin> set (memory_queue sz s)" by (auto simp: views)
  ultimately show ?thesis using in_flight_step [OF assms(1) inv assms(3)] unfolding views by auto
qed

text \<open>The release store of the first \<open>push\<close> on the empty ring of four cells.\<close>
theorem interleaving_refines_fifo_witness:
  "\<exists>s t. sys_reachable 4 s \<and> spsc_step 4 s t \<and> memory_queue 4 s = [] \<and> memory_queue 4 t = [Some (9 :: nat)]"
proof -
  let ?s1 = "(sys_init 4 :: nat spsc_sys)\<lparr>p_pc := P_own 9 0\<rparr>"
  let ?s2 = "?s1\<lparr>p_pc := P_checked 9 0 0, p_seen := 0\<rparr>"
  let ?s3 = "?s2\<lparr>p_pc := P_room 9 0\<rparr>"
  have "spsc_step 4 (sys_init 4) ?s1"
    using spsc_step.push_load_own [of "sys_init 4" 4 9] by (simp add: sys_init_def)
  then have "sys_reachable 4 ?s1" by (rule sys_reachable.step [OF sys_reachable.start])
  moreover have "spsc_step 4 ?s1 ?s2"
    using spsc_step.push_load_other [of ?s1 9 0 0 4] by (simp add: sys_init_def)
  ultimately have "sys_reachable 4 ?s2" by (rule sys_reachable.step)
  moreover have "spsc_step 4 ?s2 ?s3"
    using spsc_step.push_room [of ?s2 9 0 0 4] by simp
  ultimately have r3: "sys_reachable 4 ?s3" by (rule sys_reachable.step)
  obtain s where s: "spsc_step 4 ?s3 s" "p_pc s = P_built 9 0" "write_hist s = [0]" "read_hist s = [0]"
      "c_pc s = C_idle"
    using spsc_step.push_construct [of ?s3 9 0 4] by (fastforce simp: sys_init_def)
  obtain t where t: "spsc_step 4 s t" "write_hist t \<noteq> write_hist s"
    using spsc_step.push_publish [OF s(2), of 4] by fastforce
  have reach: "sys_reachable 4 s" using r3 s(1) by (rule sys_reachable.step)
  have "memory_queue 4 s = []" by (simp add: memory_queue_def s)
  moreover have "memory_queue 4 t = memory_queue 4 s @ [Some 9]"
    using interleaving_refines_fifo [OF valid_size_4 reach t(1)] t(2) s by auto
  ultimately show ?thesis using reach t(1) by (intro exI [of _ s] exI [of _ t]) simp
qed

text \<open>
  A \<open>push\<close> that is about to answer "full" has seen a read index at which the ring
  held \<open>sz\<close> unread items, and a \<open>pop\<close> that is about to answer "empty" has seen a write index at
  which nothing was unread; wrap-around of the indices cannot fake either answer.
\<close>
theorem full_and_empty_are_justified:
  assumes "valid_size sz" "sys_reachable sz s"
  shows "(\<forall>x w r. p_pc s = P_checked x w r \<and> w - r = sz \<longrightarrow> length (pushed s) = p_seen s + unat sz) \<and>
    (\<forall>r w. c_pc s = C_checked r w \<and> r = w \<longrightarrow> c_seen s = length (popped s))"
  using full_is_full [OF reachable_inv [OF assms(2,1)]] empty_is_empty [OF reachable_inv [OF assms(2,1)]]
  by (simp add: written_def taken_def)

theorem full_and_empty_are_justified_witness:
  "let s = (sys_init 4 :: nat spsc_sys)\<lparr>c_pc := C_checked 0 0\<rparr> in c_seen s = length (popped s)"
proof -
  let ?s = "(sys_init 4 :: nat spsc_sys)\<lparr>c_pc := C_own 0\<rparr>" and ?t = "(sys_init 4 :: nat spsc_sys)\<lparr>c_pc := C_checked 0 0\<rparr>"
  have "spsc_step 4 (sys_init 4) ?s"
    using spsc_step.pop_load_own [of "sys_init 4 :: nat spsc_sys" 4] by (simp add: sys_init_def)
  then have "sys_reachable 4 ?s" by (rule sys_reachable.step [OF sys_reachable.start])
  moreover have "spsc_step 4 ?s ?t"
    using spsc_step.pop_load_other [of ?s 0 0 4] by (simp add: sys_init_def)
  ultimately have "sys_reachable 4 ?t" by (rule sys_reachable.step)
  from full_and_empty_are_justified [OF valid_size_4 this] show ?thesis by (simp add: Let_def)
qed

end
