(* ===== verification/Float64.thy ===== *)
theory Float64
  imports Prelude
begin

text \<open>
  IEEE binary64, the \<open>double\<close> of the code: \<open>f64\<close> has NaN, the infinities and the signed finite values, with their exact rational
  magnitude. Every operation rounds its exact result once, to nearest with ties to even, and overflows to an infinity. The lemmas bound
  the relative error of a rounding by \<open>2 ^ -53\<close> and show which values are represented exactly. Contraction of a
  multiplication and an addition into one operation is assumed not to happen.
\<close>

definition pow2 :: "int \<Rightarrow> rat" where
  "pow2 e = 2 powi e"

lemma pow2_pos [simp]: "0 < pow2 e"
  by (simp add: pow2_def)

lemma pow2_nonneg [simp]: "0 \<le> pow2 e"
  by (simp add: less_imp_le)

lemma pow2_nonzero [simp]: "pow2 e \<noteq> 0"
  using pow2_pos [of e] by (metis less_irrefl)

lemma pow2_add: "pow2 (a + b) = pow2 a * pow2 b"
  by (simp add: pow2_def power_int_add)

lemma pow2_diff: "pow2 (a - b) = pow2 a / pow2 b"
  by (simp add: pow2_def power_int_diff)

lemma pow2_0 [simp]: "pow2 0 = 1"
  by (simp add: pow2_def)

lemma pow2_1 [simp]: "pow2 1 = 2"
  by (simp add: pow2_def)

lemma pow2_le_iff [simp]: "pow2 a \<le> pow2 b \<longleftrightarrow> a \<le> b"
proof -
  have "pow2 x < pow2 y" if "x < y" for x y
    using that by (simp add: pow2_def power_int_strict_increasing)
  then show ?thesis by (metis linorder_not_le order_le_less)
qed

lemma pow2_less_iff [simp]: "pow2 a < pow2 b \<longleftrightarrow> a < b"
  using pow2_le_iff [of b a] by linarith

lemma pow2_of_nat: "pow2 (int n) = 2 ^ n"
  by (simp add: pow2_def)

lemma pow2_numeral: "pow2 (numeral n) = 2 ^ numeral n"
  by (simp add: pow2_def)

lemma pow2_int_ex: "0 \<le> e \<Longrightarrow> \<exists>k::int. pow2 e = of_int k \<and> 0 < k"
  by (rule exI [of _ "2 ^ nat e"]) (simp add: pow2_def power_int_def)

function ilog2 :: "rat \<Rightarrow> int" where
  "ilog2 q =
     (if 2 \<le> q then 1 + ilog2 (q / 2)
      else if 0 < q \<and> q < 1 then ilog2 (2 * q) - 1
      else 0)"
  by pat_completeness auto
termination
proof (relation "measure (\<lambda>q. if 2 \<le> q then nat \<lfloor>q\<rfloor> else if q < 1 then nat \<lceil>1 / q\<rceil> else 0)",
    goal_cases)
  case 1
  show ?case by simp
next
  case (2 q)
  then have "\<lfloor>q / 2\<rfloor> < \<lfloor>q\<rfloor>" "0 < \<lfloor>q\<rfloor>" by linarith+
  with 2 show ?case by (auto simp: nat_less_eq_zless)
next
  case (3 q)
  then have q: "0 < q" "q < 1" by auto
  define y where "y = 1 / q"
  have y: "1 < y" using q by (simp add: y_def)
  have half: "1 / (2 * q) = y / 2" by (simp add: y_def)
  have "\<lceil>1 / (2 * q)\<rceil> < \<lceil>y\<rceil>" if "2 < y"
    unfolding half using that by linarith
  moreover have "2 < y" if "2 * q < 1"
    using that q by (simp add: y_def field_simps)
  moreover have "0 < \<lceil>y\<rceil>" using y by linarith
  ultimately show ?case using q 3
    by (auto simp: y_def [symmetric] nat_less_eq_zless)
qed

declare ilog2.simps [simp del]

lemma ilog2_bounds: "0 < q \<Longrightarrow> pow2 (ilog2 q) \<le> q \<and> q < pow2 (ilog2 q + 1)"
proof (induction q rule: ilog2.induct)
  case (1 q)
  consider (big) "2 \<le> q" | (small) "q < 1" | (base) "1 \<le> q" "q < 2" by linarith
  then show ?case
  proof cases
    case big
    then have "ilog2 q = 1 + ilog2 (q / 2)" by (subst ilog2.simps) simp
    moreover have "pow2 (ilog2 (q / 2)) \<le> q / 2 \<and> q / 2 < pow2 (ilog2 (q / 2) + 1)"
      using "1.IH"(1) big by simp
    moreover have "pow2 (1 + k) = 2 * pow2 k" for k by (simp add: pow2_add)
    moreover have "pow2 (1 + k + 1) = 2 * pow2 (k + 1)" for k by (simp add: pow2_add pow2_numeral)
    ultimately show ?thesis by simp
  next
    case small
    then have "ilog2 q = ilog2 (2 * q) - 1" using "1.prems" by (subst ilog2.simps) simp
    moreover have "pow2 (ilog2 (2 * q)) \<le> 2 * q \<and> 2 * q < pow2 (ilog2 (2 * q) + 1)"
      using "1.IH"(2) small "1.prems" by simp
    ultimately show ?thesis by (simp add: pow2_add pow2_diff)
  next
    case base
    then have "ilog2 q = 0" by (subst ilog2.simps) simp
    with base show ?thesis by simp
  qed
qed

lemma ilog2_lower: "0 < q \<Longrightarrow> pow2 (ilog2 q) \<le> q"
  and ilog2_upper: "0 < q \<Longrightarrow> q < pow2 (ilog2 q + 1)"
  using ilog2_bounds by blast+

lemma ilog2_less: "0 < q \<Longrightarrow> q < pow2 k \<Longrightarrow> ilog2 q < k"
  using ilog2_lower [of q] pow2_less_iff [of "ilog2 q" k] by linarith

lemma ilog2_ge: "pow2 k \<le> q \<Longrightarrow> k \<le> ilog2 q"
  using ilog2_upper [of q] pow2_less_iff [of k "ilog2 q + 1"] pow2_pos [of k] by linarith

lemma ilog2_mono: "0 < p \<Longrightarrow> p \<le> q \<Longrightarrow> ilog2 p \<le> ilog2 q"
  by (rule ilog2_ge) (use ilog2_lower [of p] in linarith)

definition rne :: "rat \<Rightarrow> int" where
  "rne q =
     (let f = \<lfloor>q\<rfloor>; r = q - of_int f
      in if r < 1 / 2 then f
         else if 1 / 2 < r then f + 1
         else if even f then f else f + 1)"

lemma rne_of_int [simp]: "rne (of_int n) = n"
  by (simp add: rne_def)

lemma rne_error: "\<bar>of_int (rne q) - q\<bar> \<le> 1 / 2"
proof -
  have "of_int \<lfloor>q\<rfloor> \<le> q" "q < of_int \<lfloor>q\<rfloor> + 1" by linarith+
  then show ?thesis by (simp add: rne_def Let_def abs_le_iff)
qed

lemma rne_cases: "rne q = \<lfloor>q\<rfloor> \<or> rne q = \<lfloor>q\<rfloor> + 1"
  by (simp add: rne_def Let_def)

lemma rne_mono: "p \<le> q \<Longrightarrow> rne p \<le> rne q"
proof -
  assume pq: "p \<le> q"
  show ?thesis
  proof (cases "\<lfloor>p\<rfloor> = \<lfloor>q\<rfloor>")
    case True
    with pq show ?thesis by (auto simp: rne_def Let_def)
  next
    case False
    then have "\<lfloor>p\<rfloor> + 1 \<le> \<lfloor>q\<rfloor>" using pq floor_mono [OF pq] by linarith
    then show ?thesis using rne_cases [of p] rne_cases [of q] by linarith
  qed
qed

definition ulp_exp :: "rat \<Rightarrow> int" where
  "ulp_exp q = max (ilog2 q - 52) (- 1074)"

definition rnd :: "rat \<Rightarrow> rat" where
  "rnd q = (if q = 0 then 0 else of_int (rne (q / pow2 (ulp_exp q))) * pow2 (ulp_exp q))"

lemma rnd_0 [simp]: "rnd 0 = 0"
  by (simp add: rnd_def)

lemma rnd_nonneg: "0 \<le> q \<Longrightarrow> 0 \<le> rnd q"
proof -
  assume "0 \<le> q"
  then have "rne 0 \<le> rne (q / pow2 (ulp_exp q))"
    by (intro rne_mono) simp
  then show ?thesis using rne_of_int [of 0] by (simp add: rnd_def)
qed

definition representable :: "rat \<Rightarrow> bool" where
  "representable q \<longleftrightarrow> (\<exists>m e. q = of_int m * pow2 e \<and> \<bar>m\<bar> < 2 ^ 53 \<and> - 1074 \<le> e)"

lemma representable_ge_ulp:
  assumes "0 < q" "q = of_int m * pow2 e" "m < 2 ^ 53" "- 1074 \<le> e"
  shows "ulp_exp q \<le> e"
proof -
  have "of_int m < (pow2 53 :: rat)"
    using assms(3) unfolding pow2_numeral
    by (metis of_int_less_iff of_int_numeral of_int_power)
  then have "q < pow2 (53 + e)" using assms(2) by (simp add: pow2_add)
  then have "ilog2 q < 53 + e" using assms(1) by (intro ilog2_less)
  with assms(4) show ?thesis by (simp add: ulp_exp_def)
qed

lemma rnd_representable:
  assumes "0 \<le> q" "representable q"
  shows "rnd q = q"
proof (cases "q = 0")
  case False
  then have q: "0 < q" using assms(1) by simp
  obtain m e where me: "q = of_int m * pow2 e" "\<bar>m\<bar> < 2 ^ 53" "- 1074 \<le> e"
    using assms(2) by (auto simp: representable_def)
  then have "ulp_exp q \<le> e" using q by (intro representable_ge_ulp [OF q me(1)]) linarith+
  then obtain k :: int where k: "pow2 (e - ulp_exp q) = of_int k"
    using pow2_int_ex [of "e - ulp_exp q"] by auto
  have "q / pow2 (ulp_exp q) = of_int m * pow2 (e - ulp_exp q)"
    using me(1) by (simp add: pow2_diff)
  also have "\<dots> = of_int (m * k)" by (simp add: k)
  finally have "rne (q / pow2 (ulp_exp q)) = m * k" 
    and "q / pow2 (ulp_exp q) = of_int (m * k)" by (simp_all only: rne_of_int)
  then have "of_int (rne (q / pow2 (ulp_exp q))) = q / pow2 (ulp_exp q)" by simp
  with False show ?thesis by (simp add: rnd_def)
qed simp

lemma rne_nonneg: "0 \<le> q \<Longrightarrow> 0 \<le> rne q"
  using rne_mono [of 0 q] rne_of_int [of 0] by simp

lemma scaled_below: "0 < q \<Longrightarrow> q / pow2 (ulp_exp q) < 2 ^ 53"
proof -
  assume q: "0 < q"
  have "q < pow2 (ilog2 q + 1)" using q by (rule ilog2_upper)
  also have "\<dots> \<le> pow2 (53 + ulp_exp q)" by (simp add: ulp_exp_def)
  also have "\<dots> = 2 ^ 53 * pow2 (ulp_exp q)" by (simp add: pow2_add pow2_numeral)
  finally show ?thesis by (simp add: field_simps)
qed

lemma representable_rnd:
  assumes "0 \<le> q"
  shows "representable (rnd q)"
proof (cases "q = 0")
  case True
  then show ?thesis by (auto simp: representable_def intro: exI [of _ 0] exI [of _ "- 1074"])
next
  case False
  then have q: "0 < q" using assms by simp
  let ?e = "ulp_exp q" and ?m = "rne (q / pow2 (ulp_exp q))"
  have e: "- 1074 \<le> ?e" by (simp add: ulp_exp_def)
  have m0: "0 \<le> ?m" using q by (intro rne_nonneg) simp
  have "?m \<le> rne (of_int (2 ^ 53))"
    using scaled_below [OF q] by (intro rne_mono) simp
  then have m: "?m \<le> 2 ^ 53" by (simp only: rne_of_int)
  show ?thesis
  proof (cases "?m = 2 ^ 53")
    case True
    have "rnd q = of_int (2 ^ 52) * pow2 (?e + 1)"
      using False True by (simp add: rnd_def pow2_add)
    moreover have "\<bar>(2::int) ^ 52\<bar> < 2 ^ 53" "- 1074 \<le> ?e + 1" using e by simp_all
    ultimately show ?thesis unfolding representable_def by blast
  next
    case False
    with m m0 have "\<bar>?m\<bar> < 2 ^ 53" by simp
    moreover have "rnd q = of_int ?m * pow2 ?e" using q by (simp add: rnd_def)
    ultimately show ?thesis using e unfolding representable_def by blast
  qed
qed

lemma rnd_error_ulp: "0 < q \<Longrightarrow> \<bar>rnd q - q\<bar> \<le> pow2 (ulp_exp q) / 2"
proof -
  assume q: "0 < q"
  let ?u = "pow2 (ulp_exp q)"
  have "\<bar>of_int (rne (q / ?u)) - q / ?u\<bar> * ?u \<le> 1 / 2 * ?u"
    by (intro mult_right_mono rne_error) simp
  moreover have "\<bar>of_int (rne (q / ?u)) - q / ?u\<bar> * ?u = \<bar>(of_int (rne (q / ?u)) - q / ?u) * ?u\<bar>"
    by (simp add: abs_mult)
  moreover have "(of_int (rne (q / ?u)) - q / ?u) * ?u = rnd q - q"
    using q by (simp add: rnd_def algebra_simps)
  ultimately show ?thesis by simp
qed

lemma rnd_error_rel:
  assumes "pow2 (- 1022) \<le> q"
  shows "\<bar>rnd q - q\<bar> \<le> q * pow2 (- 53)"
proof -
  have q: "0 < q" using assms pow2_pos [of "- 1022"] by linarith
  have "- 1022 \<le> ilog2 q" using assms by (rule ilog2_ge)
  then have "ulp_exp q = ilog2 q - 52" by (simp add: ulp_exp_def)
  then have "pow2 (ulp_exp q) / 2 = pow2 (ilog2 q + (- 53))"
    by (simp only: pow2_add pow2_diff pow2_numeral) (simp add: pow2_def)
  also have "\<dots> \<le> q * pow2 (- 53)"
    unfolding pow2_add by (intro mult_right_mono ilog2_lower q) simp
  finally show ?thesis using rnd_error_ulp [OF q] by linarith
qed

lemma rnd_mono:
  assumes "0 \<le> p" "p \<le> q"
  shows "rnd p \<le> rnd q"
proof (cases "p = 0")
  case True
  then show ?thesis using rnd_nonneg [of q] assms by simp
next
  case False
  then have p: "0 < p" and q: "0 < q" using assms by auto
  have ul: "ulp_exp p \<le> ulp_exp q"
    using ilog2_mono [OF p assms(2)] by (simp add: ulp_exp_def)
  show ?thesis
  proof (cases "ulp_exp p = ulp_exp q")
    case True
    then have "rne (p / pow2 (ulp_exp p)) \<le> rne (q / pow2 (ulp_exp q))"
      using assms(2) by (intro rne_mono) (simp add: divide_right_mono)
    then show ?thesis using p q True by (simp add: rnd_def mult_right_mono)
  next
    case False
    with ul have lt: "ulp_exp p + 1 \<le> ulp_exp q" by simp
    then have uq: "ulp_exp q = ilog2 q - 52" by (auto simp: ulp_exp_def)
    have "rne (p / pow2 (ulp_exp p)) \<le> rne (of_int (2 ^ 53))"
      using scaled_below [OF p] by (intro rne_mono) simp
    then have "rne (p / pow2 (ulp_exp p)) \<le> 2 ^ 53" by (simp only: rne_of_int)
    then have "(of_int (rne (p / pow2 (ulp_exp p))) :: rat) \<le> 2 ^ 53"
      by (metis of_int_le_iff of_int_numeral of_int_power)
    then have "rnd p \<le> 2 ^ 53 * pow2 (ulp_exp p)"
      using p by (simp add: rnd_def mult_right_mono)
    also have "\<dots> = 2 ^ 52 * pow2 (ulp_exp p + 1)" by (simp add: pow2_add)
    also have "\<dots> \<le> 2 ^ 52 * pow2 (ulp_exp q)" using lt by simp
    also have "\<dots> \<le> rnd q"
    proof -
      have "2 ^ 52 * pow2 (ulp_exp q) = pow2 (52 + ulp_exp q)" by (simp add: pow2_add pow2_numeral)
      also have "\<dots> \<le> q" unfolding uq using ilog2_lower [OF q] by simp
      finally have "(of_int (2 ^ 52) :: rat) \<le> q / pow2 (ulp_exp q)" by (simp add: field_simps)
      then have "rne (of_int (2 ^ 52)) \<le> rne (q / pow2 (ulp_exp q))" by (rule rne_mono)
      then have "2 ^ 52 \<le> rne (q / pow2 (ulp_exp q))" by (simp only: rne_of_int)
      then have "(2 ^ 52 :: rat) \<le> of_int (rne (q / pow2 (ulp_exp q)))"
        by (metis of_int_le_iff of_int_numeral of_int_power)
      then show ?thesis using q by (simp add: rnd_def mult_right_mono)
    qed
    finally show ?thesis .
  qed
qed


definition rnds :: "rat \<Rightarrow> rat" where
  "rnds x = (if x < 0 then - rnd (- x) else rnd x)"

lemma rnds_0 [simp]: "rnds 0 = 0"
  by (simp add: rnds_def)

lemma rnds_minus: "rnds (- x) = - rnds x"
  by (simp add: rnds_def)

lemma rnds_mono: "x \<le> y \<Longrightarrow> rnds x \<le> rnds y"
proof -
  assume xy: "x \<le> y"
  consider "y < 0" | "x < 0" "0 \<le> y" | "0 \<le> x" using xy by linarith
  then show ?thesis
  proof cases
    case 1
    with xy have "rnd (- y) \<le> rnd (- x)" by (intro rnd_mono) auto
    with 1 xy show ?thesis by (simp add: rnds_def)
  next
    case 2
    then have "0 \<le> rnd (- x)" "0 \<le> rnd y" by (auto intro: rnd_nonneg)
    with 2 show ?thesis by (simp add: rnds_def)
  next
    case 3
    with xy have "rnd x \<le> rnd y" by (intro rnd_mono) auto
    with 3 xy show ?thesis by (simp add: rnds_def)
  qed
qed

lemma representable_minus [simp]: "representable (- q) \<longleftrightarrow> representable q"
proof -
  have "representable (- q)" if r: "representable q" for q
  proof -
    obtain m e where "q = of_int m * pow2 e" "\<bar>m\<bar> < 2 ^ 53" "- 1074 \<le> e"
      using r unfolding representable_def by blast
    then have "- q = of_int (- m) * pow2 e" "\<bar>- m\<bar> < 2 ^ 53" "- 1074 \<le> e" by simp_all
    then show ?thesis unfolding representable_def by blast
  qed
  from this [of q] this [of "- q"] show ?thesis by auto
qed

lemma rnds_representable [simp]: "representable q \<Longrightarrow> rnds q = q"
  by (simp add: rnds_def rnd_representable)

lemma representable_rnds [simp]: "representable (rnds q)"
  by (simp add: rnds_def representable_rnd)

lemma rnds_upper: "representable b \<Longrightarrow> x \<le> b \<Longrightarrow> rnds x \<le> b"
  using rnds_mono [of x b] by simp

lemma rnds_lower: "representable b \<Longrightarrow> b \<le> x \<Longrightarrow> b \<le> rnds x"
  using rnds_mono [of b x] by simp

lemma rnds_bound:
  assumes "representable b" "\<bar>x\<bar> \<le> b"
  shows "\<bar>rnds x\<bar> \<le> b"
proof -
  have "rnds x \<le> b" using assms by (intro rnds_upper) auto
  moreover have "- b \<le> rnds x" using assms by (intro rnds_lower) auto
  ultimately show ?thesis by (simp add: abs_le_iff)
qed

lemma rnds_sgn: "0 \<le> x \<Longrightarrow> 0 \<le> rnds x" "x \<le> 0 \<Longrightarrow> rnds x \<le> 0"
  using rnds_mono [of 0 x] rnds_mono [of x 0] by auto

lemma rnds_error_rel:
  assumes "pow2 (- 1022) \<le> \<bar>x\<bar>"
  shows "\<bar>rnds x - x\<bar> \<le> \<bar>x\<bar> * pow2 (- 53)"
proof (cases "x < 0")
  case True
  then have "rnds x - x = - (rnd (- x) - (- x))" by (simp add: rnds_def)
  moreover have "\<bar>rnd (- x) - (- x)\<bar> \<le> (- x) * pow2 (- 53)"
    using assms True by (intro rnd_error_rel) simp
  ultimately show ?thesis using True by simp
next
  case False
  then show ?thesis using assms rnd_error_rel [of x] by (simp add: rnds_def)
qed

lemma representable_dyadic:
  "\<bar>m\<bar> < 2 ^ 53 \<Longrightarrow> - 1074 \<le> e \<Longrightarrow> representable (of_int m * pow2 e)"
  unfolding representable_def by blast

lemma representable_of_int: "\<bar>m\<bar> < 2 ^ 53 \<Longrightarrow> representable (of_int m)"
  using representable_dyadic [of m 0] by simp

lemma representable_numeral: "(numeral n :: int) < 2 ^ 53 \<Longrightarrow> representable (numeral n)"
  using representable_of_int [of "numeral n"] by simp

lemma representable_pow2: "- 1074 \<le> e \<Longrightarrow> representable (pow2 e)"
  using representable_dyadic [of 1 e] by simp

lemma representable_0 [simp]: "representable 0"
  and representable_1 [simp]: "representable 1"
  using representable_of_int [of 0] representable_of_int [of 1] by simp_all

datatype f64 = NaN | Inf bool | Fin bool rat

fun fval :: "f64 \<Rightarrow> rat" where
  "fval (Fin s m) = (if s then - m else m)"
| "fval _ = 0"

fun is_finite :: "f64 \<Rightarrow> bool" where
  "is_finite (Fin s m) = True"
| "is_finite _ = False"

definition round64 :: "bool \<Rightarrow> rat \<Rightarrow> f64" where
  "round64 z x =
     (if x = 0 then Fin z 0
      else let m = rnd \<bar>x\<bar>
           in if 0 < m \<and> 1024 \<le> ilog2 m then Inf (x < 0) else Fin (x < 0) m)"

fun f64_neg :: "f64 \<Rightarrow> f64" where
  "f64_neg (Fin s m) = Fin (\<not> s) m"
| "f64_neg (Inf s) = Inf (\<not> s)"
| "f64_neg NaN = NaN"

fun f64_add :: "f64 \<Rightarrow> f64 \<Rightarrow> f64" where
  "f64_add (Fin s a) (Fin t b) = round64 (s \<and> t) (fval (Fin s a) + fval (Fin t b))"
| "f64_add (Inf s) (Inf t) = (if s = t then Inf s else NaN)"
| "f64_add (Inf s) (Fin _ _) = Inf s"
| "f64_add (Fin _ _) (Inf t) = Inf t"
| "f64_add _ _ = NaN"

definition f64_sub :: "f64 \<Rightarrow> f64 \<Rightarrow> f64" where
  "f64_sub x y = f64_add x (f64_neg y)"

fun f64_mul :: "f64 \<Rightarrow> f64 \<Rightarrow> f64" where
  "f64_mul (Fin s a) (Fin t b) = round64 (s \<noteq> t) (fval (Fin s a) * fval (Fin t b))"
| "f64_mul (Inf s) (Inf t) = Inf (s \<noteq> t)"
| "f64_mul (Inf s) (Fin t b) = (if b = 0 then NaN else Inf (s \<noteq> t))"
| "f64_mul (Fin s a) (Inf t) = (if a = 0 then NaN else Inf (s \<noteq> t))"
| "f64_mul _ _ = NaN"

fun f64_div :: "f64 \<Rightarrow> f64 \<Rightarrow> f64" where
  "f64_div (Fin s a) (Fin t b) =
     (if b = 0 then (if a = 0 then NaN else Inf (s \<noteq> t))
      else round64 (s \<noteq> t) (fval (Fin s a) / fval (Fin t b)))"
| "f64_div (Inf s) (Inf t) = NaN"
| "f64_div (Inf s) (Fin t b) = Inf (s \<noteq> t)"
| "f64_div (Fin s a) (Inf t) = Fin (s \<noteq> t) 0"
| "f64_div _ _ = NaN"

fun f64_less :: "f64 \<Rightarrow> f64 \<Rightarrow> bool" where
  "f64_less (Fin s a) (Fin t b) = (fval (Fin s a) < fval (Fin t b))"
| "f64_less (Inf s) (Inf t) = (s \<and> \<not> t)"
| "f64_less (Inf s) (Fin _ _) = s"
| "f64_less (Fin _ _) (Inf t) = (\<not> t)"
| "f64_less _ _ = False"

definition f64_less_eq :: "f64 \<Rightarrow> f64 \<Rightarrow> bool" where
  "f64_less_eq x y = (x \<noteq> NaN \<and> y \<noteq> NaN \<and> \<not> f64_less y x)"

instantiation f64 :: "{plus, minus, uminus, times, inverse, ord}"
begin

definition plus_f64 :: "f64 \<Rightarrow> f64 \<Rightarrow> f64" where
  "plus_f64 = f64_add"

definition minus_f64 :: "f64 \<Rightarrow> f64 \<Rightarrow> f64" where
  "minus_f64 = f64_sub"

definition uminus_f64 :: "f64 \<Rightarrow> f64" where
  "uminus_f64 = f64_neg"

definition times_f64 :: "f64 \<Rightarrow> f64 \<Rightarrow> f64" where
  "times_f64 = f64_mul"

definition divide_f64 :: "f64 \<Rightarrow> f64 \<Rightarrow> f64" where
  "divide_f64 = f64_div"

definition inverse_f64 :: "f64 \<Rightarrow> f64" where
  "inverse_f64 x = f64_div (Fin False 1) x"

definition less_f64 :: "f64 \<Rightarrow> f64 \<Rightarrow> bool" where
  "less_f64 = f64_less"

definition less_eq_f64 :: "f64 \<Rightarrow> f64 \<Rightarrow> bool" where
  "less_eq_f64 = f64_less_eq"

instance ..

end

definition f64_lit :: "rat \<Rightarrow> f64" where
  "f64_lit q = round64 False q"

definition f64_of_int :: "int \<Rightarrow> f64" where
  "f64_of_int n = round64 False (of_int n)"

definition f64_max :: "f64 \<Rightarrow> f64 \<Rightarrow> f64" where
  "f64_max a b = (if a < b then b else a)"

definition f64_clamp :: "f64 \<Rightarrow> f64 \<Rightarrow> f64 \<Rightarrow> f64" where
  "f64_clamp v lo hi = (if v < lo then lo else if hi < v then hi else v)"

lemma round64_finite:
  assumes "\<bar>x\<bar> \<le> pow2 1023"
  shows "is_finite (round64 z x) \<and> fval (round64 z x) = rnds x"
proof (cases "x = 0")
  case False
  have "rnd \<bar>x\<bar> \<le> rnd (pow2 1023)" using assms by (intro rnd_mono) auto
  also have "\<dots> = pow2 1023" by (intro rnd_representable representable_pow2) simp_all
  finally have le: "rnd \<bar>x\<bar> \<le> pow2 1023" .
  have "pow2 1023 < pow2 1024" by simp
  with le have lt: "rnd \<bar>x\<bar> < pow2 1024" by linarith
  have "\<not> 1024 \<le> ilog2 (rnd \<bar>x\<bar>)" if "0 < rnd \<bar>x\<bar>"
    using ilog2_less [OF that lt] by simp
  then show ?thesis using False
    by (cases "x < 0") (auto simp: round64_def Let_def rnds_def abs_of_neg abs_of_nonneg)
qed (simp add: round64_def)

lemmas is_finite_round64 [simp] = round64_finite [THEN conjunct1]
lemmas fval_round64 [simp] = round64_finite [THEN conjunct2]

lemma is_finite_iff: "is_finite x \<longleftrightarrow> (\<exists>s m. x = Fin s m)"
  by (cases x) auto

lemma is_finite_neg [simp]: "is_finite (- x) = is_finite (x :: f64)"
  by (cases x) (auto simp: uminus_f64_def)

lemma fval_neg [simp]: "fval (- x) = - fval x"
  by (cases x) (auto simp: uminus_f64_def)

lemma f64_add_finite:
  assumes "is_finite x" "is_finite y" "\<bar>fval x + fval y\<bar> \<le> pow2 1023"
  shows "is_finite (x + y) \<and> fval (x + y) = rnds (fval x + fval y)"
  using assms by (cases x; cases y) (simp_all add: plus_f64_def del: fval.simps)

lemma f64_minus_conv: "x - y = x + - (y :: f64)"
  by (simp add: minus_f64_def plus_f64_def uminus_f64_def f64_sub_def)

lemma f64_sub_finite:
  assumes "is_finite x" "is_finite y" "\<bar>fval x - fval y\<bar> \<le> pow2 1023"
  shows "is_finite (x - y) \<and> fval (x - y) = rnds (fval x - fval y)"
  using f64_add_finite [of x "- y"] assms by (simp add: f64_minus_conv)

lemma f64_mul_finite:
  assumes "is_finite x" "is_finite y" "\<bar>fval x * fval y\<bar> \<le> pow2 1023"
  shows "is_finite (x * y) \<and> fval (x * y) = rnds (fval x * fval y)"
  using assms by (cases x; cases y) (simp_all add: times_f64_def del: fval.simps)

lemma f64_div_finite:
  assumes "is_finite x" "is_finite y" "fval y \<noteq> 0" "\<bar>fval x / fval y\<bar> \<le> pow2 1023"
  shows "is_finite (x / y) \<and> fval (x / y) = rnds (fval x / fval y)"
proof -
  obtain s a t b where xy: "x = Fin s a" "y = Fin t b"
    using assms(1,2) by (auto simp: is_finite_iff)
  have b: "b \<noteq> 0" using assms(3) by (auto simp: xy split: if_splits)
  have "x / y = round64 (s \<noteq> t) (fval x / fval y)"
    using b unfolding divide_f64_def xy by (simp del: fval.simps)
  with assms(4) show ?thesis by simp
qed

lemma f64_less_finite [simp]:
  "is_finite x \<Longrightarrow> is_finite y \<Longrightarrow> x < y \<longleftrightarrow> fval x < fval y"
  by (cases x; cases y) (simp_all add: less_f64_def)

lemma f64_less_eq_finite [simp]:
  "is_finite x \<Longrightarrow> is_finite y \<Longrightarrow> x \<le> y \<longleftrightarrow> fval x \<le> fval y"
  by (cases x; cases y) (auto simp: less_eq_f64_def f64_less_eq_def)

lemma f64_of_int_finite:
  "\<bar>n\<bar> < 2 ^ 53 \<Longrightarrow> is_finite (f64_of_int n) \<and> fval (f64_of_int n) = of_int n"
proof -
  assume n: "\<bar>n\<bar> < 2 ^ 53"
  then have "\<bar>of_int n :: rat\<bar> \<le> of_int (2 ^ 53)" by (metis of_int_abs of_int_le_iff order_less_imp_le)
  also have "\<dots> = pow2 53" by (simp add: pow2_numeral)
  also have "\<dots> \<le> pow2 1023" by simp
  finally show ?thesis using n representable_of_int [OF n] by (simp add: f64_of_int_def)
qed

lemma f64_max_finite:
  assumes "is_finite a" "is_finite b"
  shows "is_finite (f64_max a b) \<and> fval (f64_max a b) = max (fval a) (fval b)"
  using assms by (simp add: f64_max_def max_def)

lemma f64_clamp_finite:
  assumes "is_finite v" "is_finite lo" "is_finite hi" "fval lo \<le> fval hi"
  shows "is_finite (f64_clamp v lo hi) \<and> fval (f64_clamp v lo hi) = max (fval lo) (min (fval hi) (fval v))"
  using assms by (simp add: f64_clamp_def max_def min_def)


section \<open>Rounding errors\<close>

lemma rnds_error_abs:
  assumes "\<bar>x\<bar> < 1"
  shows "\<bar>rnds x - x\<bar> \<le> pow2 (- 53)"
proof (cases "x = 0")
  case False
  have "ilog2 \<bar>x\<bar> < 0" using False assms by (intro ilog2_less) simp_all
  then have "ulp_exp \<bar>x\<bar> \<le> - 53" by (simp add: ulp_exp_def)
  then have "pow2 (ulp_exp \<bar>x\<bar>) \<le> pow2 (- 53)" by simp
  moreover have "\<bar>rnd \<bar>x\<bar> - \<bar>x\<bar>\<bar> \<le> pow2 (ulp_exp \<bar>x\<bar>) / 2"
    using False by (intro rnd_error_ulp) simp
  moreover have "\<bar>rnds x - x\<bar> = \<bar>rnd \<bar>x\<bar> - \<bar>x\<bar>\<bar>" by (simp add: rnds_def abs_if)
  moreover have "0 < pow2 (ulp_exp \<bar>x\<bar>)" by simp
  ultimately show ?thesis by linarith
qed simp

lemma rnds_error: "\<bar>rnds x - x\<bar> \<le> (\<bar>x\<bar> + 1) * pow2 (- 53)"
proof (cases "\<bar>x\<bar> < 1")
  case True
  have "\<bar>rnds x - x\<bar> \<le> 1 * pow2 (- 53)" using rnds_error_abs [OF True] by simp
  also have "\<dots> \<le> (\<bar>x\<bar> + 1) * pow2 (- 53)" by (intro mult_right_mono) simp_all
  finally show ?thesis .
next
  case False
  have "pow2 (- 1022) \<le> pow2 0" by (simp only: pow2_le_iff)
  then have "pow2 (- 1022) \<le> \<bar>x\<bar>" using False by simp
  then have "\<bar>rnds x - x\<bar> \<le> \<bar>x\<bar> * pow2 (- 53)" by (rule rnds_error_rel)
  also have "\<dots> \<le> (\<bar>x\<bar> + 1) * pow2 (- 53)" by (intro mult_right_mono) simp_all
  finally show ?thesis .
qed

lemma rnds_error_le:
  assumes "\<bar>x\<bar> \<le> b"
  shows "\<bar>rnds x - x\<bar> \<le> (b + 1) * pow2 (- 53)"
proof -
  have "(\<bar>x\<bar> + 1) * pow2 (- 53) \<le> (b + 1) * pow2 (- 53)"
    using assms by (intro mult_right_mono) simp_all
  then show ?thesis using rnds_error [of x] by linarith
qed

section \<open>Evaluating closed expressions\<close>

lemma pow2_neg_numeral: "pow2 (- numeral n) = 1 / 2 ^ numeral n"
  by (simp add: pow2_def power_int_def divide_simps)

lemma floor_numeral_div:
  "\<lfloor>numeral a / numeral b :: rat\<rfloor> = numeral a div numeral b"
  "\<lfloor>1 / numeral b :: rat\<rfloor> = 1 div numeral b"
  "\<lfloor>- numeral a / numeral b :: rat\<rfloor> = - numeral a div numeral b"
  by (metis floor_divide_of_int_eq of_int_numeral of_int_1 of_int_minus)+

lemmas [f64_eval] =
  round64_def rnd_def ulp_exp_def rne_def ilog2.simps Let_def pow2_numeral pow2_neg_numeral
  floor_numeral_div plus_f64_def times_f64_def divide_f64_def minus_f64_def uminus_f64_def f64_sub_def
  less_f64_def less_eq_f64_def f64_less_eq_def f64_of_int_def f64_lit_def f64_max_def f64_clamp_def

end
