(* ===== verification/PositionManager.thy ===== *)
theory PositionManager
  imports Float64 "HOL-Library.Monad_Syntax"
begin

text \<open>
  The position and its profit, \<open>include/position_manager.hpp\<close>. Sizes are mathematical integers whose operations
  are checked against the range of \<open>int\<close>: \<open>add_fill\<close> returns \<open>None\<close> where the C++ expression overflows,
  which is undefined. Prices and profits are binary64 values.

  \<open>book_cash\<close> is the cash ledger that the books imply. The lemmas bound how far a fill can drift from
  the exact ledger, and how far the reported equity is from cash plus inventory.
\<close>

record position_manager =
  position_size :: int
  realized_pnl :: f64
  average_entry_price :: f64

definition pm_init :: position_manager where
  "pm_init = \<lparr>position_size = 0, realized_pnl = f64_lit 0, average_entry_price = f64_lit 0\<rparr>"

definition c_abs :: "int \<Rightarrow> int option" where
  "c_abs n = (if 0 \<le> n then Some n else checked_int (- n))"

definition add_fill :: "int \<Rightarrow> f64 \<Rightarrow> position_manager \<Rightarrow> position_manager option" where
  "add_fill fill_size fill_price pm =
     (if fill_size = 0 then Some pm
      else if position_size pm = 0 then
        Some (pm\<lparr>position_size := fill_size, average_entry_price := fill_price\<rparr>)
      else if 0 < position_size pm \<and> 0 < fill_size \<or> position_size pm < 0 \<and> fill_size < 0 then
        do {
          old_abs \<leftarrow> c_abs (position_size pm);
          add_abs \<leftarrow> c_abs fill_size;
          new_abs \<leftarrow> checked_int (old_abs + add_abs);
          let weighted = average_entry_price pm * f64_of_int old_abs + fill_price * f64_of_int add_abs;
          new_size \<leftarrow> checked_int (position_size pm + fill_size);
          Some (pm\<lparr>average_entry_price := weighted / f64_of_int new_abs, position_size := new_size\<rparr>)
        }
      else
        do {
          pos_abs \<leftarrow> c_abs (position_size pm);
          fill_abs \<leftarrow> c_abs fill_size;
          let closing_abs = (if fill_abs < pos_abs then fill_abs else pos_abs);
          let pnl =
            (if 0 < position_size pm
             then realized_pnl pm + f64_of_int closing_abs * (fill_price - average_entry_price pm)
             else realized_pnl pm + f64_of_int closing_abs * (average_entry_price pm - fill_price));
          new_size \<leftarrow> checked_int (position_size pm + fill_size);
          let pm' = pm\<lparr>realized_pnl := pnl, position_size := new_size\<rparr>;
          Some
            (if new_size = 0 then pm'\<lparr>average_entry_price := f64_lit 0\<rparr>
             else if 0 < new_size \<and> 0 < fill_size \<or> new_size < 0 \<and> fill_size < 0
             then pm'\<lparr>average_entry_price := fill_price\<rparr>
             else pm')
        })"

definition get_unrealized_pnl :: "position_manager \<Rightarrow> f64 \<Rightarrow> f64" where
  "get_unrealized_pnl pm current_mid_price =
     f64_of_int (position_size pm) * (current_mid_price - average_entry_price pm)"

section \<open>Undefined behaviour\<close>

lemma c_abs_eq: "c_abs n = (if \<bar>n\<bar> \<le> int_max then Some \<bar>n\<bar> else if 0 \<le> n then Some n else None)"
  by (auto simp: c_abs_def checked_int_def in_int_def int_min_def int_max_def)

lemma c_abs_small [simp]: "\<bar>n\<bar> \<le> int_max \<Longrightarrow> c_abs n = Some \<bar>n\<bar>"
  by (simp add: c_abs_eq)

lemma add_fill_size:
  "add_fill n p pm = Some pm' \<Longrightarrow> position_size pm' = position_size pm + n"
  by (auto simp: add_fill_def Let_def split: if_splits option.splits bind_splits)

lemma add_fill_defined:
  assumes "\<bar>position_size pm\<bar> + \<bar>n\<bar> \<le> int_max"
  shows "\<exists>pm'. add_fill n p pm = Some pm'"
proof -
  have "\<bar>position_size pm\<bar> \<le> int_max" "\<bar>n\<bar> \<le> int_max"
    "in_int (position_size pm + n)" "in_int (\<bar>position_size pm\<bar> + \<bar>n\<bar>)"
    using assms by (auto intro!: in_int_bound)
  then show ?thesis by (auto simp: add_fill_def Let_def)
qed

section \<open>The four branches\<close>

lemma add_fill_zero [simp]: "add_fill 0 p pm = Some pm"
  by (simp add: add_fill_def)

lemma add_fill_open:
  "n \<noteq> 0 \<Longrightarrow> position_size pm = 0 \<Longrightarrow>
   add_fill n p pm = Some (pm\<lparr>position_size := n, average_entry_price := p\<rparr>)"
  by (simp add: add_fill_def)

lemma in_int_parts:
  assumes "\<bar>m\<bar> + \<bar>n\<bar> \<le> int_max"
  shows "\<bar>m\<bar> \<le> int_max" "\<bar>n\<bar> \<le> int_max" "in_int (m + n)" "in_int (\<bar>m\<bar> + \<bar>n\<bar>)"
  using assms by (auto intro!: in_int_bound)

lemma add_fill_increase:
  assumes "\<bar>position_size pm\<bar> + \<bar>n\<bar> \<le> int_max" "0 < position_size pm * n"
  shows "add_fill n p pm = Some (pm\<lparr>
      average_entry_price :=
        (average_entry_price pm * f64_of_int \<bar>position_size pm\<bar> + p * f64_of_int \<bar>n\<bar>) /
        f64_of_int (\<bar>position_size pm\<bar> + \<bar>n\<bar>),
      position_size := position_size pm + n\<rparr>)"
proof -
  have "0 < position_size pm \<and> 0 < n \<or> position_size pm < 0 \<and> n < 0" "position_size pm \<noteq> 0" "n \<noteq> 0"
    using assms(2) by (auto simp: zero_less_mult_iff)
  then show ?thesis using in_int_parts [OF assms(1)]
    by (simp only: add_fill_def if_True if_False c_abs_small checked_int_in_range bind.bind_lunit Let_def)
qed

lemma add_fill_reduce:
  fixes p :: f64
  assumes "\<bar>position_size pm\<bar> + \<bar>n\<bar> \<le> int_max" "position_size pm * n < 0"
  defines "c \<equiv> min \<bar>n\<bar> \<bar>position_size pm\<bar>"
  defines "gain \<equiv> (if 0 < position_size pm then p - average_entry_price pm else average_entry_price pm - p)"
  shows "add_fill n p pm = Some
     \<lparr>position_size = position_size pm + n,
      realized_pnl = realized_pnl pm + f64_of_int c * gain,
      average_entry_price =
        (if \<bar>n\<bar> = \<bar>position_size pm\<bar> then f64_lit 0
         else if \<bar>position_size pm\<bar> < \<bar>n\<bar> then p else average_entry_price pm)\<rparr>"
proof -
  let ?m = "position_size pm"
  let ?pm = "pm\<lparr>realized_pnl := realized_pnl pm + f64_of_int c * gain, position_size := ?m + n\<rparr>"
  have opposite: "\<not> (0 < ?m \<and> 0 < n \<or> ?m < 0 \<and> n < 0)" "?m \<noteq> 0" "n \<noteq> 0"
    using assms(2) by (auto simp: mult_less_0_iff)
  have flat: "(?m + n = 0) = (\<bar>n\<bar> = \<bar>?m\<bar>)"
    and flip: "?m + n \<noteq> 0 \<Longrightarrow> (0 < ?m + n \<and> 0 < n \<or> ?m + n < 0 \<and> n < 0) = (\<bar>?m\<bar> < \<bar>n\<bar>)"
    using assms(2) by (auto simp: mult_less_0_iff)
  have closing: "(if \<bar>n\<bar> < \<bar>?m\<bar> then \<bar>n\<bar> else \<bar>?m\<bar>) = c" by (simp add: c_def min_def)
  have pnl: "(if 0 < ?m then realized_pnl pm + f64_of_int c * (p - average_entry_price pm)
      else realized_pnl pm + f64_of_int c * (average_entry_price pm - p)) =
      realized_pnl pm + f64_of_int c * gain"
    by (simp add: gain_def)
  have "add_fill n p pm = Some
     (if ?m + n = 0 then ?pm\<lparr>average_entry_price := f64_lit 0\<rparr>
      else if 0 < ?m + n \<and> 0 < n \<or> ?m + n < 0 \<and> n < 0 then ?pm\<lparr>average_entry_price := p\<rparr>
      else ?pm)"
    using opposite in_int_parts [OF assms(1)]
    by (simp only: add_fill_def if_False c_abs_small checked_int_in_range bind.bind_lunit Let_def closing pnl)
  also have "\<dots> = Some
     (if \<bar>n\<bar> = \<bar>?m\<bar> then ?pm\<lparr>average_entry_price := f64_lit 0\<rparr>
      else if \<bar>?m\<bar> < \<bar>n\<bar> then ?pm\<lparr>average_entry_price := p\<rparr> else ?pm)"
    using flat flip by presburger
  finally show ?thesis by (cases pm) simp
qed

section \<open>Drift of the books against the exact cash ledger\<close>

definition unit_price :: "f64 \<Rightarrow> bool" where
  "unit_price p \<longleftrightarrow> is_finite p \<and> 0 \<le> fval p \<and> fval p \<le> 1"

definition pm_ok :: "position_manager \<Rightarrow> bool" where
  "pm_ok pm \<longleftrightarrow>
     in_int (position_size pm) \<and> is_finite (realized_pnl pm) \<and> unit_price (average_entry_price pm) \<and>
     (position_size pm = 0 \<longrightarrow> fval (average_entry_price pm) = 0)"

definition book_cash :: "position_manager \<Rightarrow> rat" where
  "book_cash pm = fval (realized_pnl pm) - of_int (position_size pm) * fval (average_entry_price pm)"

lemma pm_ok_init: "pm_ok pm_init"
  by (simp add: pm_ok_def pm_init_def unit_price_def f64_lit_def round64_def in_int_def int_min_def int_max_def)

lemma small_pow2: "b \<le> 2 ^ 52 \<Longrightarrow> b \<le> pow2 1023"
proof -
  assume "b \<le> (2 :: rat) ^ 52"
  also have "\<dots> = pow2 52" by (simp add: pow2_numeral)
  also have "\<dots> \<le> pow2 1023" by simp
  finally show ?thesis .
qed

text \<open>One rounded product of a price and a quantity, and the weighted average of two prices.\<close>

lemma price_times_size:
  assumes "unit_price p" "0 \<le> n" "n \<le> 2 ^ 32"
  shows "is_finite (p * f64_of_int n)" "0 \<le> fval (p * f64_of_int n)" "fval (p * f64_of_int n) \<le> of_int n"
    "\<bar>fval (p * f64_of_int n) - fval p * of_int n\<bar> \<le> (of_int n + 1) * pow2 (- 53)"
proof -
  have n: "is_finite (f64_of_int n)" "fval (f64_of_int n) = of_int n"
    using f64_of_int_finite [of n] assms(2,3) by simp_all
  have p: "is_finite p" "0 \<le> fval p" "fval p \<le> 1" using assms(1) by (auto simp: unit_price_def)
  have le: "0 \<le> fval p * of_int n" "fval p * of_int n \<le> of_int n"
    using p assms(2) mult_right_mono [of "fval p" 1 "of_int n"] by simp_all
  have "(of_int n :: rat) \<le> 2 ^ 32" using assms(3) by (metis of_int_le_iff of_int_numeral of_int_power)
  then have "\<bar>fval p * of_int n\<bar> \<le> pow2 1023" using le by (intro small_pow2) simp
  then have m: "is_finite (p * f64_of_int n)" "fval (p * f64_of_int n) = rnds (fval p * of_int n)"
    using f64_mul_finite [OF p(1) n(1)] n(2) by simp_all
  show "is_finite (p * f64_of_int n)" by (rule m)
  show "0 \<le> fval (p * f64_of_int n)" unfolding m using le by (intro rnds_sgn)
  show "fval (p * f64_of_int n) \<le> of_int n"
    unfolding m using le assms(2,3) by (intro rnds_upper representable_of_int) simp_all
  show "\<bar>fval (p * f64_of_int n) - fval p * of_int n\<bar> \<le> (of_int n + 1) * pow2 (- 53)"
    unfolding m using le by (intro rnds_error_le) simp
qed

lemma weighted_average:
  assumes "unit_price a" "unit_price p" "0 < m" "0 < n" "m + n \<le> 2 ^ 32"
  defines "v \<equiv> (a * f64_of_int m + p * f64_of_int n) / f64_of_int (m + n)"
  shows "unit_price v"
    "\<bar>of_int (m + n) * fval v - (of_int m * fval a + of_int n * fval p)\<bar> \<le> of_int (m + n) * pow2 (- 50)"
proof -
  let ?x = "a * f64_of_int m" and ?y = "p * f64_of_int n"
  have "0 \<le> m" "m \<le> 2 ^ 32" "0 \<le> n" "n \<le> 2 ^ 32" using assms(3-5) by simp_all
  note x = price_times_size [OF assms(1) this(1,2)] and y = price_times_size [OF assms(2) this(3,4)]
  define N :: rat where "N = of_int (m + n)"
  have N: "0 < N" "N \<le> 2 ^ 32" "2 \<le> N"
  proof -
    show "0 < N" using assms(3,4) by (simp add: N_def)
    show "N \<le> 2 ^ 32" unfolding N_def using assms(5) of_int_le_iff [of "m + n" "2 ^ 32", where 'a = rat] by simp
    show "2 \<le> N" unfolding N_def using assms(3,4) of_int_le_iff [of 2 "m + n", where 'a = rat] by simp
  qed
  have rN: "representable N" unfolding N_def using assms(3-5) by (intro representable_of_int) simp
  have d: "is_finite (f64_of_int (m + n))" "fval (f64_of_int (m + n)) = N"
    unfolding N_def using f64_of_int_finite [of "m + n"] assms(3-5) by simp_all
  have s_le: "0 \<le> fval ?x + fval ?y" "fval ?x + fval ?y \<le> N" using x(2,3) y(2,3) by (simp_all add: N_def)
  have "\<bar>fval ?x + fval ?y\<bar> \<le> pow2 1023" using s_le N by (intro small_pow2) simp
  then have s: "is_finite (?x + ?y)" "fval (?x + ?y) = rnds (fval ?x + fval ?y)"
    using f64_add_finite [OF x(1) y(1)] by simp_all
  have sum: "0 \<le> fval (?x + ?y)" "fval (?x + ?y) \<le> N"
    unfolding s by (rule rnds_sgn(1) [OF s_le(1)], rule rnds_upper [OF rN s_le(2)])
  have q: "0 \<le> fval (?x + ?y) / N" "fval (?x + ?y) / N \<le> 1"
    using sum N by (simp_all add: divide_le_eq)
  have "\<bar>fval (?x + ?y) / N\<bar> \<le> pow2 1023" using q by (intro small_pow2) simp
  then have v: "is_finite v" "fval v = rnds (fval (?x + ?y) / N)"
    unfolding v_def using f64_div_finite [OF s(1) d(1)] d(2) N(1) by simp_all
  show "unit_price v"
    using q by (auto simp: unit_price_def v intro: rnds_sgn rnds_upper)
  have e1: "\<bar>fval (?x + ?y) - (fval ?x + fval ?y)\<bar> \<le> (N + 1) * pow2 (- 53)"
    unfolding s(2) using s_le by (intro rnds_error_le) simp
  have "\<bar>fval v - fval (?x + ?y) / N\<bar> \<le> (1 + 1) * pow2 (- 53)"
    unfolding v(2) using q by (intro rnds_error_le) simp
  then have "N * \<bar>fval v - fval (?x + ?y) / N\<bar> \<le> N * (2 * pow2 (- 53))"
    using N by (intro mult_left_mono) simp_all
  moreover have "N * \<bar>fval v - fval (?x + ?y) / N\<bar> = \<bar>N * (fval v - fval (?x + ?y) / N)\<bar>"
    using N(1) by (simp only: abs_mult abs_of_pos)
  moreover have "N * (fval v - fval (?x + ?y) / N) = N * fval v - fval (?x + ?y)"
    using N(1) by (simp add: right_diff_distrib)
  ultimately have e2: "\<bar>N * fval v - fval (?x + ?y)\<bar> \<le> N * (2 * pow2 (- 53))" by simp
  have "pow2 (- 50) = 8 * pow2 (- 53)" using pow2_add [of 3 "- 53"] by (simp add: pow2_numeral)
  then have "N * pow2 (- 50) = 8 * (N * pow2 (- 53))" by simp
  moreover have "(2 * pow2 (- 53)) \<le> N * pow2 (- 53)" using N(3) by (intro mult_right_mono) simp_all
  moreover have "\<bar>N * fval v - (of_int m * fval a + of_int n * fval p)\<bar>
      \<le> N * (2 * pow2 (- 53)) + (N + 1) * pow2 (- 53) +
        (of_int m + 1) * pow2 (- 53) + (of_int n + 1) * pow2 (- 53)"
    using e1 e2 x(4) y(4) by (simp only: mult.commute [of "fval _" "of_int _"])
  moreover have "\<dots> = N * pow2 (- 53) * 4 + 3 * pow2 (- 53)"
    by (simp add: N_def algebra_simps)
  ultimately show "\<bar>of_int (m + n) * fval v - (of_int m * fval a + of_int n * fval p)\<bar> \<le> of_int (m + n) * pow2 (- 50)"
    unfolding N_def [symmetric] by linarith
qed

lemma closing_pnl:
  assumes "unit_price a" "unit_price p" "0 < c" "c \<le> 2 ^ 32" "is_finite R" "\<bar>fval R\<bar> \<le> pow2 1000"
  defines "v \<equiv> R + f64_of_int c * (p - a)"
  shows "is_finite v"
    "\<bar>fval v - (fval R + of_int c * (fval p - fval a))\<bar> \<le> (of_int c + \<bar>fval R\<bar>) * pow2 (- 50)"
proof -
  have ap: "is_finite a" "is_finite p" "\<bar>fval p - fval a\<bar> \<le> 1"
    using assms(1,2) by (auto simp: unit_price_def)
  define C :: rat where "C = of_int c"
  have C: "1 \<le> C" "C \<le> 2 ^ 32"
    unfolding C_def using assms(3,4) of_int_le_iff [of 1 c, where 'a = rat]
      of_int_le_iff [of c "2 ^ 32", where 'a = rat] by simp_all
  have c: "is_finite (f64_of_int c)" "fval (f64_of_int c) = C"
    unfolding C_def using f64_of_int_finite [of c] assms(3,4) by simp_all
  have rC: "representable C" unfolding C_def using assms(3,4) by (intro representable_of_int) simp
  have "\<bar>fval p - fval a\<bar> \<le> pow2 1023" using ap(3) by (intro small_pow2) simp
  then have d: "is_finite (p - a)" "fval (p - a) = rnds (fval p - fval a)"
    using f64_sub_finite [OF ap(2,1)] by simp_all
  have d1: "\<bar>fval (p - a)\<bar> \<le> 1" unfolding d by (rule rnds_bound [OF representable_1 ap(3)])
  have e1: "\<bar>fval (p - a) - (fval p - fval a)\<bar> \<le> (1 + 1) * pow2 (- 53)"
    unfolding d using ap(3) by (rule rnds_error_le)
  have cd: "\<bar>C * fval (p - a)\<bar> \<le> C"
    using d1 C mult_left_mono [of "\<bar>fval (p - a)\<bar>" 1 C] by (simp add: abs_mult)
  then have "\<bar>C * fval (p - a)\<bar> \<le> pow2 1023" using C by (intro small_pow2) simp
  then have m: "is_finite (f64_of_int c * (p - a))" "fval (f64_of_int c * (p - a)) = rnds (C * fval (p - a))"
    using f64_mul_finite [OF c(1) d(1)] c(2) by simp_all
  have m1: "\<bar>fval (f64_of_int c * (p - a))\<bar> \<le> C" unfolding m by (rule rnds_bound [OF rC cd])
  have e2: "\<bar>fval (f64_of_int c * (p - a)) - C * fval (p - a)\<bar> \<le> (C + 1) * pow2 (- 53)"
    unfolding m using cd by (rule rnds_error_le)
  have sum: "\<bar>fval R + fval (f64_of_int c * (p - a))\<bar> \<le> \<bar>fval R\<bar> + C" using m1 by linarith
  have "C \<le> pow2 32" using C by (simp add: pow2_numeral)
  moreover have "pow2 32 \<le> pow2 1000" "pow2 1001 \<le> pow2 1023" by (simp_all only: pow2_le_iff)
  moreover have "pow2 1000 + pow2 1000 = pow2 1001" using pow2_add [of 1 1000] by simp
  ultimately have "\<bar>fval R\<bar> + C \<le> pow2 1023" using assms(6) by linarith
  then have "\<bar>fval R + fval (f64_of_int c * (p - a))\<bar> \<le> pow2 1023" using sum by linarith
  then have v: "is_finite v" "fval v = rnds (fval R + fval (f64_of_int c * (p - a)))"
    unfolding v_def using f64_add_finite [OF assms(5) m(1)] by simp_all
  show "is_finite v" by (rule v)
  have e3: "\<bar>fval v - (fval R + fval (f64_of_int c * (p - a)))\<bar> \<le> (\<bar>fval R\<bar> + C + 1) * pow2 (- 53)"
    unfolding v using sum by (rule rnds_error_le)
  have "C * \<bar>fval (p - a) - (fval p - fval a)\<bar> \<le> C * (2 * pow2 (- 53))"
    using e1 C by (intro mult_left_mono) simp_all
  moreover have "C * \<bar>fval (p - a) - (fval p - fval a)\<bar> = \<bar>C * fval (p - a) - C * (fval p - fval a)\<bar>"
    using C by (simp add: abs_mult right_diff_distrib [symmetric])
  ultimately have "\<bar>fval v - (fval R + C * (fval p - fval a))\<bar>
      \<le> C * (2 * pow2 (- 53)) + (C + 1) * pow2 (- 53) + (\<bar>fval R\<bar> + C + 1) * pow2 (- 53)"
    using e2 e3 by linarith
  also have "\<dots> = 4 * (C * pow2 (- 53)) + \<bar>fval R\<bar> * pow2 (- 53) + 2 * pow2 (- 53)"
    by (simp add: algebra_simps)
  also have "\<dots> \<le> 8 * ((C + \<bar>fval R\<bar>) * pow2 (- 53))"
  proof -
    have "1 * pow2 (- 53) \<le> C * pow2 (- 53)" using C(1) by (intro mult_right_mono) simp_all
    moreover have "0 \<le> \<bar>fval R\<bar> * pow2 (- 53)" "0 < pow2 (- 53)" by simp_all
    moreover have "4 * x + y + 2 * z \<le> 8 * (x + y)" if "z \<le> x" "0 \<le> y" "0 < z" for x y z :: rat
      using that unfolding distrib_left by linarith
    ultimately show ?thesis unfolding distrib_right mult_1_left by blast
  qed
  also have "\<dots> = (C + \<bar>fval R\<bar>) * pow2 (- 50)"
    using pow2_add [of 3 "- 53"] by (simp add: pow2_numeral)
  finally show "\<bar>fval v - (fval R + of_int c * (fval p - fval a))\<bar> \<le> (of_int c + \<bar>fval R\<bar>) * pow2 (- 50)"
    unfolding C_def .
qed

text \<open>How far one closing fill can move the realized profit.\<close>

lemma closing_pnl_bound:
  assumes "unit_price a" "unit_price p" "0 \<le> c" "is_finite R" "\<bar>fval R\<bar> \<le> of_int k" "k + c \<le> 2 ^ 40"
  shows "\<bar>fval (R + f64_of_int c * (p - a))\<bar> \<le> of_int (k + c)"
proof -
  have k: "0 \<le> k" using order.trans [OF abs_ge_zero assms(5)] by simp
  have ap: "is_finite a" "is_finite p" "\<bar>fval p - fval a\<bar> \<le> 1"
    using assms(1,2) by (auto simp: unit_price_def)
  have "\<bar>fval p - fval a\<bar> \<le> pow2 1023" using ap(3) by (intro small_pow2) simp
  then have d: "is_finite (p - a)" "fval (p - a) = rnds (fval p - fval a)"
    using f64_sub_finite [OF ap(2,1)] by simp_all
  have d1: "\<bar>fval (p - a)\<bar> \<le> 1" unfolding d by (rule rnds_bound [OF representable_1 ap(3)])
  have small: "c < 2 ^ 53" "k + c < 2 ^ 53" using assms(3,6) k by simp_all
  have c: "is_finite (f64_of_int c)" "fval (f64_of_int c) = of_int c" "representable (of_int c)" "representable (of_int (k + c))"
    using f64_of_int_finite [of c] representable_of_int [of c] representable_of_int [of "k + c"] assms(3) k small
    by simp_all
  have C: "0 \<le> (of_int c :: rat)" "(of_int (k + c) :: rat) \<le> 2 ^ 40" "(of_int c :: rat) \<le> of_int (k + c)"
    using assms(3,6) k of_int_le_iff [of "k + c" "2 ^ 40", where 'a = rat] by simp_all
  have cd: "\<bar>of_int c * fval (p - a)\<bar> \<le> of_int c"
    using d1 C(1) mult_left_mono [of "\<bar>fval (p - a)\<bar>" 1 "of_int c"] by (simp add: abs_mult)
  then have "\<bar>of_int c * fval (p - a)\<bar> \<le> pow2 1023" using C by (intro small_pow2) simp
  then have m: "is_finite (f64_of_int c * (p - a))" "fval (f64_of_int c * (p - a)) = rnds (of_int c * fval (p - a))"
    using f64_mul_finite [OF c(1) d(1)] c(2) by simp_all
  have m1: "\<bar>fval (f64_of_int c * (p - a))\<bar> \<le> of_int c" unfolding m by (rule rnds_bound [OF c(3) cd])
  have sum: "\<bar>fval R + fval (f64_of_int c * (p - a))\<bar> \<le> of_int (k + c)" using m1 assms(5) by simp
  then have "\<bar>fval R + fval (f64_of_int c * (p - a))\<bar> \<le> pow2 1023" using order.trans [OF sum C(2)] by (intro small_pow2) simp
  then have "fval (R + f64_of_int c * (p - a)) = rnds (fval R + fval (f64_of_int c * (p - a)))"
    using f64_add_finite [OF assms(4) m(1)] by simp
  then show ?thesis using rnds_bound [OF c(4) sum] by simp
qed

lemma realized_bound:
  assumes "pm_ok pm" "unit_price p" "\<bar>position_size pm\<bar> + \<bar>n\<bar> \<le> int_max"
    and "\<bar>fval (realized_pnl pm)\<bar> \<le> of_int k" "k + \<bar>n\<bar> \<le> 2 ^ 40" "add_fill n p pm = Some pm'"
  shows "\<bar>fval (realized_pnl pm')\<bar> \<le> of_int (k + \<bar>n\<bar>)"
proof -
  let ?R = "realized_pnl pm" and ?a = "average_entry_price pm" and ?m = "position_size pm"
  have weaker: "(of_int k :: rat) \<le> of_int (k + \<bar>n\<bar>)" by simp
  have ok: "unit_price ?a" "is_finite ?R" using assms(1) by (auto simp: pm_ok_def)
  consider "?m * n = 0" | "0 < ?m * n" | "?m * n < 0" by linarith
  then show ?thesis
  proof cases
    case 1
    then consider "n = 0" | "n \<noteq> 0" "?m = 0" by auto
    then have "realized_pnl pm' = ?R" using assms(6) by cases (auto simp: add_fill_open)
    then show ?thesis using order.trans [OF assms(4) weaker] by (simp only:)
  next
    case 2
    then have "realized_pnl pm' = ?R" using assms(6) add_fill_increase [OF assms(3) 2, of p] by auto
    then show ?thesis using order.trans [OF assms(4) weaker] by (simp only:)
  next
    case 3
    define c where "c = min \<bar>n\<bar> \<bar>?m\<bar>"
    have c: "0 \<le> c" "c \<le> \<bar>n\<bar>" "k + c \<le> 2 ^ 40" using assms(5) by (auto simp: c_def)
    have R': "realized_pnl pm' = ?R + f64_of_int c * (if 0 < ?m then p - ?a else ?a - p)"
      using assms(6) add_fill_reduce [OF assms(3) 3, of p] unfolding c_def by auto
    have "\<bar>fval (realized_pnl pm')\<bar> \<le> of_int (k + c)"
      unfolding R' using closing_pnl_bound [OF ok(1) assms(2) c(1) ok(2) assms(4) c(3)]
        closing_pnl_bound [OF assms(2) ok(1) c(1) ok(2) assms(4) c(3)] by simp
    moreover have "(of_int (k + c) :: rat) \<le> of_int (k + \<bar>n\<bar>)" using c(2) by simp
    ultimately show ?thesis by (rule order.trans)
  qed
qed

definition drift_bound :: "int \<Rightarrow> position_manager \<Rightarrow> rat" where
  "drift_bound n pm = (of_int \<bar>position_size pm\<bar> + of_int \<bar>n\<bar> + \<bar>fval (realized_pnl pm)\<bar>) * pow2 (- 50)"

lemma f64_lit_0 [simp]: "is_finite (f64_lit 0)" "fval (f64_lit 0) = 0" "unit_price (f64_lit 0)"
  by (simp_all add: f64_lit_def unit_price_def round64_def)

lemma int_max_32: "\<bar>m\<bar> + \<bar>n\<bar> \<le> int_max \<Longrightarrow> \<bar>m\<bar> + \<bar>n\<bar> \<le> 2 ^ 32 \<and> \<bar>m\<bar> \<le> 2 ^ 32 \<and> \<bar>n\<bar> \<le> 2 ^ 32"
  by (auto simp: int_max_def)

lemma drift_increase:
  assumes ok: "pm_ok pm" and p: "unit_price p" and same: "0 < position_size pm * n"
    and range: "\<bar>position_size pm\<bar> + \<bar>n\<bar> \<le> int_max" and fill: "add_fill n p pm = Some pm'"
  shows "pm_ok pm' \<and> \<bar>book_cash pm' - (book_cash pm - of_int n * fval p)\<bar> \<le> drift_bound n pm"
proof -
  let ?m = "position_size pm" and ?a = "average_entry_price pm"
  let ?v = "(?a * f64_of_int \<bar>?m\<bar> + p * f64_of_int \<bar>n\<bar>) / f64_of_int (\<bar>?m\<bar> + \<bar>n\<bar>)"
  have pm': "pm' = pm\<lparr>average_entry_price := ?v, position_size := ?m + n\<rparr>"
    using add_fill_increase [OF range same] fill by simp
  have a: "unit_price ?a" using ok by (simp add: pm_ok_def)
  have pos: "0 < \<bar>?m\<bar>" "0 < \<bar>n\<bar>" using same by (auto simp: zero_less_mult_iff)
  note avg = weighted_average [OF a p pos conjunct1 [OF int_max_32 [OF range]]]
  have nz: "?m + n \<noteq> 0" using same by (auto simp: zero_less_mult_iff)
  have "pm_ok pm'"
    using ok avg(1) in_int_parts(3) [OF range] nz by (simp add: pm' pm_ok_def)
  moreover have "\<bar>book_cash pm' - (book_cash pm - of_int n * fval p)\<bar> =
      \<bar>of_int (\<bar>?m\<bar> + \<bar>n\<bar>) * fval ?v - (of_int \<bar>?m\<bar> * fval ?a + of_int \<bar>n\<bar> * fval p)\<bar>"
    using same by (auto simp: pm' book_cash_def zero_less_mult_iff abs_of_neg abs_of_pos algebra_simps)
  moreover have "of_int (\<bar>?m\<bar> + \<bar>n\<bar>) * pow2 (- 50) \<le> drift_bound n pm"
    unfolding drift_bound_def by (intro mult_right_mono) simp_all
  ultimately show ?thesis using avg(2) by linarith
qed

lemma drift_reduce:
  assumes ok: "pm_ok pm" and p: "unit_price p" and opposite: "position_size pm * n < 0"
    and range: "\<bar>position_size pm\<bar> + \<bar>n\<bar> \<le> int_max" and R: "\<bar>fval (realized_pnl pm)\<bar> \<le> pow2 1000"
    and fill: "add_fill n p pm = Some pm'"
  shows "pm_ok pm' \<and> \<bar>book_cash pm' - (book_cash pm - of_int n * fval p)\<bar> \<le> drift_bound n pm"
proof -
  let ?m = "position_size pm" and ?a = "average_entry_price pm" and ?R = "realized_pnl pm"
  define c where "c = min \<bar>n\<bar> \<bar>?m\<bar>"
  define s :: rat where "s = (if 0 < ?m then 1 else - 1)"
  define gain where "gain = (if 0 < ?m then p - ?a else ?a - p)"
  define v where "v = ?R + f64_of_int c * gain"
  define a' where "a' = (if \<bar>n\<bar> = \<bar>?m\<bar> then f64_lit 0 else if \<bar>?m\<bar> < \<bar>n\<bar> then p else ?a)"
  have pm': "pm' = \<lparr>position_size = ?m + n, realized_pnl = v, average_entry_price = a'\<rparr>"
    using add_fill_reduce [OF range opposite, of p] fill by (simp add: v_def c_def gain_def a'_def)
  have a: "unit_price ?a" "is_finite ?R" using ok by (simp_all add: pm_ok_def)
  have c: "0 < c" "c \<le> 2 ^ 32"
    using opposite int_max_32 [OF range] by (auto simp: c_def mult_less_0_iff)
  have v: "is_finite v" "\<bar>fval v - (fval ?R + of_int c * (s * (fval p - fval ?a)))\<bar> \<le>
      (of_int c + \<bar>fval ?R\<bar>) * pow2 (- 50)"
    using closing_pnl [OF a(1) p c a(2) R] closing_pnl [OF p a(1) c a(2) R]
    by (cases "0 < ?m"; simp add: v_def gain_def s_def)+
  have a': "unit_price a'" "?m + n = 0 \<longrightarrow> fval a' = 0"
    using a p opposite by (auto simp: a'_def mult_less_0_iff)
  have "pm_ok pm'" using v(1) a' in_int_parts(3) [OF range] by (simp add: pm' pm_ok_def)
  moreover have "fval ?R + of_int c * (s * (fval p - fval ?a)) - of_int (?m + n) * fval a' =
      book_cash pm - of_int n * fval p"
  proof (cases "n = - ?m")
    case True
    then show ?thesis using opposite
      by (simp add: book_cash_def a'_def s_def c_def algebra_simps)
  next
    case False
    then have "\<bar>n\<bar> \<noteq> \<bar>?m\<bar>" using opposite by (auto simp: mult_less_0_iff)
    then show ?thesis using opposite unfolding mult_less_0_iff book_cash_def a'_def s_def c_def min_def
      by (auto simp: algebra_simps)
  qed
  then have "book_cash pm' - (book_cash pm - of_int n * fval p) =
      fval v - (fval ?R + of_int c * (s * (fval p - fval ?a)))"
    by (simp add: pm' book_cash_def)
  moreover have "(of_int c + \<bar>fval ?R\<bar>) * pow2 (- 50) \<le> drift_bound n pm"
    unfolding drift_bound_def by (intro mult_right_mono) (simp_all add: c_def min_def)
  ultimately show ?thesis using v(2) by simp
qed

lemma drift_step:
  assumes ok: "pm_ok pm" and p: "unit_price p"
    and range: "\<bar>position_size pm\<bar> + \<bar>n\<bar> \<le> int_max" and R: "\<bar>fval (realized_pnl pm)\<bar> \<le> pow2 1000"
    and fill: "add_fill n p pm = Some pm'"
  shows "pm_ok pm' \<and> \<bar>book_cash pm' - (book_cash pm - of_int n * fval p)\<bar> \<le> drift_bound n pm"
proof -
  have nonneg: "0 \<le> drift_bound n pm" by (simp add: drift_bound_def)
  consider "n = 0" | "n \<noteq> 0" "position_size pm = 0" | "0 < position_size pm * n" | "position_size pm * n < 0"
    by (metis linorder_neqE_linordered_idom mult_eq_0_iff)
  then show ?thesis
  proof cases
    case 1
    then show ?thesis using fill ok nonneg by simp
  next
    case 2
    then show ?thesis using fill ok p nonneg in_int_parts(3) [OF range]
      by (auto simp: add_fill_open pm_ok_def book_cash_def)
  next
    case 3
    then show ?thesis using ok p range fill by (intro drift_increase)
  next
    case 4
    then show ?thesis using ok p range R fill by (intro drift_reduce)
  qed
qed

section \<open>Marking to market\<close>

lemma gain_sign:
  assumes "unit_price a" "unit_price p" "0 < c" "c \<le> 2 ^ 32"
  shows "is_finite (f64_of_int c * (a - p))" "is_finite (f64_of_int (- c) * (p - a))"
    "fval (f64_of_int (- c) * (p - a)) = fval (f64_of_int c * (a - p))"
proof -
  have ap: "is_finite a" "is_finite p" "\<bar>fval p - fval a\<bar> \<le> 1" "\<bar>fval a - fval p\<bar> \<le> 1"
    using assms(1,2) by (auto simp: unit_price_def)
  then have "\<bar>fval p - fval a\<bar> \<le> pow2 1023" "\<bar>fval a - fval p\<bar> \<le> pow2 1023" by (auto intro!: small_pow2)
  then have d: "is_finite (p - a)" "fval (p - a) = rnds (fval p - fval a)"
    "is_finite (a - p)" "fval (a - p) = rnds (fval a - fval p)"
    using f64_sub_finite ap by blast+
  have neg: "fval (p - a) = - fval (a - p)" unfolding d using rnds_minus [of "fval a - fval p"] by simp
  have d1: "\<bar>fval (a - p)\<bar> \<le> 1" unfolding d using ap(4) by (rule rnds_bound [OF representable_1])
  have c: "is_finite (f64_of_int c)" "fval (f64_of_int c) = of_int c"
    "is_finite (f64_of_int (- c))" "fval (f64_of_int (- c)) = - of_int c"
    using f64_of_int_finite [of c] f64_of_int_finite [of "- c"] assms(3,4) by simp_all
  have C: "1 \<le> (of_int c :: rat)" "(of_int c :: rat) \<le> 2 ^ 32"
    using assms(3,4) of_int_le_iff [of 1 c, where 'a = rat] of_int_le_iff [of c "2 ^ 32", where 'a = rat] by simp_all
  have "\<bar>of_int c * fval (a - p)\<bar> \<le> of_int c"
    using d1 C mult_left_mono [of "\<bar>fval (a - p)\<bar>" 1 "of_int c"] by (simp add: abs_mult)
  then have "\<bar>of_int c * fval (a - p)\<bar> \<le> pow2 1023" using C by (intro small_pow2) simp
  then show "is_finite (f64_of_int c * (a - p))" "is_finite (f64_of_int (- c) * (p - a))"
    "fval (f64_of_int (- c) * (p - a)) = fval (f64_of_int c * (a - p))"
    using f64_mul_finite [OF c(3) d(1)] f64_mul_finite [OF c(1) d(3)] by (simp_all add: c neg)
qed

lemma round64_zero_sign:
  "is_finite (round64 s x) = is_finite (round64 t x)" "fval (round64 s x) = fval (round64 t x)"
  by (simp_all add: round64_def)

lemma add_same_value:
  assumes "is_finite r" "is_finite x" "is_finite y" "fval x = fval y"
  shows "is_finite (r + x) = is_finite (r + y)" "fval (r + x) = fval (r + y)"
proof -
  obtain sr mr sx mx sy my where eq: "r = Fin sr mr" "x = Fin sx mx" "y = Fin sy my"
    using assms(1-3) by (auto simp: is_finite_iff)
  show "is_finite (r + x) = is_finite (r + y)" "fval (r + x) = fval (r + y)"
    using assms(4) round64_zero_sign(1) [of "sr \<and> sx" "fval r + fval x" "sr \<and> sy"]
      round64_zero_sign(2) [of "sr \<and> sx" "fval r + fval x" "sr \<and> sy"]
    unfolding eq plus_f64_def f64_add.simps by simp_all
qed

lemma equity_error:
  assumes "pm_ok pm" "unit_price mid" "\<bar>fval (realized_pnl pm)\<bar> \<le> pow2 1000"
  defines "equity \<equiv> realized_pnl pm + get_unrealized_pnl pm mid"
  shows "is_finite equity \<and>
    \<bar>fval equity - (book_cash pm + of_int (position_size pm) * fval mid)\<bar> \<le>
      (of_int \<bar>position_size pm\<bar> + \<bar>fval (realized_pnl pm)\<bar> + 1) * pow2 (- 50)"
proof -
  let ?m = "position_size pm" and ?a = "average_entry_price pm" and ?R = "realized_pnl pm"
  have ok: "unit_price ?a" "is_finite ?R" "\<bar>?m\<bar> \<le> 2 ^ 32"
    using assms(1) by (auto simp: pm_ok_def in_int_def int_min_def int_max_def)
  have target: "book_cash pm + of_int ?m * fval mid = fval ?R + of_int ?m * (fval mid - fval ?a)"
    by (simp add: book_cash_def algebra_simps)
  have weaker: "(of_int \<bar>?m\<bar> + \<bar>fval ?R\<bar>) * pow2 (- 50) \<le> (of_int \<bar>?m\<bar> + \<bar>fval ?R\<bar> + 1) * pow2 (- 50)"
    by (intro mult_right_mono) simp_all
  consider "?m = 0" | "0 < ?m" | "?m < 0" by linarith
  then show ?thesis
  proof cases
    case 1
    have z: "is_finite (get_unrealized_pnl pm mid)" "fval (get_unrealized_pnl pm mid) = 0"
    proof -
      have "\<bar>fval mid - fval ?a\<bar> \<le> 1" "is_finite mid" "is_finite ?a"
        using assms(2) ok(1) by (auto simp: unit_price_def)
      then have "is_finite (mid - ?a)" using f64_sub_finite [of mid ?a] by (simp add: small_pow2)
      moreover have "is_finite (f64_of_int 0)" "fval (f64_of_int 0) = 0" using f64_of_int_finite [of 0] by simp_all
      ultimately show "is_finite (get_unrealized_pnl pm mid)" "fval (get_unrealized_pnl pm mid) = 0"
        using f64_mul_finite [of "f64_of_int 0" "mid - ?a"] 1 by (simp_all add: get_unrealized_pnl_def)
    qed
    have "pow2 1000 \<le> pow2 1023" by (simp only: pow2_le_iff)
    with assms(3) have "\<bar>fval ?R\<bar> \<le> pow2 1023" by linarith
    then have "is_finite equity \<and> fval equity = rnds (fval ?R)"
      using f64_add_finite [OF ok(2) z(1)] z(2) unfolding equity_def by simp
    moreover have "\<bar>rnds (fval ?R) - fval ?R\<bar> \<le> (\<bar>fval ?R\<bar> + 1) * pow2 (- 53)" by (rule rnds_error)
    moreover have "(\<bar>fval ?R\<bar> + 1) * pow2 (- 53) \<le> (\<bar>fval ?R\<bar> + 1) * pow2 (- 50)"
      by (intro mult_left_mono) simp_all
    ultimately show ?thesis unfolding target using 1 by simp
  next
    case 2
    then have m: "?m \<le> 2 ^ 32" "of_int \<bar>?m\<bar> = (of_int ?m :: rat)" using ok(3) by simp_all
    show ?thesis
      using closing_pnl [OF ok(1) assms(2) 2 m(1) ok(2) assms(3)] order.trans [OF _ weaker]
      unfolding target equity_def get_unrealized_pnl_def m(2) by blast
  next
    case 3
    define c where "c = - ?m"
    have c: "0 < c" "c \<le> 2 ^ 32" "?m = - c" using 3 ok(3) by (simp_all add: c_def)
    note g = gain_sign [OF ok(1) assms(2) c(1,2)]
    note e = closing_pnl [OF assms(2) ok(1) c(1,2) ok(2) assms(3)]
        have same: "is_finite equity" "fval equity = fval (?R + f64_of_int c * (?a - mid))"
      using add_same_value [OF ok(2) g(2) g(1) g(3)] e(1) by (simp_all add: equity_def get_unrealized_pnl_def c(3))
    have val: "fval ?R + of_int ?m * (fval mid - fval ?a) = fval ?R + of_int c * (fval ?a - fval mid)"
      by (simp add: c(3) algebra_simps)
    have m: "of_int \<bar>?m\<bar> = (of_int c :: rat)" using c by simp
    show ?thesis unfolding target val same(2)
      using same(1) order.trans [OF e(2) weaker [unfolded m]] unfolding m by blast
  qed
qed

section \<open>Sequences of fills\<close>

definition add_fills :: "(int \<times> f64) list \<Rightarrow> position_manager \<Rightarrow> position_manager option" where
  "add_fills fills pm = fold (\<lambda>(n, p) r. r \<bind> add_fill n p) fills (Some pm)"

lemma add_fills_simps [simp]:
  "add_fills [] pm = Some pm"
  "add_fills ((n, p) # fills) pm = add_fill n p pm \<bind> add_fills fills"
proof -
  have none: "fold (\<lambda>(n, p) r. r \<bind> add_fill n p) fills None = None" for fills
    by (induction fills) auto
  show "add_fills [] pm = Some pm" by (simp add: add_fills_def)
  show "add_fills ((n, p) # fills) pm = add_fill n p pm \<bind> add_fills fills"
    by (cases "add_fill n p pm") (simp_all add: add_fills_def none)
qed

section \<open>Properties\<close>

text \<open>
  C31: as long as the absolute sizes of all fills add up to at most the largest \<open>int\<close>, no
  fill reaches a signed overflow and the final position is exactly the sum of the fills.
\<close>
theorem fills_never_overflow:
  assumes "\<bar>position_size pm\<bar> + (\<Sum>(n, p)\<leftarrow>fills. \<bar>n\<bar>) \<le> int_max"
  shows "\<exists>pm'. add_fills fills pm = Some pm' \<and> position_size pm' = position_size pm + (\<Sum>(n, p)\<leftarrow>fills. n)"
  using assms
proof (induction fills arbitrary: pm)
  case (Cons fill fills)
  obtain n p where fill: "fill = (n, p)" by (cases fill)
  have nonneg: "0 \<le> (\<Sum>(n, p)\<leftarrow>fills. \<bar>n\<bar>)" by (rule sum_list_nonneg) auto
  have "\<bar>position_size pm\<bar> + \<bar>n\<bar> \<le> int_max" using Cons.prems nonneg by (simp add: fill)
  then obtain pm1 where pm1: "add_fill n p pm = Some pm1" "position_size pm1 = position_size pm + n"
    using add_fill_defined add_fill_size by blast
  have "\<bar>position_size pm1\<bar> + (\<Sum>(n, p)\<leftarrow>fills. \<bar>n\<bar>) \<le> int_max"
    using Cons.prems abs_triangle_ineq [of "position_size pm" n] by (simp add: fill pm1)
  from Cons.IH [OF this] show ?case by (auto simp: fill pm1)
qed simp

theorem fills_never_overflow_witness:
  "\<exists>pm'. add_fills [(10, f64_lit 0), (10, f64_lit 0), (- 10, f64_lit 0)] pm_init = Some pm' \<and> position_size pm' = 10"
  using fills_never_overflow [of pm_init "[(10, f64_lit 0), (10, f64_lit 0), (- 10, f64_lit 0)]"]
  by (simp add: pm_init_def int_max_def)

text \<open>
  C18: with prices between zero and one, every fill preserves the invariant of the books (a finite
  realized profit, an average entry price between zero and one that is zero when flat) and moves the cash that
  the books imply, realized profit minus position times average entry price, by the cost of the fill up to a relative rounding error of \<open>2 ^ -50\<close>.
\<close>
theorem fill_keeps_cash:
  assumes "pm_ok pm" "unit_price p" "\<bar>position_size pm\<bar> + \<bar>n\<bar> \<le> int_max"
    and "\<bar>fval (realized_pnl pm)\<bar> \<le> pow2 1000" "add_fill n p pm = Some pm'"
  shows "pm_ok pm' \<and> \<bar>book_cash pm' - (book_cash pm - of_int n * fval p)\<bar> \<le>
    (of_int \<bar>position_size pm\<bar> + of_int \<bar>n\<bar> + \<bar>fval (realized_pnl pm)\<bar>) * pow2 (- 50)"
  using drift_step [OF assms] unfolding drift_bound_def .

lemma half_price: "unit_price (Fin False (1 / 2))"
  by (simp add: unit_price_def)

lemma opened_at_half: "pm_ok (pm_init\<lparr>position_size := 10, average_entry_price := Fin False (1 / 2)\<rparr>)"
  by (simp add: pm_ok_def pm_init_def half_price in_int_def int_min_def int_max_def)

theorem fill_keeps_cash_witness:
  "\<exists>pm'. add_fill (- 4) (Fin False (3 / 4)) (pm_init\<lparr>position_size := 10, average_entry_price := Fin False (1 / 2)\<rparr>) = Some pm' \<and>
     pm_ok pm' \<and> \<bar>book_cash pm' - (- 5 + 3)\<bar> \<le> 14 * pow2 (- 50)"
proof -
  let ?pm = "pm_init\<lparr>position_size := 10, average_entry_price := Fin False (1 / 2)\<rparr>"
  have range: "\<bar>position_size ?pm\<bar> + \<bar>- 4\<bar> \<le> int_max" by (simp add: int_max_def)
  obtain pm' where pm': "add_fill (- 4) (Fin False (3 / 4)) ?pm = Some pm'"
    using add_fill_defined [OF range] by blast
  have "unit_price (Fin False (3 / 4))" "\<bar>fval (realized_pnl ?pm)\<bar> \<le> pow2 1000"
    by (simp_all add: unit_price_def pm_init_def)
  from fill_keeps_cash [OF opened_at_half this(1) range this(2) pm'] pm'
  show ?thesis by (intro exI [of _ pm']) (simp add: book_cash_def pm_init_def)
qed

text \<open>
  C32: a fill against the position realizes profit on the smaller of the two sizes only, in the
  direction of the position that is closed; it leaves the entry price alone on a partial close, resets it when the position becomes
  flat, and sets it to the fill price when the fill reverses the position.
\<close>
theorem closing_fill:
  assumes "\<bar>position_size pm\<bar> + \<bar>n\<bar> \<le> int_max" "position_size pm * n < 0"
  shows "add_fill n p pm = Some
     \<lparr>position_size = position_size pm + n,
      realized_pnl = realized_pnl pm + f64_of_int (min \<bar>n\<bar> \<bar>position_size pm\<bar>) *
        (if 0 < position_size pm then p - average_entry_price pm else average_entry_price pm - p),
      average_entry_price =
        (if \<bar>n\<bar> = \<bar>position_size pm\<bar> then f64_lit 0
         else if \<bar>position_size pm\<bar> < \<bar>n\<bar> then p else average_entry_price pm)\<rparr>"
  by (rule add_fill_reduce [OF assms])

theorem closing_fill_witness:
  "add_fill (- 15) (Fin False (3 / 4)) (pm_init\<lparr>position_size := 10, average_entry_price := Fin False (1 / 2)\<rparr>) =
   Some \<lparr>position_size = - 5, realized_pnl = Fin False (5 / 2), average_entry_price = Fin False (3 / 4)\<rparr>"
proof -
  let ?pm = "pm_init\<lparr>position_size := 10, average_entry_price := Fin False (1 / 2)\<rparr>"
  have hyps: "\<bar>position_size ?pm\<bar> + \<bar>- 15\<bar> \<le> int_max" "position_size ?pm * - 15 < 0"
    by (simp_all add: int_max_def)
  have "f64_lit 0 + f64_of_int 10 * (Fin False (3 / 4) - Fin False (1 / 2)) = Fin False (5 / 2)"
    by (simp add: f64_eval)
  then show ?thesis using closing_fill [OF hyps, of "Fin False (3 / 4)"] by (simp add: pm_init_def)
qed

text \<open>
  C19: the mark-to-market figure that the engine reports, realized plus unrealized profit at a mid
  price between zero and one, is the cash plus the inventory at that price, up to the rounding of four operations.
\<close>
theorem equity_is_cash_plus_inventory:
  assumes "pm_ok pm" "unit_price mid" "\<bar>fval (realized_pnl pm)\<bar> \<le> pow2 1000"
  shows "is_finite (realized_pnl pm + get_unrealized_pnl pm mid) \<and>
    \<bar>fval (realized_pnl pm + get_unrealized_pnl pm mid) - (book_cash pm + of_int (position_size pm) * fval mid)\<bar> \<le>
      (of_int \<bar>position_size pm\<bar> + \<bar>fval (realized_pnl pm)\<bar> + 1) * pow2 (- 50)"
  by (rule equity_error [OF assms])

theorem equity_is_cash_plus_inventory_witness:
  "let pm = pm_init\<lparr>position_size := 10, average_entry_price := Fin False (1 / 2)\<rparr>
   in \<bar>fval (realized_pnl pm + get_unrealized_pnl pm (Fin False (3 / 4))) - (- 5 + 15 / 2)\<bar> \<le> 11 * pow2 (- 50)"
proof -
  let ?pm = "pm_init\<lparr>position_size := 10, average_entry_price := Fin False (1 / 2)\<rparr>"
  have "unit_price (Fin False (3 / 4))" "\<bar>fval (realized_pnl ?pm)\<bar> \<le> pow2 1000"
    by (simp_all add: unit_price_def pm_init_def)
  from equity_is_cash_plus_inventory [OF opened_at_half this] show ?thesis
    by (simp add: Let_def book_cash_def pm_init_def)
qed

end
