(* ===== verification/AlphaSignals.thy ===== *)
theory AlphaSignals
  imports OrderBook Float64
begin

text \<open>
  The two trading signals, \<open>include/alpha_base.hpp\<close>, \<open>include/momentum_alpha.hpp\<close> and
  \<open>include/ofi_alpha.hpp\<close>: their state, their update on a book, and exact descriptions of their scores over the
  rationals with one rounding per floating-point operation. The locale \<open>alpha_signal\<close> is the contract
  of the abstract class; it is interpreted on both signals.
\<close>

definition u8_f64 :: "u8 \<Rightarrow> f64" where
  "u8_f64 p = f64_of_int (uint p)"

definition u32_f64 :: "u32 \<Rightarrow> f64" where
  "u32_f64 n = f64_of_int (uint n)"

definition microprice_cents :: "u8 \<Rightarrow> u8 \<Rightarrow> u32 \<Rightarrow> u32 \<Rightarrow> u32 \<Rightarrow> f64" where
  "microprice_cents best_bid best_ask best_bid_size best_ask_size denom =
     (u8_f64 best_bid * u32_f64 best_ask_size + u8_f64 best_ask * u32_f64 best_bid_size) / u32_f64 denom"

section \<open>Momentum\<close>

record momentum_alpha =
  has_prev :: bool
  prev_microprice_cents :: f64

definition momentum_init :: momentum_alpha where
  "momentum_init = \<lparr>has_prev = False, prev_microprice_cents = f64_lit 0\<rparr>"

definition momentum_update ::
  "limit_order_book \<Rightarrow> market_tick \<Rightarrow> momentum_alpha \<Rightarrow> f64 \<times> momentum_alpha" where
  "momentum_update book tick m =
     (let best_bid = get_best_bid book; best_ask = get_best_ask book
      in if best_bid = kNoBid \<or> best_ask = kNoAsk then (f64_lit 0, m)
         else
           let best_bid_size = get_bid_size book best_bid;
               best_ask_size = get_ask_size book best_ask;
               denom = best_bid_size + best_ask_size
           in if denom = 0 then (f64_lit 0, m)
              else
                let microprice = microprice_cents best_bid best_ask best_bid_size best_ask_size denom
                in if \<not> has_prev m
                   then (f64_lit 0, m\<lparr>prev_microprice_cents := microprice, has_prev := True\<rparr>)
                   else
                     let delta = microprice - prev_microprice_cents m;
                         m' = m\<lparr>prev_microprice_cents := microprice\<rparr>
                     in if f64_lit 1 < delta then (f64_lit 1, m')
                        else if delta < - f64_lit 1 then (- f64_lit 1, m')
                        else (f64_lit 0, m'))"

section \<open>Order-flow imbalance\<close>

record ofi_alpha =
  initialized :: bool
  prev_best_bid :: u8
  prev_best_ask :: u8
  prev_best_bid_size :: u32
  prev_best_ask_size :: u32

definition ofi_init :: ofi_alpha where
  "ofi_init = \<lparr>initialized = False, prev_best_bid = kNoBid, prev_best_ask = kNoAsk,
     prev_best_bid_size = 0, prev_best_ask_size = 0\<rparr>"

definition ofi_bid_contribution :: "u8 \<Rightarrow> u32 \<Rightarrow> ofi_alpha \<Rightarrow> f64 \<Rightarrow> f64" where
  "ofi_bid_contribution best_bid best_bid_size a ofi =
     (if prev_best_bid a < best_bid then ofi + u32_f64 best_bid_size
      else if best_bid = prev_best_bid a
      then ofi + f64_of_int (uint best_bid_size - uint (prev_best_bid_size a))
      else ofi - u32_f64 (prev_best_bid_size a))"

definition ofi_ask_contribution :: "u8 \<Rightarrow> u32 \<Rightarrow> ofi_alpha \<Rightarrow> f64 \<Rightarrow> f64" where
  "ofi_ask_contribution best_ask best_ask_size a ofi =
     (if best_ask < prev_best_ask a then ofi - u32_f64 best_ask_size
      else if best_ask = prev_best_ask a
      then ofi - f64_of_int (uint best_ask_size - uint (prev_best_ask_size a))
      else ofi + u32_f64 (prev_best_ask_size a))"

definition ofi_book_pressure :: "u8 \<Rightarrow> u8 \<Rightarrow> u32 \<Rightarrow> u32 \<Rightarrow> u32 \<Rightarrow> f64" where
  "ofi_book_pressure best_bid best_ask best_bid_size best_ask_size denom_sizes =
     (let microprice =
            (if denom_sizes = 0 then (u8_f64 best_bid + u8_f64 best_ask) * f64_lit (1 / 2)
             else microprice_cents best_bid best_ask best_bid_size best_ask_size denom_sizes);
          mid_cents = (u8_f64 best_bid + u8_f64 best_ask) * f64_lit (1 / 2);
          spread_cents = f64_max (f64_lit 1) (f64_of_int (uint best_ask - uint best_bid))
      in f64_clamp ((microprice - mid_cents) / spread_cents) (- f64_lit 1) (f64_lit 1))"

definition ofi_confidence :: "f64 \<Rightarrow> f64 \<Rightarrow> u32 \<Rightarrow> f64" where
  "ofi_confidence ofi book_pressure denom_sizes =
     (let norm_denom = f64_max (f64_lit 1) (u32_f64 denom_sizes);
          ofi_norm = f64_clamp (ofi / norm_denom) (- f64_lit 1) (f64_lit 1)
      in f64_clamp (f64_lit (65 / 100) * ofi_norm + f64_lit (35 / 100) * book_pressure)
           (- f64_lit 1) (f64_lit 1))"

definition ofi_update ::
  "limit_order_book \<Rightarrow> market_tick \<Rightarrow> ofi_alpha \<Rightarrow> f64 \<times> ofi_alpha" where
  "ofi_update book tick a =
     (let best_bid = get_best_bid book; best_ask = get_best_ask book
      in if best_bid = kNoBid \<or> best_ask = kNoAsk then (f64_lit 0, a\<lparr>initialized := False\<rparr>)
         else
           let best_bid_size = get_bid_size book best_bid;
               best_ask_size = get_ask_size book best_ask;
               a' = a\<lparr>prev_best_bid := best_bid, prev_best_ask := best_ask,
                      prev_best_bid_size := best_bid_size, prev_best_ask_size := best_ask_size\<rparr>
           in if \<not> initialized a then (f64_lit 0, a'\<lparr>initialized := True\<rparr>)
              else
                let ofi = ofi_ask_contribution best_ask best_ask_size a
                            (ofi_bid_contribution best_bid best_bid_size a (f64_lit 0));
                    denom_sizes = best_bid_size + best_ask_size;
                    book_pressure =
                      ofi_book_pressure best_bid best_ask best_bid_size best_ask_size denom_sizes
                in (ofi_confidence ofi book_pressure denom_sizes, a'))"

section \<open>Exact quantities\<close>

lemma u8_f64_val [simp]: "is_finite (u8_f64 p)" "fval (u8_f64 p) = of_int (uint p)"
  using f64_of_int_finite [of "uint p"] uint_u8_bounds [of p] by (simp_all add: u8_f64_def)

lemma u32_f64_val [simp]: "is_finite (u32_f64 n)" "fval (u32_f64 n) = of_int (uint n)"
  using f64_of_int_finite [of "uint n"] uint_u32_bounds [of n] by (simp_all add: u32_f64_def)

text \<open>Integers below \<open>2 ^ 53\<close> are added, subtracted and multiplied without rounding.\<close>

lemma exact_range: "\<bar>n\<bar> < 2 ^ 53 \<Longrightarrow> \<bar>of_int n :: rat\<bar> \<le> pow2 1023"
proof -
  assume "\<bar>n\<bar> < (2 :: int) ^ 53"
  then have "\<bar>of_int n :: rat\<bar> \<le> of_int (2 ^ 53)" by (metis of_int_abs of_int_le_iff order_less_imp_le)
  also have "\<dots> = pow2 53" by (simp add: pow2_numeral)
  also have "\<dots> \<le> pow2 1023" by (simp only: pow2_le_iff)
  finally show ?thesis .
qed

lemma exact_add:
  assumes "is_finite x" "is_finite y" "fval x = of_int m" "fval y = of_int n" "\<bar>m + n\<bar> < 2 ^ 53"
  shows "is_finite (x + y) \<and> fval (x + y) = of_int (m + n)"
  using f64_add_finite [OF assms(1,2)] exact_range [OF assms(5)] representable_of_int [OF assms(5)]
  by (simp add: assms(3,4))

lemma exact_sub:
  assumes "is_finite x" "is_finite y" "fval x = of_int m" "fval y = of_int n" "\<bar>m - n\<bar> < 2 ^ 53"
  shows "is_finite (x - y) \<and> fval (x - y) = of_int (m - n)"
  using f64_sub_finite [OF assms(1,2)] exact_range [OF assms(5)] representable_of_int [OF assms(5)]
  by (simp add: assms(3,4))

lemma exact_mult:
  assumes "is_finite x" "is_finite y" "fval x = of_int m" "fval y = of_int n" "\<bar>m * n\<bar> < 2 ^ 53"
  shows "is_finite (x * y) \<and> fval (x * y) = of_int (m * n)"
  using f64_mul_finite [OF assms(1,2)] exact_range [OF assms(5)] representable_of_int [OF assms(5)]
  by (simp add: assms(3,4))

definition weighted_cents :: "u8 \<Rightarrow> u8 \<Rightarrow> u32 \<Rightarrow> u32 \<Rightarrow> int" where
  "weighted_cents bid ask bsz asz = uint bid * uint asz + uint ask * uint bsz"

lemma weighted_cents_bounds:
  "0 \<le> uint p * uint (n :: u32)" "uint (p :: u8) * uint (n :: u32) < 2 ^ 40"
  "0 \<le> weighted_cents bid ask bsz asz" "weighted_cents bid ask bsz asz < 2 ^ 41"
proof -
  have prod: "0 \<le> uint p * uint n \<and> uint p * uint n < 2 ^ 40" for p :: u8 and n :: u32
    using mult_mono [of "uint p" 255 "uint n" 4294967295] uint_u8_bounds [of p] uint_u32_bounds [of n]
    by simp
  show "0 \<le> uint p * uint n" "uint p * uint n < 2 ^ 40" using prod by blast+
  show "0 \<le> weighted_cents bid ask bsz asz" "weighted_cents bid ask bsz asz < 2 ^ 41"
    using prod [of bid asz] prod [of ask bsz] by (simp_all add: weighted_cents_def)
qed

lemma uint_pos: "n \<noteq> 0 \<Longrightarrow> 1 \<le> uint (n :: u32)"
  using uint_u32_bounds(1) [of n] by (metis int_one_le_iff_zero_less order_le_less uint_0_iff)

lemma microprice_numerator:
  fixes bid ask :: u8 and bsz asz :: u32
  defines "num \<equiv> u8_f64 bid * u32_f64 asz + u8_f64 ask * u32_f64 bsz"
  shows "is_finite num \<and> fval num = of_int (weighted_cents bid ask bsz asz)"
proof -
  note b = weighted_cents_bounds
  have x: "is_finite (u8_f64 bid * u32_f64 asz) \<and> fval (u8_f64 bid * u32_f64 asz) = of_int (uint bid * uint asz)"
    using b(1,2) [of bid asz] by (intro exact_mult) simp_all
  have y: "is_finite (u8_f64 ask * u32_f64 bsz) \<and> fval (u8_f64 ask * u32_f64 bsz) = of_int (uint ask * uint bsz)"
    using b(1,2) [of ask bsz] by (intro exact_mult) simp_all
  show ?thesis
    unfolding weighted_cents_def num_def
    using x y b(3,4) [of bid ask bsz asz] by (intro exact_add) (simp_all add: weighted_cents_def)
qed

lemma quotient_val:
  fixes n d :: int
  assumes "is_finite x" "is_finite y" "fval x = of_int n" "fval y = of_int d"
    and "0 \<le> n" "n < 2 ^ 41" "1 \<le> d"
  shows "is_finite (x / y)" "fval (x / y) = rnds (of_int n / of_int d)"
    "0 \<le> fval (x / y)" "fval (x / y) \<le> 2 ^ 41"
proof -
  define w where "w = (of_int n / of_int d :: rat)"
  have d': "1 \<le> (of_int d :: rat)"
    using of_int_le_iff [of 1 d, where 'a = rat] assms(7) by (simp only: of_int_1)
  have n': "0 \<le> (of_int n :: rat)" "(of_int n :: rat) \<le> 2 ^ 41"
    using assms(5,6) of_int_le_iff [of n "2 ^ 41", where 'a = rat] by simp_all
  have w0: "0 \<le> w" unfolding w_def using n'(1) d' by (intro divide_nonneg_nonneg) simp_all
  have "w \<le> of_int n"
    unfolding w_def using n'(1) d' by (simp add: divide_le_eq mult_le_cancel_left1)
  then have w1: "w \<le> 2 ^ 41" using n'(2) by linarith
  have r: "representable (2 ^ 41)" using representable_of_int [of "2 ^ 41"] by simp
  have "\<bar>w\<bar> \<le> of_int (2 ^ 41)" using w0 w1 by simp
  also have "\<dots> \<le> pow2 1023" using exact_range [of "2 ^ 41"] by simp
  finally have big: "\<bar>w\<bar> \<le> pow2 1023" .
  have nz: "fval y \<noteq> 0" using d' by (simp only: assms(4))
  have "is_finite (x / y) \<and> fval (x / y) = rnds (fval x / fval y)"
    using big assms(1-4) by (intro f64_div_finite nz) (simp_all add: w_def)
  then show fin: "is_finite (x / y)" and val: "fval (x / y) = rnds (of_int n / of_int d)"
    by (simp_all add: assms(3,4))
  show "0 \<le> fval (x / y)"
    unfolding val using w0 unfolding w_def by (intro rnds_sgn)
  show "fval (x / y) \<le> 2 ^ 41"
    unfolding val using r w1 unfolding w_def by (rule rnds_upper)
qed

lemma microprice_val:
  assumes "denom \<noteq> 0"
  shows "is_finite (microprice_cents bid ask bsz asz denom)"
    "fval (microprice_cents bid ask bsz asz denom)
       = rnds (of_int (weighted_cents bid ask bsz asz) / of_int (uint denom))"
    "0 \<le> fval (microprice_cents bid ask bsz asz denom)"
    "fval (microprice_cents bid ask bsz asz denom) \<le> 2 ^ 41"
  unfolding microprice_cents_def
  using quotient_val [OF conjunct1 [OF microprice_numerator [of bid asz ask bsz]] u32_f64_val(1) [of denom]
      conjunct2 [OF microprice_numerator] u32_f64_val(2) weighted_cents_bounds(3,4) uint_pos [OF assms]]
  by blast+

section \<open>The interface of a signal\<close>

definition unit_score :: "f64 \<Rightarrow> bool" where
  "unit_score x \<longleftrightarrow> is_finite x \<and> - 1 \<le> fval x \<and> fval x \<le> 1"

definition one_sided :: "limit_order_book \<Rightarrow> bool" where
  "one_sided book \<longleftrightarrow> get_best_bid book = kNoBid \<or> get_best_ask book = kNoAsk"

lemma fval_one [simp]: "is_finite (f64_lit 1)" "fval (f64_lit 1) = 1"
proof -
  have "representable 1" using representable_of_int [of 1] by simp
  moreover have "(1 :: rat) \<le> pow2 1023" using pow2_le_iff [of 0 1023] by (simp only: pow2_0)
  ultimately show "is_finite (f64_lit 1)" "fval (f64_lit 1) = 1"
    unfolding f64_lit_def by simp_all
qed

lemma fval_zero [simp]: "is_finite (f64_lit 0)" "fval (f64_lit 0) = 0"
  by (simp_all add: f64_lit_def round64_def)

lemma unit_score_lits [simp]: "unit_score (f64_lit 0)" "unit_score (f64_lit 1)" "unit_score (- f64_lit 1)"
  by (simp_all add: unit_score_def)

lemma unit_score_clamp:
  "is_finite x \<Longrightarrow> unit_score (f64_clamp x (- f64_lit 1) (f64_lit 1))"
  using f64_clamp_finite [of x "- f64_lit 1" "f64_lit 1"] by (simp add: unit_score_def)

text \<open>The contract that \<open>IAlphaSignal\<close> states in a comment: a score in \<open>[-1, 1]\<close>, after every tick.\<close>

fun run_signal :: "(limit_order_book \<Rightarrow> market_tick \<Rightarrow> 's \<Rightarrow> f64 \<times> 's) \<Rightarrow>
    (limit_order_book \<times> market_tick) list \<Rightarrow> 's \<Rightarrow> f64 list \<times> 's" where
  "run_signal update [] s = ([], s)"
| "run_signal update ((book, tick) # bts) s =
     (let (score, s') = update book tick s; (scores, s'') = run_signal update bts s'
      in (score # scores, s''))"

locale alpha_signal =
  fixes update :: "limit_order_book \<Rightarrow> market_tick \<Rightarrow> 's \<Rightarrow> f64 \<times> 's"
    and ok :: "'s \<Rightarrow> bool"
    and start :: 's
  assumes ok_start: "ok start"
    and ok_update: "ok s \<Longrightarrow> ok (snd (update book tick s))"
    and score_unit: "ok s \<Longrightarrow> unit_score (fst (update book tick s))"
    and one_sided_zero: "one_sided book \<Longrightarrow> fst (update book tick s) = f64_lit 0"
begin

lemma run_scores: "ok s \<Longrightarrow> ok (snd (run_signal update bts s)) \<and>
    (\<forall>x \<in> set (fst (run_signal update bts s)). unit_score x)"
proof (induction bts arbitrary: s)
  case (Cons bt bts)
  obtain book tick where bt: "bt = (book, tick)" by (cases bt)
  obtain x s' where u: "update book tick s = (x, s')" by (cases "update book tick s")
  have "ok s'" "unit_score x"
    using ok_update [OF Cons.prems, of book tick] score_unit [OF Cons.prems, of book tick] u by simp_all
  then show ?case using Cons.IH [of s'] by (simp add: bt u case_prod_beta)
qed simp

lemma all_scores_unit: "x \<in> set (fst (run_signal update bts start)) \<Longrightarrow> unit_score x"
  using run_scores [OF ok_start] by blast

end

section \<open>Momentum scores\<close>

definition momentum_ok :: "momentum_alpha \<Rightarrow> bool" where
  "momentum_ok m \<longleftrightarrow> is_finite (prev_microprice_cents m) \<and>
     0 \<le> fval (prev_microprice_cents m) \<and> fval (prev_microprice_cents m) \<le> 2 ^ 41"

lemma momentum_update_score:
  "fst (momentum_update book tick m) \<in> {f64_lit 0, f64_lit 1, - f64_lit 1}"
  by (simp add: momentum_update_def Let_def)

lemma momentum_price_bound:
  "d \<noteq> 0 \<Longrightarrow> fval (microprice_cents b a bs as d) \<le> 2199023255552"
  using microprice_val(4) [of d b a bs as] by simp

lemma momentum_ok_update: "momentum_ok m \<Longrightarrow> momentum_ok (snd (momentum_update book tick m))"
  by (simp add: momentum_update_def Let_def momentum_ok_def microprice_val(1,3) momentum_price_bound)

lemma momentum_ok_init: "momentum_ok momentum_init"
  by (simp add: momentum_ok_def momentum_init_def)

lemma momentum_one_sided: "one_sided book \<Longrightarrow> momentum_update book tick m = (f64_lit 0, m)"
  by (auto simp: momentum_update_def one_sided_def Let_def)

interpretation momentum: alpha_signal momentum_update momentum_ok momentum_init
proof unfold_locales
  show "momentum_ok momentum_init" by (rule momentum_ok_init)
  show "momentum_ok (snd (momentum_update book tick s))" if "momentum_ok s" for book tick s
    using that by (rule momentum_ok_update)
  show "unit_score (fst (momentum_update book tick s))" for book tick s
    using momentum_update_score [of book tick s] by auto
  show "fst (momentum_update book tick s) = f64_lit 0" if "one_sided book" for book tick s
    using that by (simp add: momentum_one_sided)
qed

section \<open>Order-flow imbalance scores\<close>

definition ofi_flow :: "u8 \<Rightarrow> u32 \<Rightarrow> u8 \<Rightarrow> u32 \<Rightarrow> ofi_alpha \<Rightarrow> int" where
  "ofi_flow bid bsz ask asz a =
     (if prev_best_bid a < bid then uint bsz
      else if bid = prev_best_bid a then uint bsz - uint (prev_best_bid_size a)
      else - uint (prev_best_bid_size a)) -
     (if ask < prev_best_ask a then uint asz
      else if ask = prev_best_ask a then uint asz - uint (prev_best_ask_size a)
      else - uint (prev_best_ask_size a))"

lemma size_abs: "\<bar>uint (x :: u32)\<bar> < 4294967296"
  using uint_u32_bounds [of x] by simp

lemma size_diff_abs: "\<bar>uint (x :: u32) - uint (y :: u32)\<bar> < 4294967296"
  using uint_u32_bounds [of x] uint_u32_bounds [of y] by linarith

lemma diff_f64: "is_finite (f64_of_int (uint (x :: u32) - uint (y :: u32)))"
  "fval (f64_of_int (uint (x :: u32) - uint (y :: u32))) = of_int (uint x - uint y)"
  using f64_of_int_finite [OF order.strict_trans [OF size_diff_abs, of "2 ^ 53" x y]] by simp_all

lemma ofi_bid_exact:
  "is_finite (ofi_bid_contribution bid bsz a (f64_lit 0)) \<and>
   fval (ofi_bid_contribution bid bsz a (f64_lit 0)) =
     of_int (if prev_best_bid a < bid then uint bsz
      else if bid = prev_best_bid a then uint bsz - uint (prev_best_bid_size a)
      else - uint (prev_best_bid_size a))"
proof -
  have z: "fval (f64_lit 0) = of_int 0" by simp
  note b = size_abs [of bsz] size_abs [of "prev_best_bid_size a"] size_diff_abs [of bsz "prev_best_bid_size a"]
  consider "prev_best_bid a < bid" | "bid = prev_best_bid a" | "bid < prev_best_bid a" by (rule linorder_cases)
  then show ?thesis
  proof cases
    case 1
    then show ?thesis using exact_add [OF fval_zero(1) u32_f64_val(1) z u32_f64_val(2), of bsz] b
      by (simp only: ofi_bid_contribution_def if_True) simp
  next
    case 2
    then show ?thesis using exact_add [OF fval_zero(1) diff_f64(1) z diff_f64(2), of bsz "prev_best_bid_size a"] b
      by (simp add: ofi_bid_contribution_def)
  next
    case 3
    then have "\<not> prev_best_bid a < bid" "bid \<noteq> prev_best_bid a" by auto
    then show ?thesis using exact_sub [OF fval_zero(1) u32_f64_val(1) z u32_f64_val(2), of "prev_best_bid_size a"] b
      by (simp only: ofi_bid_contribution_def if_False) simp
  qed
qed

lemma ofi_ask_exact:
  assumes "is_finite x" "fval x = of_int n" "\<bar>n\<bar> < 8589934592"
  shows "is_finite (ofi_ask_contribution ask asz a x) \<and>
   fval (ofi_ask_contribution ask asz a x) =
     of_int (n - (if ask < prev_best_ask a then uint asz
      else if ask = prev_best_ask a then uint asz - uint (prev_best_ask_size a)
      else - uint (prev_best_ask_size a)))"
proof -
  have b: "\<bar>n - uint asz\<bar> < 9007199254740992" "\<bar>n + uint (prev_best_ask_size a)\<bar> < 9007199254740992"
    "\<bar>n - (uint asz - uint (prev_best_ask_size a))\<bar> < 9007199254740992"
    using size_abs [of asz] size_abs [of "prev_best_ask_size a"] size_diff_abs [of asz "prev_best_ask_size a"]
      assms(3) by linarith+
  consider "ask < prev_best_ask a" | "ask = prev_best_ask a" | "prev_best_ask a < ask" by (rule linorder_cases)
  then show ?thesis
  proof cases
    case 1
    then show ?thesis using exact_sub [OF assms(1) u32_f64_val(1) assms(2) u32_f64_val(2), of asz] b
      by (simp only: ofi_ask_contribution_def if_True) simp
  next
    case 2
    then show ?thesis using exact_sub [OF assms(1) diff_f64(1) assms(2) diff_f64(2), of asz "prev_best_ask_size a"] b
      by (simp add: ofi_ask_contribution_def)
  next
    case 3
    then have "\<not> ask < prev_best_ask a" "ask \<noteq> prev_best_ask a" by auto
    then show ?thesis using exact_add [OF assms(1) u32_f64_val(1) assms(2) u32_f64_val(2), of "prev_best_ask_size a"] b
      by (simp only: ofi_ask_contribution_def if_False) simp
  qed
qed

lemma ofi_flow_exact:
  fixes bid ask :: u8 and bsz asz :: u32 and a :: ofi_alpha
  defines "ofi \<equiv> ofi_ask_contribution ask asz a (ofi_bid_contribution bid bsz a (f64_lit 0))"
  shows "is_finite ofi" "fval ofi = of_int (ofi_flow bid bsz ask asz a)"
    "\<bar>ofi_flow bid bsz ask asz a\<bar> < 17179869184"
proof -
  let ?n = "if prev_best_bid a < bid then uint bsz
      else if bid = prev_best_bid a then uint bsz - uint (prev_best_bid_size a)
      else - uint (prev_best_bid_size a)"
  have n: "\<bar>?n\<bar> < 8589934592"
    using size_abs [of bsz] size_abs [of "prev_best_bid_size a"] size_diff_abs [of bsz "prev_best_bid_size a"] by simp
  show "is_finite ofi" "fval ofi = of_int (ofi_flow bid bsz ask asz a)"
    unfolding ofi_def ofi_flow_def
    using ofi_ask_exact [OF conjunct1 [OF ofi_bid_exact] conjunct2 [OF ofi_bid_exact] n] by blast+
  let ?m = "if ask < prev_best_ask a then uint asz
      else if ask = prev_best_ask a then uint asz - uint (prev_best_ask_size a)
      else - uint (prev_best_ask_size a)"
  have m: "\<bar>?m\<bar> < 8589934592"
    using size_abs [of asz] size_abs [of "prev_best_ask_size a"] size_diff_abs [of asz "prev_best_ask_size a"] by simp
  have "\<bar>x - y\<bar> < 17179869184" if "\<bar>x\<bar> < 8589934592" "\<bar>y\<bar> < 8589934592" for x y :: int
    using that by linarith
  from this [OF n m] show "\<bar>ofi_flow bid bsz ask asz a\<bar> < 17179869184"
    by (simp only: ofi_flow_def)
qed

lemma half_literal: "is_finite (f64_lit (1 / 2))" "fval (f64_lit (1 / 2)) = 1 / 2"
proof -
  have "representable (pow2 (- 1))" by (rule representable_pow2) simp
  then have r: "representable (1 / 2)" by (simp add: pow2_def power_int_def)
  have "(1 :: rat) \<le> pow2 1023" using pow2_le_iff [of 0 1023] by (simp only: pow2_0)
  then have "\<bar>1 / 2 :: rat\<bar> \<le> pow2 1023" by linarith
  with r show "is_finite (f64_lit (1 / 2))" "fval (f64_lit (1 / 2)) = 1 / 2"
    by (simp_all add: f64_lit_def)
qed

lemma mid_val:
  fixes bid ask :: u8
  defines "mid \<equiv> (u8_f64 bid + u8_f64 ask) * f64_lit (1 / 2)"
  shows "is_finite mid" "fval mid = of_int (uint bid + uint ask) / 2"
proof -
  let ?s = "uint bid + uint ask"
  have s: "0 \<le> ?s" "?s < 512" using uint_u8_bounds [of bid] uint_u8_bounds [of ask] by simp_all
  have sum: "is_finite (u8_f64 bid + u8_f64 ask) \<and> fval (u8_f64 bid + u8_f64 ask) = of_int ?s"
    using s by (intro exact_add) simp_all
  have "representable (of_int ?s * pow2 (- 1))" using s by (intro representable_dyadic) simp_all
  then have r: "representable (of_int ?s * (1 / 2))" by (simp only: pow2_def power_int_def) simp
  have "(0 :: rat) \<le> of_int ?s" "of_int ?s \<le> (512 :: rat)"
    using s of_int_le_iff [of ?s 512, where 'a = rat] of_int_le_iff [of 0 ?s, where 'a = rat] by (simp_all only: of_int_0 of_int_numeral)
  moreover have "(512 :: rat) \<le> pow2 1023" using exact_range [of 512] by simp
  ultimately have big: "\<bar>of_int ?s * (1 / 2) :: rat\<bar> \<le> pow2 1023" by (simp only: abs_mult) simp
  have "is_finite mid \<and> fval mid = rnds (of_int ?s * (1 / 2))"
    using f64_mul_finite [OF conjunct1 [OF sum] half_literal(1)] big sum unfolding mid_def half_literal by metis
  with r show "is_finite mid" "fval mid = of_int ?s / 2" by simp_all
qed

text \<open>A quotient whose divisor is at least one stays finite.\<close>

lemma quotient_finite:
  assumes "is_finite x" "is_finite y" "\<bar>fval x\<bar> \<le> 2 ^ 50" "1 \<le> fval y"
  shows "is_finite (x / y) \<and> fval (x / y) = rnds (fval x / fval y)"
proof -
  have "\<bar>fval x / fval y\<bar> = \<bar>fval x\<bar> / fval y" using assms(4) by simp
  also have "\<dots> \<le> \<bar>fval x\<bar>" using assms(4) by (simp add: divide_le_eq mult_le_cancel_left1)
  also have "\<dots> \<le> 2 ^ 50" by (rule assms(3))
  also have "\<dots> = pow2 50" by (simp only: pow2_numeral)
  also have "\<dots> \<le> pow2 1023" by (simp only: pow2_le_iff)
  finally show ?thesis using assms by (intro f64_div_finite) auto
qed

lemma ofi_microprice_val:
  fixes bid ask :: u8 and bsz asz denom :: u32
  defines "micro \<equiv> if denom = 0 then (u8_f64 bid + u8_f64 ask) * f64_lit (1 / 2)
             else microprice_cents bid ask bsz asz denom"
  shows "is_finite micro" "0 \<le> fval micro" "fval micro \<le> 2 ^ 41"
proof -
  have "0 \<le> uint bid + uint ask" "uint bid + uint ask < 512"
    using uint_u8_bounds [of bid] uint_u8_bounds [of ask] by simp_all
  then have s: "(0 :: rat) \<le> of_int (uint bid + uint ask)" "of_int (uint bid + uint ask) \<le> (512 :: rat)"
    using of_int_le_iff [of "uint bid + uint ask" 512, where 'a = rat] of_int_le_iff [of 0 "uint bid + uint ask", where 'a = rat]
    by (simp_all only: of_int_0 of_int_numeral)
  show "is_finite micro" unfolding micro_def using mid_val(1) microprice_val(1) by simp
  show "0 \<le> fval micro"
    unfolding micro_def using s microprice_val(3) [of denom] mid_val(2) [of bid ask] by (cases "denom = 0") simp_all
  show "fval micro \<le> 2 ^ 41"
  proof (cases "denom = 0")
    case True
    then have "fval micro = of_int (uint bid + uint ask) / 2" using mid_val(2) [of bid ask] by (simp only: micro_def if_True simp_thms)
    then show ?thesis using s by simp
  qed (simp add: micro_def momentum_price_bound)
qed

lemma abs_big: "\<bar>x\<bar> \<le> 4398046511104 \<Longrightarrow> \<bar>x :: rat\<bar> \<le> pow2 1023"
proof -
  have "pow2 42 \<le> pow2 1023" by (simp only: pow2_le_iff)
  moreover have "pow2 42 = 4398046511104" by (simp add: pow2_numeral)
  ultimately show "\<bar>x\<bar> \<le> 4398046511104 \<Longrightarrow> \<bar>x\<bar> \<le> pow2 1023" by linarith
qed

text \<open>A literal weight between zero and one times a score.\<close>

lemma unit_literal:
  assumes "0 \<le> q" "q \<le> 1"
  shows "is_finite (f64_lit q)" "fval (f64_lit q) = rnds q" "0 \<le> rnds q" "rnds q \<le> 1"
proof -
  have r: "representable 1" using representable_of_int [of 1] by simp
  have "\<bar>q\<bar> \<le> 4398046511104" using assms by simp
  then have "\<bar>q\<bar> \<le> pow2 1023" by (rule abs_big)
  then show "is_finite (f64_lit q)" "fval (f64_lit q) = rnds q" by (simp_all add: f64_lit_def)
  show "0 \<le> rnds q" "rnds q \<le> 1" using assms r by (auto intro: rnds_sgn rnds_upper)
qed

lemma weighted_score:
  assumes "unit_score x" "0 \<le> q" "q \<le> 1"
  shows "is_finite (f64_lit q * x)" "fval (f64_lit q * x) = rnds (rnds q * fval x)"
    "\<bar>fval (f64_lit q * x)\<bar> \<le> rnds q"
proof -
  note c = unit_literal [OF assms(2,3)]
  have x: "\<bar>fval x\<bar> \<le> 1" using assms(1) by (auto simp: unit_score_def)
  have "\<bar>rnds q * fval x\<bar> = rnds q * \<bar>fval x\<bar>" using c(3) by (simp add: abs_mult)
  also have "\<dots> \<le> rnds q" using x c(3) by (simp add: mult_left_le)
  finally have le: "\<bar>rnds q * fval x\<bar> \<le> rnds q" .
  then have "\<bar>rnds q * fval x\<bar> \<le> 4398046511104" using c(4) by linarith
  then have "\<bar>rnds q * fval x\<bar> \<le> pow2 1023" by (rule abs_big)
  then have eq: "is_finite (f64_lit q * x) \<and> fval (f64_lit q * x) = rnds (rnds q * fval x)"
    using f64_mul_finite [OF c(1), of x] assms(1) c(2) by (simp add: unit_score_def)
  then show "is_finite (f64_lit q * x)" "fval (f64_lit q * x) = rnds (rnds q * fval x)" by blast+
  show "\<bar>fval (f64_lit q * x)\<bar> \<le> rnds q"
    unfolding conjunct2 [OF eq] using le by (intro rnds_bound) simp_all
qed

definition clamp1 :: "rat \<Rightarrow> rat" where
  "clamp1 x = max (- 1) (min 1 x)"

lemma clamp1_bounds [simp]: "- 1 \<le> clamp1 x" "clamp1 x \<le> 1" "clamp1 0 = 0"
  by (simp_all add: clamp1_def)

lemma f64_clamp1:
  "is_finite x \<Longrightarrow> is_finite (f64_clamp x (- f64_lit 1) (f64_lit 1)) \<and>
     fval (f64_clamp x (- f64_lit 1) (f64_lit 1)) = clamp1 (fval x)"
  using f64_clamp_finite [of x "- f64_lit 1" "f64_lit 1"] by (simp add: clamp1_def)

lemma spread_val:
  fixes bid ask :: u8
  defines "spread \<equiv> f64_max (f64_lit 1) (f64_of_int (uint ask - uint bid))"
  shows "is_finite spread \<and> fval spread = max 1 (of_int (uint ask - uint bid))"
proof -
  have "\<bar>uint ask - uint bid\<bar> < 256"
    using uint_u8_bounds [of bid] uint_u8_bounds [of ask] by linarith
  then have "\<bar>uint ask - uint bid\<bar> < 2 ^ 53" by simp
  note e = f64_of_int_finite [OF this]
  show ?thesis
    using f64_max_finite [OF fval_one(1) conjunct1 [OF e]] e unfolding spread_def by (simp only: fval_one)
qed

text \<open>The two terms of the confidence, with the rounding of each operation.\<close>

definition exact_pressure :: "u8 \<Rightarrow> u8 \<Rightarrow> u32 \<Rightarrow> u32 \<Rightarrow> u32 \<Rightarrow> rat" where
  "exact_pressure bid ask bsz asz denom =
     (let mid = of_int (uint bid + uint ask) / 2;
          micro = (if denom = 0 then mid else rnds (of_int (weighted_cents bid ask bsz asz) / of_int (uint denom)))
      in clamp1 (rnds (rnds (micro - mid) / max 1 (of_int (uint ask - uint bid)))))"

lemma half_sum_diff:
  "0 \<le> s \<Longrightarrow> s \<le> 512 \<Longrightarrow> 0 \<le> m \<Longrightarrow> m \<le> 2199023255552 \<Longrightarrow> \<bar>m - s / 2\<bar> \<le> (2199023255808 :: rat)"
  by (simp add: abs_le_iff field_simps)

lemma exact_pressure_bounds: "- 1 \<le> exact_pressure bid ask bsz asz denom"
  "exact_pressure bid ask bsz asz denom \<le> 1"
  by (simp_all add: exact_pressure_def Let_def)

lemma exact_pressure_abs: "\<bar>exact_pressure bid ask bsz asz denom\<bar> \<le> 1"
  using exact_pressure_bounds [of bid ask bsz asz denom] by (simp add: abs_le_iff)

lemma ofi_pressure_val:
  "is_finite (ofi_book_pressure bid ask bsz asz denom) \<and>
   fval (ofi_book_pressure bid ask bsz asz denom) = exact_pressure bid ask bsz asz denom"
proof -
  define micro where "micro = (if denom = 0 then (u8_f64 bid + u8_f64 ask) * f64_lit (1 / 2)
     else microprice_cents bid ask bsz asz denom)"
  define mid where "mid = (u8_f64 bid + u8_f64 ask) * f64_lit (1 / 2)"
  define spread where "spread = f64_max (f64_lit 1) (f64_of_int (uint ask - uint bid))"
  have mid: "is_finite mid" "fval mid = of_int (uint bid + uint ask) / 2" unfolding mid_def by (rule mid_val)+
  have micro: "is_finite micro" "0 \<le> fval micro" "fval micro \<le> 2199023255552"
    using ofi_microprice_val [of denom bid ask bsz asz] by (simp_all only: micro_def) simp
  have spread: "is_finite spread" "fval spread = max 1 (of_int (uint ask - uint bid))"
    using spread_val [of ask bid] unfolding spread_def by blast+
  have "0 \<le> uint bid + uint ask" "uint bid + uint ask < 512"
    using uint_u8_bounds [of bid] uint_u8_bounds [of ask] by simp_all
  then have "(0 :: rat) \<le> of_int (uint bid + uint ask)" "of_int (uint bid + uint ask) \<le> (512 :: rat)"
    using of_int_le_iff [of "uint bid + uint ask" 512, where 'a = rat] of_int_le_iff [of 0 "uint bid + uint ask", where 'a = rat]
    by (simp_all only: of_int_0 of_int_numeral)
  then have diff: "\<bar>fval micro - fval mid\<bar> \<le> 2199023255808"
    using micro(2,3) unfolding mid(2) by (intro half_sum_diff)
  then have "\<bar>fval micro - fval mid\<bar> \<le> pow2 1023" by (intro abs_big) linarith
  then have sub: "is_finite (micro - mid)" "fval (micro - mid) = rnds (fval micro - fval mid)"
    using f64_sub_finite [OF micro(1) mid(1)] by blast+
  have "representable 2199023255808" using representable_of_int [of 2199023255808] by simp
  then have "\<bar>fval (micro - mid)\<bar> \<le> 2199023255808" unfolding sub(2) using diff by (rule rnds_bound)
  then have num: "\<bar>fval (micro - mid)\<bar> \<le> 2 ^ 50" by simp
  have "1 \<le> fval spread" unfolding spread(2) by (rule max.cobounded1)
  note q = quotient_finite [OF sub(1) spread(1) num this]
  have m: "fval micro = (if denom = 0 then of_int (uint bid + uint ask) / 2
      else rnds (of_int (weighted_cents bid ask bsz asz) / of_int (uint denom)))"
    using mid_val(2) [of bid ask] microprice_val(2) [of denom bid ask bsz asz]
    by (cases "denom = 0") (simp_all only: micro_def if_True if_False simp_thms)
  have p: "ofi_book_pressure bid ask bsz asz denom =
      f64_clamp ((micro - mid) / spread) (- f64_lit 1) (f64_lit 1)"
    by (simp only: ofi_book_pressure_def Let_def micro_def mid_def spread_def)
  show ?thesis
    unfolding p using f64_clamp1 [OF conjunct1 [OF q]]
    by (simp only: exact_pressure_def Let_def conjunct2 [OF q] sub(2) spread(2) m mid(2))
qed

definition exact_confidence :: "int \<Rightarrow> rat \<Rightarrow> u32 \<Rightarrow> rat" where
  "exact_confidence flow pressure denom =
     (let ofi_norm = clamp1 (rnds (of_int flow / max 1 (of_int (uint denom))))
      in clamp1 (rnds (rnds (rnds (65 / 100) * ofi_norm) + rnds (rnds (35 / 100) * pressure))))"

lemma ofi_confidence_val:
  assumes "is_finite ofi" "fval ofi = of_int flow" "\<bar>flow\<bar> < 17179869184" "unit_score pressure"
  shows "unit_score (ofi_confidence ofi pressure denom)"
    "fval (ofi_confidence ofi pressure denom) = exact_confidence flow (fval pressure) denom"
proof -
  define norm where "norm = f64_max (f64_lit 1) (u32_f64 denom)"
  have norm: "is_finite norm" "fval norm = max 1 (of_int (uint denom))"
    using f64_max_finite [OF fval_one(1) u32_f64_val(1), of denom] unfolding norm_def
    by (simp_all only: fval_one u32_f64_val)
  have n1: "1 \<le> fval norm" unfolding norm(2) by (rule max.cobounded1)
  have "of_int \<bar>flow\<bar> \<le> (17179869184 :: rat)"
    using assms(3) of_int_le_iff [of "\<bar>flow\<bar>" 17179869184, where 'a = rat] by (simp only: of_int_numeral)
  then have f: "\<bar>fval ofi\<bar> \<le> 2 ^ 50" by (simp add: assms(2))
  note q = quotient_finite [OF assms(1) norm(1) f n1]
  define on where "on = f64_clamp (ofi / norm) (- f64_lit 1) (f64_lit 1)"
  have on: "unit_score on" "fval on = clamp1 (rnds (of_int flow / max 1 (of_int (uint denom))))"
    using unit_score_clamp [OF conjunct1 [OF q]] f64_clamp1 [OF conjunct1 [OF q]] q
    by (simp_all only: on_def assms(2) norm(2))
  note a = weighted_score [OF on(1), of "65 / 100"] and b = weighted_score [OF assms(4), of "35 / 100"]
  have fin: "is_finite (f64_lit (65 / 100) * on)" "is_finite (f64_lit (35 / 100) * pressure)"
    using a(1) b(1) by simp_all
  have val: "fval (f64_lit (65 / 100) * on) = rnds (rnds (65 / 100) * fval on)"
    "fval (f64_lit (35 / 100) * pressure) = rnds (rnds (35 / 100) * fval pressure)"
    using a(2) b(2) by simp_all
  have le: "\<bar>fval (f64_lit (65 / 100) * on)\<bar> \<le> 1" "\<bar>fval (f64_lit (35 / 100) * pressure)\<bar> \<le> 1"
    using a(3) b(3) unit_literal(4) [of "65 / 100"] unit_literal(4) [of "35 / 100"] by simp_all
  then have "\<bar>fval (f64_lit (65 / 100) * on) + fval (f64_lit (35 / 100) * pressure)\<bar> \<le> pow2 1023"
    by (intro abs_big) linarith
  note s = f64_add_finite [OF fin this]
  have c: "ofi_confidence ofi pressure denom =
      f64_clamp (f64_lit (65 / 100) * on + f64_lit (35 / 100) * pressure) (- f64_lit 1) (f64_lit 1)"
    by (simp only: ofi_confidence_def Let_def on_def norm_def)
  show "unit_score (ofi_confidence ofi pressure denom)"
    unfolding c using s by (intro unit_score_clamp) blast
  show "fval (ofi_confidence ofi pressure denom) = exact_confidence flow (fval pressure) denom"
    unfolding c using f64_clamp1 [OF conjunct1 [OF s]]
    by (simp only: exact_confidence_def Let_def conjunct2 [OF s] val on(2))
qed

lemma ofi_pressure_unit: "unit_score (ofi_book_pressure bid ask bsz asz denom)"
  using ofi_pressure_val [of bid ask bsz asz denom] exact_pressure_bounds [of bid ask bsz asz denom]
  by (simp add: unit_score_def)

text \<open>The whole score of a primed signal on a quoted book.\<close>

definition exact_ofi_score :: "limit_order_book \<Rightarrow> ofi_alpha \<Rightarrow> rat" where
  "exact_ofi_score book a =
     (let bid = get_best_bid book; ask = get_best_ask book;
          bsz = get_bid_size book bid; asz = get_ask_size book ask
      in exact_confidence (ofi_flow bid bsz ask asz a) (exact_pressure bid ask bsz asz (bsz + asz)) (bsz + asz))"

lemma ofi_update_primed:
  assumes "\<not> one_sided book" "initialized a"
  shows "unit_score (fst (ofi_update book tick a))"
    "fval (fst (ofi_update book tick a)) = exact_ofi_score book a"
proof -
  let ?bid = "get_best_bid book" and ?ask = "get_best_ask book"
  let ?bsz = "get_bid_size book ?bid" and ?asz = "get_ask_size book ?ask"
  note f = ofi_flow_exact [where bid = ?bid and ask = ?ask and bsz = ?bsz and asz = ?asz and a = a]
  note p = ofi_pressure_unit [of ?bid ?ask ?bsz ?asz "?bsz + ?asz"]
  have u: "fst (ofi_update book tick a) =
      ofi_confidence (ofi_ask_contribution ?ask ?asz a (ofi_bid_contribution ?bid ?bsz a (f64_lit 0)))
        (ofi_book_pressure ?bid ?ask ?bsz ?asz (?bsz + ?asz)) (?bsz + ?asz)"
    using assms by (simp add: ofi_update_def one_sided_def Let_def)
  show "unit_score (fst (ofi_update book tick a))"
    unfolding u by (rule ofi_confidence_val(1) [OF f p])
  show "fval (fst (ofi_update book tick a)) = exact_ofi_score book a"
    unfolding u ofi_confidence_val(2) [OF f p]
    by (simp only: exact_ofi_score_def Let_def conjunct2 [OF ofi_pressure_val])
qed

lemma ofi_one_sided: "one_sided book \<Longrightarrow> ofi_update book tick a = (f64_lit 0, a\<lparr>initialized := False\<rparr>)"
  by (auto simp: ofi_update_def one_sided_def Let_def)

lemma ofi_update_unprimed:
  assumes "\<not> one_sided book" "\<not> initialized a"
  shows "fst (ofi_update book tick a) = f64_lit 0"
  using assms by (simp add: ofi_update_def one_sided_def Let_def)

lemma ofi_score_unit: "unit_score (fst (ofi_update book tick a))"
  using ofi_update_primed(1) [of book a tick] ofi_update_unprimed [of book a tick] ofi_one_sided [of book tick a]
  by (cases "one_sided book"; cases "initialized a") simp_all

text \<open>After a tick on a quoted book the signal remembers the top of that book.\<close>

lemma ofi_remembers_top:
  assumes "\<not> one_sided book"
  shows "snd (ofi_update book tick a) =
    \<lparr>initialized = True, prev_best_bid = get_best_bid book, prev_best_ask = get_best_ask book,
     prev_best_bid_size = get_bid_size book (get_best_bid book),
     prev_best_ask_size = get_ask_size book (get_best_ask book)\<rparr>"
  using assms by (cases a) (simp add: ofi_update_def one_sided_def Let_def)

interpretation ofi: alpha_signal ofi_update "\<lambda>_. True" ofi_init
  by unfold_locales (simp_all add: ofi_score_unit ofi_one_sided)

lemma no_flow_confidence:
  assumes "\<bar>p\<bar> \<le> 1"
  shows "\<bar>exact_confidence 0 p denom\<bar> \<le> 1 / 2"
proof -
  have half: "representable (1 / 2)"
    using representable_pow2 [of "- 1"] by (simp add: pow2_def power_int_def)
  have c: "0 \<le> rnds (35 / 100)" "rnds (35 / 100) \<le> 1 / 2"
    using half by (simp add: rnds_sgn, intro rnds_upper) simp_all
  have "\<bar>rnds (35 / 100) * p\<bar> = rnds (35 / 100) * \<bar>p\<bar>" using c by (simp add: abs_mult)
  also have "\<dots> \<le> rnds (35 / 100)" using assms c(1) by (simp add: mult_left_le)
  finally have "\<bar>rnds (35 / 100) * p\<bar> \<le> 1 / 2" using c(2) by linarith
  with half have "\<bar>rnds (rnds (35 / 100) * p)\<bar> \<le> 1 / 2" by (rule rnds_bound)
  with half have "\<bar>rnds (rnds (rnds (35 / 100) * p))\<bar> \<le> 1 / 2" by (rule rnds_bound)
  then show ?thesis by (simp add: exact_confidence_def clamp1_def Let_def)
qed

section \<open>The microprice\<close>

lemma microprice_within:
  assumes "uint bsz + uint asz < 2 ^ 32" "bsz + asz \<noteq> 0" "bid \<le> ask"
  shows "of_int (uint bid) \<le> fval (microprice_cents bid ask bsz asz (bsz + asz))"
    "fval (microprice_cents bid ask bsz asz (bsz + asz)) \<le> of_int (uint ask)"
proof -
  let ?w = "of_int (weighted_cents bid ask bsz asz) / of_int (uint (bsz + asz)) :: rat"
  have sum: "uint (bsz + asz) = uint bsz + uint asz"
    using assms(1) by (intro uint_add_no_wrap) simp
  have pos: "1 \<le> uint (bsz + asz)" using assms(2) by (rule uint_pos)
  have "uint bid * uint (bsz + asz) \<le> weighted_cents bid ask bsz asz"
    "weighted_cents bid ask bsz asz \<le> uint ask * uint (bsz + asz)"
    using assms(3) mult_right_mono [of "uint bid" "uint ask" "uint bsz"] mult_right_mono [of "uint bid" "uint ask" "uint asz"]
    by (simp_all add: weighted_cents_def sum distrib_left word_le_def)
  then have "(of_int (uint bid * uint (bsz + asz)) :: rat) \<le> of_int (weighted_cents bid ask bsz asz)"
    "(of_int (weighted_cents bid ask bsz asz) :: rat) \<le> of_int (uint ask * uint (bsz + asz))"
    by (simp_all only: of_int_le_iff)
  moreover have "(0 :: rat) < of_int (uint (bsz + asz))"
    using pos of_int_less_iff [of 0 "uint (bsz + asz)", where 'a = rat] by (simp only: of_int_0)
  ultimately have w: "of_int (uint bid) \<le> ?w" "?w \<le> of_int (uint ask)"
    by (simp_all only: of_int_mult pos_le_divide_eq pos_divide_le_eq)
  have r: "representable (of_int (uint p))" for p :: u8
    using uint_u8_bounds [of p] by (intro representable_of_int) simp
  show "of_int (uint bid) \<le> fval (microprice_cents bid ask bsz asz (bsz + asz))"
    "fval (microprice_cents bid ask bsz asz (bsz + asz)) \<le> of_int (uint ask)"
    unfolding microprice_val(2) [OF assms(2)] using rnds_lower [OF r w(1)] rnds_upper [OF r w(2)] .
qed

text \<open>The 32-bit sum of the sizes wraps: the divisor is then less than half the true sum.\<close>

lemma size_sum_uint:
  "uint (bsz + asz :: u32) =
     (if uint bsz + uint asz < 2 ^ 32 then uint bsz + uint asz else uint bsz + uint asz - 2 ^ 32)"
  by (simp add: uint_plus_if_size word_size)

lemma one_ulp_below:
  assumes "0 < w" "0 < d" "d < 2 ^ 32"
  shows "of_int w / of_int (d + 1) < rnds (of_int w / of_int d)"
proof -
  let ?x = "of_int w / of_int d :: rat" and ?e = "pow2 (- 53)"
  have pos: "(0 :: rat) < of_int d" "(1 :: rat) \<le> of_int w" using assms(1,2) by simp_all
  have "(of_int d :: rat) \<le> of_int (2 ^ 32)" using assms(3) by (simp only: of_int_le_iff)
  then have d32: "(of_int d :: rat) \<le> 2 ^ 32" by simp
  have "pow2 (- 1022) \<le> pow2 (- 32)" by (simp only: pow2_le_iff)
  also have "\<dots> = 1 / 2 ^ 32" by (simp add: pow2_neg_numeral)
  also have "\<dots> \<le> ?x" using pos d32 by (intro frac_le) simp_all
  finally have "pow2 (- 1022) \<le> \<bar>?x\<bar>" using pos by simp
  moreover have "\<bar>?x\<bar> = ?x" using pos by simp
  ultimately have "\<bar>rnds ?x - ?x\<bar> \<le> ?x * ?e" using rnds_error_rel [of ?x] by (simp only:)
  then have low: "?x * (1 - ?e) \<le> rnds ?x"
    unfolding right_diff_distrib mult_1_right abs_le_iff by linarith
  have "(of_int d + 1) * ?e < 1" using d32 by (simp add: pow2_neg_numeral)
  then have "of_int d < (of_int d + 1) * (1 - ?e)" by (simp add: algebra_simps)
  then have "of_int w * of_int d < of_int w * ((of_int d + 1) * (1 - ?e))"
    using pos(2) by (intro mult_strict_left_mono) simp_all
  then have "of_int w / of_int (d + 1) < ?x * (1 - ?e)"
    using pos(1) by (simp add: divide_simps mult_ac)
  with low show ?thesis by linarith
qed

lemma microprice_wrapped:
  assumes "2 ^ 32 < uint bsz + uint asz" "0 < weighted_cents bid ask bsz asz"
  shows "2 * (of_int (weighted_cents bid ask bsz asz) / of_int (uint bsz + uint asz))
    < fval (microprice_cents bid ask bsz asz (bsz + asz))"
proof -
  let ?w = "weighted_cents bid ask bsz asz" and ?S = "uint bsz + uint asz"
  define d where "d = uint (bsz + asz)"
  have d: "d = ?S - 2 ^ 32" using assms(1) unfolding d_def size_sum_uint by simp
  then have range: "0 < d" "d < 2 ^ 32" "2 * (d + 1) \<le> ?S"
    using assms(1) uint_u32_bounds [of bsz] uint_u32_bounds [of asz] by simp_all
  have half: "x / y \<le> x / (2 * z) \<Longrightarrow> 2 * (x / y) \<le> x / z" for x y z :: rat by simp
  have "(of_int (2 * (d + 1)) :: rat) \<le> of_int ?S" using range(3) by (simp only: of_int_le_iff)
  then have S: "2 * of_int (d + 1) \<le> (of_int ?S :: rat)" by simp
  have D: "(0 :: rat) < of_int (d + 1)" using range(1) by simp
  with S have "of_int ?w / of_int ?S \<le> of_int ?w / (2 * of_int (d + 1) :: rat)"
    using assms(2) by (intro divide_left_mono) simp_all
  then have "2 * (of_int ?w / of_int ?S) \<le> (of_int ?w / of_int (d + 1) :: rat)" by (rule half)
  also have "\<dots> < rnds (of_int ?w / of_int d)" using assms(2) range(1,2) by (rule one_ulp_below)
  also have "\<dots> = fval (microprice_cents bid ask bsz asz (bsz + asz))"
  proof -
    have "bsz + asz \<noteq> 0" using range(1) by (auto simp: d_def)
    then show ?thesis by (simp add: microprice_val(2) d_def)
  qed
  finally show ?thesis .
qed

lemma microprice_between:
  assumes "uint bsz + uint asz < 2 ^ 32" "bsz + asz \<noteq> 0"
  shows "of_int (min (uint bid) (uint ask)) \<le> fval (microprice_cents bid ask bsz asz (bsz + asz)) \<and>
    fval (microprice_cents bid ask bsz asz (bsz + asz)) \<le> of_int (max (uint bid) (uint ask))"
proof (cases "bid \<le> ask")
  case True
  then show ?thesis using microprice_within [OF assms] by (simp add: word_le_def)
next
  case False
  then have le: "ask \<le> bid" by simp
  have "weighted_cents bid ask bsz asz = weighted_cents ask bid asz bsz" by (simp add: weighted_cents_def)
  moreover have "asz + bsz \<noteq> 0" "uint asz + uint bsz < 2 ^ 32" using assms by (simp_all add: add.commute)
  ultimately show ?thesis
    using microprice_within [of asz bsz ask bid] le
    by (simp add: microprice_val(2) assms(2) word_le_def add.commute)
qed

text \<open>When the top of the book is as the signal last saw it, only the book pressure is left.\<close>

lemma unchanged_top_bound:
  assumes "\<not> one_sided book"
    and "get_best_bid book' = get_best_bid book" "get_best_ask book' = get_best_ask book"
    and "get_bid_size book' (get_best_bid book) = get_bid_size book (get_best_bid book)"
    and "get_ask_size book' (get_best_ask book) = get_ask_size book (get_best_ask book)"
  shows "\<bar>fval (fst (ofi_update book' tick' (snd (ofi_update book tick a))))\<bar> \<le> 1 / 2"
proof -
  have two: "\<not> one_sided book'" using assms(1-3) by (simp add: one_sided_def)
  let ?a = "snd (ofi_update book tick a)"
  have p: "initialized ?a" using ofi_remembers_top [OF assms(1)] by simp
  have "exact_ofi_score book' ?a = exact_confidence 0
     (exact_pressure (get_best_bid book) (get_best_ask book) (get_bid_size book (get_best_bid book))
        (get_ask_size book (get_best_ask book))
        (get_bid_size book (get_best_bid book) + get_ask_size book (get_best_ask book)))
     (get_bid_size book (get_best_bid book) + get_ask_size book (get_best_ask book))"
    using assms(2-5) ofi_remembers_top [OF assms(1), of tick a]
    by (simp add: exact_ofi_score_def ofi_flow_def Let_def)
  then show ?thesis
    unfolding ofi_update_primed(2) [OF two p] by (simp only: no_flow_confidence [OF exact_pressure_abs])
qed

section \<open>A quoted book\<close>

lemma two_sided_book:
  "get_best_bid (apply_ticks [\<lparr>price = 40, tsize = n, is_bid = True\<rparr>, \<lparr>price = 60, tsize = m, is_bid = False\<rparr>] empty_book) =
     (if n = 0 then kNoBid else 40) \<and>
   get_best_ask (apply_ticks [\<lparr>price = 40, tsize = n, is_bid = True\<rparr>, \<lparr>price = 60, tsize = m, is_bid = False\<rparr>] empty_book) =
     (if m = 0 then kNoAsk else 60)"
proof -
  let ?t = "\<lparr>price = 40, tsize = n, is_bid = True\<rparr>" and ?u = "\<lparr>price = 60, tsize = m, is_bid = False\<rparr>"
  let ?book = "apply_ticks [?t, ?u] empty_book"
  have d: "depth ?book s p = (if s \<and> p = 40 then n else if \<not> s \<and> p = 60 then m else 0)" for s p
    using lob.level_fold [OF wf_empty_book, of "[?t, ?u]" s p]
    by (simp add: apply_ticks_def kMaxPrice_def split: option.splits)
  have "get_best_bid ?book = (if n = 0 then kNoBid else 40)"
    using lob.no_bid_iff [OF apply_ticks_wf, of "[?t, ?u]"] lob.best_bid_unique [OF apply_ticks_wf, of "[?t, ?u]" 40]
    by (auto simp: d)
  moreover have "get_best_ask ?book = (if m = 0 then kNoAsk else 60)"
    using lob.no_ask_iff [OF apply_ticks_wf, of "[?t, ?u]"] lob.best_ask_unique [OF apply_ticks_wf, of "[?t, ?u]" 60]
    by (auto simp: d)
  ultimately show ?thesis by blast
qed

definition quoted_40_60 :: "u32 \<Rightarrow> u32 \<Rightarrow> limit_order_book" where
  "quoted_40_60 n m =
     apply_ticks [\<lparr>price = 40, tsize = n, is_bid = True\<rparr>, \<lparr>price = 60, tsize = m, is_bid = False\<rparr>] empty_book"

definition ask_60_10 :: market_tick where
  "ask_60_10 = \<lparr>price = 60, tsize = 10, is_bid = False\<rparr>"

lemma quoted_40_60:
  assumes "n \<noteq> 0" "m \<noteq> 0"
  shows "get_best_bid (quoted_40_60 n m) = 40" "get_best_ask (quoted_40_60 n m) = 60"
    "get_bid_size (quoted_40_60 n m) 40 = n" "get_ask_size (quoted_40_60 n m) 60 = m"
    "\<not> one_sided (quoted_40_60 n m)"
proof -
  let ?t = "\<lparr>price = 40, tsize = n, is_bid = True\<rparr>" and ?u = "\<lparr>price = 60, tsize = m, is_bid = False\<rparr>"
  show best: "get_best_bid (quoted_40_60 n m) = 40" "get_best_ask (quoted_40_60 n m) = 60"
    using two_sided_book [of n m] assms by (simp_all add: quoted_40_60_def)
  have "depth (quoted_40_60 n m) True 40 = n" "depth (quoted_40_60 n m) False 60 = m"
    using lob.level_fold [OF wf_empty_book, of "[?t, ?u]" True 40] lob.level_fold [OF wf_empty_book, of "[?t, ?u]" False 60]
    by (simp_all add: quoted_40_60_def apply_ticks_def kMaxPrice_def)
  then show "get_bid_size (quoted_40_60 n m) 40 = n" "get_ask_size (quoted_40_60 n m) 60 = m"
    by (simp_all add: depth_def)
  show "\<not> one_sided (quoted_40_60 n m)" using best by (simp add: one_sided_def book_consts)
qed

section \<open>Properties\<close>

text \<open>
  C24: whatever books and ticks the signals are fed, each score of both signals is a finite number in
  \<open>[-1, 1]\<close>, as the comment of \<open>IAlphaSignal::update\<close> promises: no NaN and no overflow can reach the engine.
\<close>
theorem scores_stay_in_range:
  "list_all unit_score (fst (run_signal momentum_update bts momentum_init)) \<and>
   list_all unit_score (fst (run_signal ofi_update bts ofi_init))"
  using momentum.all_scores_unit [of _ bts] ofi.all_scores_unit [of _ bts] unfolding list_all_iff by blast

text \<open>
  C25: on a quoted book whose two sizes do not add up to zero, a primed momentum signal stores the correctly
  rounded microprice, and its score is 1 when the microprice rose by more than one cent since the last quoted tick, -1 when it
  fell by more than one cent, and 0 otherwise.
\<close>
theorem momentum_fires_on_a_cent:
  assumes "momentum_ok m" "has_prev m" "\<not> one_sided book"
    and "get_bid_size book (get_best_bid book) + get_ask_size book (get_best_ask book) \<noteq> 0"
  defines "micro \<equiv> rnds (of_int (weighted_cents (get_best_bid book) (get_best_ask book)
        (get_bid_size book (get_best_bid book)) (get_ask_size book (get_best_ask book))) /
      of_int (uint (get_bid_size book (get_best_bid book) + get_ask_size book (get_best_ask book))))"
  shows "fst (momentum_update book tick m) =
      (if 1 < rnds (micro - fval (prev_microprice_cents m)) then f64_lit 1
       else if rnds (micro - fval (prev_microprice_cents m)) < - 1 then - f64_lit 1 else f64_lit 0) \<and>
    has_prev (snd (momentum_update book tick m)) \<and> fval (prev_microprice_cents (snd (momentum_update book tick m))) = micro"
proof -
  let ?b = "get_best_bid book" and ?a = "get_best_ask book"
  let ?bs = "get_bid_size book ?b" and ?as = "get_ask_size book ?a"
  define price where "price = microprice_cents ?b ?a ?bs ?as (?bs + ?as)"
  note v = microprice_val [OF assms(4), of ?b ?a ?bs ?as, folded price_def micro_def]
  have prev: "is_finite (prev_microprice_cents m)" "0 \<le> fval (prev_microprice_cents m)"
    "fval (prev_microprice_cents m) \<le> 2 ^ 41"
    using assms(1) by (auto simp: momentum_ok_def)
  have "\<bar>fval price - fval (prev_microprice_cents m)\<bar> \<le> 2199023255552"
    using v(3,4) prev(2,3) by (simp add: abs_le_iff)
  then have "\<bar>fval price - fval (prev_microprice_cents m)\<bar> \<le> pow2 1023" by (intro abs_big) linarith
  then have delta: "is_finite (price - prev_microprice_cents m)"
    "fval (price - prev_microprice_cents m) = rnds (micro - fval (prev_microprice_cents m))"
    using f64_sub_finite [OF v(1) prev(1)] v(2) by simp_all
  have "momentum_update book tick m =
      (if f64_lit 1 < price - prev_microprice_cents m then f64_lit 1
       else if price - prev_microprice_cents m < - f64_lit 1 then - f64_lit 1 else f64_lit 0,
       m\<lparr>prev_microprice_cents := price\<rparr>)"
    using assms(2-4) by (simp add: momentum_update_def one_sided_def Let_def price_def)
  then show ?thesis using assms(2) v(2) by (simp add: delta)
qed

theorem momentum_fires_on_a_cent_witness:
  "fst (momentum_update (quoted_40_60 30 10) ask_60_10 \<lparr>has_prev = True, prev_microprice_cents = f64_lit 0\<rparr>) = f64_lit 1"
proof -
  let ?m = "\<lparr>has_prev = True, prev_microprice_cents = f64_lit 0\<rparr>"
  have ok: "momentum_ok ?m" "has_prev ?m" by (simp_all add: momentum_ok_def)
  have nz: "get_bid_size (quoted_40_60 30 10) (get_best_bid (quoted_40_60 30 10)) +
      get_ask_size (quoted_40_60 30 10) (get_best_ask (quoted_40_60 30 10)) \<noteq> 0"
    by (simp add: quoted_40_60)
  have r: "rnds 55 = 55" using representable_of_int [of 55] by simp
  show ?thesis
    using momentum_fires_on_a_cent [OF ok quoted_40_60(5) nz, of ask_60_10]
    by (simp add: quoted_40_60 weighted_cents_def r)
qed

text \<open>
  C20: on a quoted book a primed order-flow signal returns the clamped blend of the normalised flow and the
  book pressure, each floating-point operation rounded once and nothing else lost (the flow itself, a difference
  of sizes, is exact), and it stores the top of the book for the next tick.
\<close>
theorem ofi_score_is_exact:
  assumes "\<not> one_sided book" "initialized a"
  shows "unit_score (fst (ofi_update book tick a)) \<and> fval (fst (ofi_update book tick a)) = exact_ofi_score book a \<and>
    snd (ofi_update book tick a) =
    \<lparr>initialized = True, prev_best_bid = get_best_bid book, prev_best_ask = get_best_ask book,
     prev_best_bid_size = get_bid_size book (get_best_bid book),
     prev_best_ask_size = get_ask_size book (get_best_ask book)\<rparr>"
  using ofi_update_primed [OF assms] ofi_remembers_top [OF assms(1)] by blast

theorem ofi_score_is_exact_witness:
  "unit_score (fst (ofi_update (quoted_40_60 30 10) ask_60_10 (ofi_init\<lparr>initialized := True\<rparr>)))"
  using ofi_score_is_exact [of "quoted_40_60 30 10" "ofi_init\<lparr>initialized := True\<rparr>" ask_60_10] by (simp add: quoted_40_60)

text \<open>
  C33: a tick that leaves the best prices and their sizes as the signal last saw them moves no order flow, so
  the score is only the weighted book pressure and at most one half in absolute value, below the engine's threshold of 0.60.
\<close>
theorem unchanged_top_scores_at_most_half:
  assumes "\<not> one_sided book"
    and "get_best_bid book' = get_best_bid book" "get_best_ask book' = get_best_ask book"
    and "get_bid_size book' (get_best_bid book) = get_bid_size book (get_best_bid book)"
    and "get_ask_size book' (get_best_ask book) = get_ask_size book (get_best_ask book)"
  shows "\<bar>fval (fst (ofi_update book' tick' (snd (ofi_update book tick a))))\<bar> \<le> 1 / 2"
  by (rule unchanged_top_bound [OF assms])

theorem unchanged_top_scores_at_most_half_witness:
  "\<bar>fval (fst (ofi_update (quoted_40_60 30 10) ask_60_10 (snd (ofi_update (quoted_40_60 30 10) ask_60_10 ofi_init))))\<bar> \<le> 1 / 2"
  by (rule unchanged_top_scores_at_most_half [OF quoted_40_60(5)]) simp_all

text \<open>
  C39: the price the momentum signal remembers, over all the sizes a book with two live sides can
  quote. It lies between the two best prices as long as the two best sizes together stay below
  \<open>2 ^ 32\<close>. When they reach it exactly, the update does nothing and scores zero. Beyond it the 32-bit sum
  has wrapped around, and the remembered price is more than twice the size-weighted price of the book
  (unless both best prices are zero cents).
\<close>
theorem momentum_price_of_any_book:
  fixes ts m tick
  defines "book \<equiv> apply_ticks ts empty_book"
  defines "bid \<equiv> get_best_bid book" and "ask \<equiv> get_best_ask book"
  defines "bsz \<equiv> get_bid_size book bid" and "asz \<equiv> get_ask_size book ask"
  defines "stored \<equiv> fval (prev_microprice_cents (snd (momentum_update book tick m)))"
  assumes "\<not> one_sided book"
  shows "0 < uint bsz \<and> 0 < uint asz \<and>
    (uint bsz + uint asz < 2 ^ 32 \<longrightarrow>
       of_int (min (uint bid) (uint ask)) \<le> stored \<and> stored \<le> of_int (max (uint bid) (uint ask))) \<and>
    (uint bsz + uint asz = 2 ^ 32 \<longrightarrow> momentum_update book tick m = (f64_lit 0, m)) \<and>
    (2 ^ 32 < uint bsz + uint asz \<longrightarrow> bid = 0 \<and> ask = 0 \<or>
       2 * (of_int (uint bid * uint asz + uint ask * uint bsz) / of_int (uint bsz + uint asz)) < stored)"
proof -
  have wf: "wf_book book" unfolding book_def by (rule apply_ticks_wf)
  have sides: "bid \<noteq> kNoBid" "ask \<noteq> kNoAsk" using assms(7) by (simp_all add: one_sided_def bid_def ask_def)
  have live: "bsz \<noteq> 0" "asz \<noteq> 0"
    using lob.quoted_bid [OF wf] lob.quoted_ask [OF wf] sides
    by (auto simp: bsz_def asz_def bid_def ask_def depth_def)
  have pos: "0 < uint bsz" "0 < uint asz" using live uint_pos [of bsz] uint_pos [of asz] by linarith+
  have upd: "momentum_update book tick m = (f64_lit 0, m)" if "bsz + asz = 0"
    using that by (simp add: momentum_update_def Let_def bid_def ask_def bsz_def asz_def)
  have st: "stored = fval (microprice_cents bid ask bsz asz (bsz + asz))" if "bsz + asz \<noteq> 0"
    using that sides unfolding stored_def momentum_update_def Let_def
    by (simp add: bid_def ask_def bsz_def asz_def)
  have nz: "bsz + asz \<noteq> 0" if "uint bsz + uint asz \<noteq> 2 ^ 32"
  proof
    assume "bsz + asz = 0"
    then have "uint (bsz + asz) = 0" by simp
    then show False using that pos unfolding size_sum_uint by (simp split: if_splits)
  qed
  have zero: "bsz + asz = 0" if "uint bsz + uint asz = 2 ^ 32"
    using size_sum_uint [of bsz asz] that by (simp add: uint_0_iff)
  have w: "0 < weighted_cents bid ask bsz asz" if "\<not> (bid = 0 \<and> ask = 0)"
  proof -
    have "0 \<le> uint bid" "0 \<le> uint ask" "uint bid \<noteq> 0 \<or> uint ask \<noteq> 0"
      using that by (simp_all add: uint_0_iff)
    then have "0 < uint bid \<or> 0 < uint ask" by linarith
    then have "0 < uint bid * uint asz \<or> 0 < uint ask * uint bsz" using pos by (auto simp: zero_less_mult_iff)
    moreover have "0 \<le> uint bid * uint asz" "0 \<le> uint ask * uint bsz" using pos by simp_all
    ultimately show ?thesis unfolding weighted_cents_def by linarith
  qed
  have below: "of_int (min (uint bid) (uint ask)) \<le> stored \<and> stored \<le> of_int (max (uint bid) (uint ask))"
    if "uint bsz + uint asz < 2 ^ 32"
    using microprice_between [OF that nz] st [OF nz] that by simp
  have above: "bid = 0 \<and> ask = 0 \<or>
      2 * (of_int (uint bid * uint asz + uint ask * uint bsz) / of_int (uint bsz + uint asz)) < stored"
    if "2 ^ 32 < uint bsz + uint asz"
    using microprice_wrapped [OF that w] st [OF nz] that unfolding weighted_cents_def by fastforce
  show ?thesis using pos below above upd zero by blast
qed

text \<open>Books whose sizes add up to one less than, exactly, and one more than \<open>2 ^ 32\<close>.\<close>
theorem momentum_price_of_any_book_witness:
  "fval (prev_microprice_cents (snd (momentum_update (quoted_40_60 2147483647 2147483648) ask_60_10 momentum_init))) \<le> 60 \<and>
   momentum_update (quoted_40_60 2147483648 2147483648) ask_60_10 momentum_init = (f64_lit 0, momentum_init) \<and>
   99 < fval (prev_microprice_cents (snd (momentum_update (quoted_40_60 2147483649 2147483648) ask_60_10 momentum_init)))"
proof -
  have book: "\<not> one_sided (quoted_40_60 n k)" if "n \<noteq> 0" "k \<noteq> 0" for n k using quoted_40_60 that by blast
  note any = momentum_price_of_any_book [of "[\<lparr>price = 40, tsize = n, is_bid = True\<rparr>, \<lparr>price = 60, tsize = k, is_bid = False\<rparr>]" for n k,
      folded quoted_40_60_def]
  note q = quoted_40_60(1-4)
  show ?thesis
    using any [OF book [of 2147483647 2147483648], of ask_60_10 momentum_init]
      any [OF book [of 2147483648 2147483648], of ask_60_10 momentum_init]
      any [OF book [of 2147483649 2147483648], of ask_60_10 momentum_init]
    by (simp add: q)
qed

end
