(* ===== verification/AsyncLogger.thy ===== *)
theory AsyncLogger
  imports SpscQueue Float64
begin

text \<open>
  The asynchronous CSV logger of \<open>include/async_logger.hpp\<close>: the non-blocking calls that push an event
  into the ring of 4096 entries, and the worker thread that writes the events to a file, flushes it, and
  drains the ring at shutdown.

  The file is the list of the rows streamed into it and the number of rows that had been streamed at the
  last flush. Whether it opens is a parameter; a write or a flush that fails afterwards (a full disk)
  sets a bit of the stream that the code never reads, changes nothing else in the program, and is not
  modelled. The text of a number is the standard library's. The worker is one function that performs the
  step at its program point, given what the clock returns, and \<open>logger_step\<close> interleaves it
  with the calls of the producer and with the destructor.
\<close>

record LogEvent =
  timestamp_us :: u64
  event_type :: char
  lprice :: f64
  lsize :: int
  lrealized_pnl :: f64
  latency_us :: u64
  strategy :: "char list"

definition kQueueSize :: u64 where
  "kQueueSize = 4096"

interpretation log_ring: ring_size kQueueSize
  by unfold_locales (simp add: valid_size_def kQueueSize_def)

abbreviation NUL :: char where
  "NUL \<equiv> CHR 0x00"

section \<open>The calls of the hot path\<close>

text \<open>\<open>LogEvent ev{}\<close>: every member is zero.\<close>

definition zero_event :: LogEvent where
  "zero_event = \<lparr>timestamp_us = 0, event_type = NUL, lprice = f64_lit 0, lsize = 0,
     lrealized_pnl = f64_lit 0, latency_us = 0, strategy = replicate 16 NUL\<rparr>"

definition make_event :: "u64 \<Rightarrow> char \<Rightarrow> f64 \<Rightarrow> int \<Rightarrow> f64 \<Rightarrow> u64 \<Rightarrow> LogEvent" where
  "make_event timestamp kind p n pnl latency =
     zero_event\<lparr>timestamp_us := timestamp, event_type := kind, lprice := p, lsize := n,
       lrealized_pnl := pnl, latency_us := latency, strategy := (strategy zero_event)[0 := NUL]\<rparr>"

definition log_event ::
  "u64 \<Rightarrow> char \<Rightarrow> f64 \<Rightarrow> int \<Rightarrow> f64 \<Rightarrow> u64 \<Rightarrow> LogEvent spsc \<Rightarrow> bool \<times> LogEvent spsc" where
  "log_event timestamp kind p n pnl latency q =
     spsc_push kQueueSize (make_event timestamp kind p n pnl latency) q"

fun copy_chars :: "nat \<Rightarrow> nat \<Rightarrow> string \<Rightarrow> char list \<Rightarrow> char list" where
  "copy_chars i 0 src dst = dst"
| "copy_chars i (Suc left) src dst = copy_chars (Suc i) left src (dst[i := src ! i])"

definition label_length :: "string \<Rightarrow> nat" where
  "label_length name = (if length name < 16 - 1 then length name else 16 - 1)"

definition strategy_event :: "string \<Rightarrow> LogEvent" where
  "strategy_event name =
     (let ev = zero_event\<lparr>event_type := CHR ''M'', strategy := replicate 16 NUL\<rparr>;
          n = label_length name;
          copied = copy_chars 0 n name (strategy ev)
      in ev\<lparr>strategy := copied[n := NUL]\<rparr>)"

definition log_active_strategy :: "string \<Rightarrow> LogEvent spsc \<Rightarrow> bool \<times> LogEvent spsc" where
  "log_active_strategy name q = spsc_push kQueueSize (strategy_event name) q"

section \<open>The worker\<close>

text \<open>
  A row of the file. \<open>ev.strategy.data()\<close> is streamed as a C string: without a terminator inside the
  array the stream would read past its end, which is undefined.
\<close>

datatype csv_row =
    Header
  | Row u64 char f64 int f64 u64 string

definition c_string :: "char list \<Rightarrow> string option" where
  "c_string cs = (if NUL \<in> set cs then Some (takeWhile (\<lambda>c. c \<noteq> NUL) cs) else None)"

definition csv_line :: "LogEvent \<Rightarrow> csv_row option" where
  "csv_line ev = map_option
     (Row (timestamp_us ev) (event_type ev) (lprice ev) (lsize ev) (lrealized_pnl ev) (latency_us ev))
     (c_string (strategy ev))"

datatype worker_pc =
    W_start
  | W_loop
  | W_pop
  | W_drain
  | W_noio_loop
  | W_noio_pop
  | W_noio_drain
  | W_done

record logger_sys =
  lqueue :: "LogEvent spsc"
  lrunning :: bool
  wpc :: worker_pc
  rows :: "csv_row list"
  flushed_rows :: nat
  since_flush :: u64
  last_flush :: int
  file_open :: bool
  accepted :: "LogEvent list"

definition logger_init :: logger_sys where
  "logger_init = \<lparr>lqueue = spsc_init kQueueSize, lrunning = True, wpc = W_start, rows = [], flushed_rows = 0,
     since_flush = 0, last_flush = 0, file_open = False, accepted = []\<rparr>"

text \<open>Times of the steady clock are in nanoseconds.\<close>

definition maybe_flush :: "int \<Rightarrow> logger_sys \<Rightarrow> logger_sys" where
  "maybe_flush now s =
     (let elapsed = now - last_flush s
      in if 1000 \<le> since_flush s \<or> 1000000000 \<le> elapsed
         then s\<lparr>flushed_rows := length (rows s), since_flush := 0, last_flush := now\<rparr>
         else s)"

definition write_row :: "LogEvent \<Rightarrow> logger_sys \<Rightarrow> logger_sys option" where
  "write_row ev s = map_option (\<lambda>row. s\<lparr>rows := rows s @ [row]\<rparr>) (csv_line ev)"

definition worker_step :: "bool \<Rightarrow> int \<Rightarrow> logger_sys \<Rightarrow> logger_sys option" where
  "worker_step opens now s =
     (case wpc s of
        W_start \<Rightarrow>
          Some (if opens
                then s\<lparr>wpc := W_loop, file_open := True, rows := [Header], since_flush := 0, last_flush := now\<rparr>
                else s\<lparr>wpc := W_noio_loop\<rparr>)
      | W_loop \<Rightarrow> Some (s\<lparr>wpc := if lrunning s then W_pop else W_drain\<rparr>)
      | W_pop \<Rightarrow>
          (case spsc_pop kQueueSize (lqueue s) of
             (Pop_undefined, _) \<Rightarrow> None
           | (Pop_empty, q) \<Rightarrow> Some (maybe_flush now (s\<lparr>lqueue := q, wpc := W_loop\<rparr>))
           | (Pop_item ev, q) \<Rightarrow>
               map_option (\<lambda>s'. maybe_flush now (s'\<lparr>since_flush := since_flush s' + 1, wpc := W_loop\<rparr>))
                 (write_row ev (s\<lparr>lqueue := q\<rparr>)))
      | W_drain \<Rightarrow>
          (case spsc_pop kQueueSize (lqueue s) of
             (Pop_undefined, _) \<Rightarrow> None
           | (Pop_empty, q) \<Rightarrow> Some (s\<lparr>lqueue := q, flushed_rows := length (rows s), wpc := W_done\<rparr>)
           | (Pop_item ev, q) \<Rightarrow> write_row ev (s\<lparr>lqueue := q\<rparr>))
      | W_noio_loop \<Rightarrow> Some (s\<lparr>wpc := if lrunning s then W_noio_pop else W_noio_drain\<rparr>)
      | W_noio_pop \<Rightarrow>
          (case spsc_pop kQueueSize (lqueue s) of
             (Pop_undefined, _) \<Rightarrow> None
           | (_, q) \<Rightarrow> Some (s\<lparr>lqueue := q, wpc := W_noio_loop\<rparr>))
      | W_noio_drain \<Rightarrow>
          (case spsc_pop kQueueSize (lqueue s) of
             (Pop_undefined, _) \<Rightarrow> None
           | (Pop_empty, q) \<Rightarrow> Some (s\<lparr>lqueue := q, wpc := W_done\<rparr>)
           | (Pop_item ev, q) \<Rightarrow> Some (s\<lparr>lqueue := q\<rparr>))
      | W_done \<Rightarrow> Some s)"

text \<open>
  A producer's call, with the ghost history of accepted events, and the destructor's store. No call may
  start once the destructor has begun, so the producer runs only while \<open>running_\<close> is set.
\<close>

definition push_event :: "LogEvent \<Rightarrow> logger_sys \<Rightarrow> logger_sys" where
  "push_event ev s =
     (let (ok, q) = spsc_push kQueueSize ev (lqueue s)
      in s\<lparr>lqueue := q, accepted := (if ok then accepted s @ [ev] else accepted s)\<rparr>)"

definition request_shutdown :: "logger_sys \<Rightarrow> logger_sys" where
  "request_shutdown s = s\<lparr>lrunning := False\<rparr>"

inductive logger_step :: "logger_sys \<Rightarrow> logger_sys \<Rightarrow> bool" where
  log: "lrunning s \<Longrightarrow> logger_step s (push_event (make_event ts kind p n pnl lat) s)"
| label: "lrunning s \<Longrightarrow> logger_step s (push_event (strategy_event name) s)"
| shutdown: "logger_step s (request_shutdown s)"
| worker: "worker_step opens now s = Some t \<Longrightarrow> logger_step s t"

inductive logger_reachable :: "logger_sys \<Rightarrow> bool" where
  start: "logger_reachable logger_init"
| step: "logger_reachable s \<Longrightarrow> logger_step s t \<Longrightarrow> logger_reachable t"

section \<open>The strategy label\<close>

lemma copy_chars_prefix:
  "i + n \<le> length dst \<Longrightarrow> i + n \<le> length src \<Longrightarrow>
   copy_chars i n src dst = take i dst @ take n (drop i src) @ drop (i + n) dst"
proof (induction n arbitrary: i dst)
  case (Suc n)
  have 1: "take (Suc i) (dst[i := src ! i]) = take i dst @ [src ! i]"
    using Suc.prems by (simp add: take_Suc_conv_app_nth)
  have 2: "take (Suc n) (drop i src) = src ! i # take n (drop (Suc i) src)"
    using Suc.prems by (simp add: Cons_nth_drop_Suc [symmetric])
  have 3: "drop (Suc i + n) (dst[i := src ! i]) = drop (i + Suc n) dst" by simp
  show ?case
    using Suc.IH [of "Suc i" "dst[i := src ! i]"] Suc.prems by (simp add: 1 2 3 del: take_Suc_Cons)
qed simp

lemma strategy_event_label:
  "strategy (strategy_event name) = take 15 name @ replicate (16 - length (take 15 name)) NUL"
proof -
  define n where "n = label_length name"
  have n: "n \<le> 15" "n \<le> length name" "take n name = take 15 name" "length (take 15 name) = n"
    by (auto simp: n_def label_length_def)
  have "copy_chars 0 n name (replicate 16 NUL) = take n name @ replicate (16 - n) NUL"
    using copy_chars_prefix [of 0 n "replicate 16 NUL" name] n by (simp add: drop_replicate)
  moreover have "16 - n = Suc (15 - n)" using n by simp
  ultimately have "(copy_chars 0 n name (replicate 16 NUL))[n := NUL] = take 15 name @ replicate (16 - n) NUL"
    using n(3,4) by (simp add: list_update_append)
  then show ?thesis unfolding n(4) by (simp add: strategy_event_def Let_def zero_event_def n_def)
qed

lemma terminated_make_event: "NUL \<in> set (strategy (make_event ts kind p n pnl lat))"
  by (simp add: make_event_def zero_event_def set_update_memI)

lemma terminated_strategy_event: "NUL \<in> set (strategy (strategy_event name))"
  by (simp add: strategy_event_label)

section \<open>The invariant\<close>

abbreviation queued :: "logger_sys \<Rightarrow> LogEvent list" where
  "queued s \<equiv> spsc_contents kQueueSize (lqueue s)"

definition terminated :: "LogEvent \<Rightarrow> bool" where
  "terminated ev \<longleftrightarrow> NUL \<in> set (strategy ev)"

definition history_inv :: "logger_sys \<Rightarrow> bool" where
  "history_inv s \<longleftrightarrow> spsc_inv kQueueSize (lqueue s) \<and> list_all terminated (accepted s) \<and>
     (\<exists>taken. accepted s = taken @ queued s \<and>
        (if file_open s then map Some (rows s) = Some Header # map csv_line taken else rows s = []) \<and>
        (wpc s = W_start \<longrightarrow> taken = []))"

definition flush_inv :: "logger_sys \<Rightarrow> bool" where
  "flush_inv s \<longleftrightarrow>
     (case wpc s of
        W_start \<Rightarrow> \<not> file_open s \<and> flushed_rows s = 0
      | W_loop \<Rightarrow> file_open s \<and> since_flush s < 1000 \<and> length (rows s) \<le> flushed_rows s + unat (since_flush s) + 1
      | W_pop \<Rightarrow> file_open s \<and> since_flush s < 1000 \<and> length (rows s) \<le> flushed_rows s + unat (since_flush s) + 1
      | W_drain \<Rightarrow> file_open s \<and> \<not> lrunning s
      | W_done \<Rightarrow> \<not> lrunning s \<and> queued s = [] \<and> flushed_rows s = length (rows s)
      | W_noio_drain \<Rightarrow> \<not> file_open s \<and> \<not> lrunning s \<and> flushed_rows s = 0
      | _ \<Rightarrow> \<not> file_open s \<and> flushed_rows s = 0)"

definition logger_inv :: "logger_sys \<Rightarrow> bool" where
  "logger_inv s \<longleftrightarrow> history_inv s \<and> flush_inv s"

lemma logger_inv_init: "logger_inv logger_init"
  using spsc_inv_init [OF log_ring.static_assert] spsc_contents_init [of kQueueSize, where 'a = LogEvent]
  by (simp add: logger_inv_def history_inv_def flush_inv_def logger_init_def)

lemma csv_line_terminated: "terminated ev \<Longrightarrow> \<exists>row. csv_line ev = Some row"
  by (simp add: csv_line_def c_string_def terminated_def)

lemma push_event_inv:
  assumes "logger_inv s" "terminated ev" "lrunning s"
  shows "logger_inv (push_event ev s)"
proof -
  have inv: "spsc_inv kQueueSize (lqueue s)" using assms(1) by (simp add: logger_inv_def history_inv_def)
  have pc: "wpc s \<noteq> W_done" "wpc s \<noteq> W_drain" "wpc s \<noteq> W_noio_drain"
    using assms(1,3) by (auto simp: logger_inv_def flush_inv_def)
  from inv show ?thesis
  proof (rule log_ring.push_cases [of "lqueue s" ev])
    assume "spsc_push kQueueSize ev (lqueue s) = (False, lqueue s)"
    then show ?thesis using assms(1) by (simp add: push_event_def)
  next
    fix q' assume q': "spsc_push kQueueSize ev (lqueue s) = (True, q')" "spsc_inv kQueueSize q'"
      "spsc_contents kQueueSize q' = queued s @ [ev]"
    then have t: "push_event ev s = s\<lparr>lqueue := q', accepted := accepted s @ [ev]\<rparr>" by (simp add: push_event_def)
    show ?thesis
      using assms(1,2) pc q' unfolding t logger_inv_def history_inv_def flush_inv_def
      by (auto split: worker_pc.splits)
  qed
qed

lemma request_shutdown_inv: "logger_inv s \<Longrightarrow> logger_inv (request_shutdown s)"
  by (auto simp: logger_inv_def history_inv_def flush_inv_def request_shutdown_def split: worker_pc.splits)

text \<open>What the worker does with the ring and the file, one program point at a time.\<close>

lemma history_frame:
  "history_inv s \<Longrightarrow> lqueue t = lqueue s \<Longrightarrow> accepted t = accepted s \<Longrightarrow> rows t = rows s \<Longrightarrow>
   file_open t = file_open s \<Longrightarrow> wpc t \<noteq> W_start \<Longrightarrow> history_inv t"
  by (auto simp: history_inv_def)

lemma history_write:
  assumes "history_inv s" "wpc s \<noteq> W_start" "file_open s" "spsc_inv kQueueSize q'"
    and "queued s = ev # spsc_contents kQueueSize q'"
  obtains row where "csv_line ev = Some row"
    "\<And>t. lqueue t = q' \<Longrightarrow> accepted t = accepted s \<Longrightarrow> rows t = rows s @ [row] \<Longrightarrow>
      file_open t \<Longrightarrow> wpc t \<noteq> W_start \<Longrightarrow> history_inv t"
proof -
  obtain taken where taken: "accepted s = taken @ queued s" "map Some (rows s) = Some Header # map csv_line taken"
    using assms(1,3) by (auto simp: history_inv_def)
  have "terminated ev" using assms(1,5) taken(1) by (simp add: history_inv_def)
  then obtain row where row: "csv_line ev = Some row" using csv_line_terminated by blast
  show thesis
  proof (rule that [OF row])
    fix t :: logger_sys assume t: "lqueue t = q'" "accepted t = accepted s" "rows t = rows s @ [row]" "file_open t" "wpc t \<noteq> W_start"
    show "history_inv t"
      unfolding history_inv_def using assms(1,4,5) t row taken
      by (auto simp: history_inv_def intro!: exI [of _ "taken @ [ev]"])
  qed
qed

lemma history_discard:
  assumes "history_inv s" "wpc s \<noteq> W_start" "\<not> file_open s" "spsc_inv kQueueSize q'"
    and "queued s = ev # spsc_contents kQueueSize q'"
    and "lqueue t = q'" "accepted t = accepted s" "rows t = rows s" "\<not> file_open t" "wpc t \<noteq> W_start"
  shows "history_inv t"
proof -
  obtain taken where "accepted s = taken @ queued s" using assms(1) by (auto simp: history_inv_def)
  then show ?thesis
    unfolding history_inv_def using assms by (auto simp: history_inv_def intro!: exI [of _ "taken @ [ev]"])
qed

lemma maybe_flush_frame:
  "lqueue (maybe_flush now s) = lqueue s" "accepted (maybe_flush now s) = accepted s"
  "rows (maybe_flush now s) = rows s" "file_open (maybe_flush now s) = file_open s"
  "wpc (maybe_flush now s) = wpc s" "lrunning (maybe_flush now s) = lrunning s"
  by (simp_all add: maybe_flush_def Let_def)

lemma maybe_flush_bound:
  assumes "wpc s = W_loop" "file_open s" "since_flush s \<le> 1000"
    and "length (rows s) \<le> flushed_rows s + unat (since_flush s) + 1"
  shows "flush_inv (maybe_flush now s)"
  using assms by (auto simp: flush_inv_def maybe_flush_def Let_def)

lemma next_event_count:
  assumes "since_flush s < 1000"
  shows "since_flush s + 1 \<le> 1000" "unat (since_flush s + 1) = unat (since_flush s) + 1"
proof -
  have lt: "unat (since_flush s) < 1000" using assms by (simp add: word_less_nat_alt)
  then show n: "unat (since_flush s + 1) = unat (since_flush s) + 1" by (simp add: unat_plus_if')
  show "since_flush s + 1 \<le> 1000" using lt by (simp add: word_le_nat_alt n)
qed

lemma worker_pop_inv:
  assumes "logger_inv s" "wpc s = W_pop"
  shows "\<exists>t. worker_step opens now s = Some t \<and> logger_inv t"
proof -
  have inv: "history_inv s" "spsc_inv kQueueSize (lqueue s)" "file_open s" "since_flush s < 1000"
    "length (rows s) \<le> flushed_rows s + unat (since_flush s) + 1"
    using assms by (auto simp: logger_inv_def history_inv_def flush_inv_def)
  from inv(2) show ?thesis
  proof (rule log_ring.pop_cases)
    assume "spsc_pop kQueueSize (lqueue s) = (Pop_empty, lqueue s)"
    then have t: "worker_step opens now s = Some (maybe_flush now (s\<lparr>wpc := W_loop\<rparr>))"
      using assms(2) by (simp add: worker_step_def)
    have "flush_inv (maybe_flush now (s\<lparr>wpc := W_loop\<rparr>))"
      using inv by (intro maybe_flush_bound) simp_all
    moreover have "history_inv (maybe_flush now (s\<lparr>wpc := W_loop\<rparr>))"
      using inv(1) by (rule history_frame) (simp_all add: maybe_flush_frame)
    ultimately show ?thesis using t by (simp add: logger_inv_def)
  next
    fix ev q'
    assume pop: "spsc_pop kQueueSize (lqueue s) = (Pop_item ev, q')" "spsc_inv kQueueSize q'"
      "queued s = ev # spsc_contents kQueueSize q'"
    have "wpc s \<noteq> W_start" using assms(2) by simp
    then obtain row where row: "csv_line ev = Some row"
      "\<And>t. lqueue t = q' \<Longrightarrow> accepted t = accepted s \<Longrightarrow> rows t = rows s @ [row] \<Longrightarrow>
        file_open t \<Longrightarrow> wpc t \<noteq> W_start \<Longrightarrow> history_inv t"
      using history_write [OF inv(1) _ inv(3) pop(2,3)] by blast
    define s' where "s' = s\<lparr>lqueue := q', rows := rows s @ [row], since_flush := since_flush s + 1, wpc := W_loop\<rparr>"
    have t: "worker_step opens now s = Some (maybe_flush now s')"
      using assms(2) pop(1) row(1) by (simp add: worker_step_def write_row_def s'_def)
    have "flush_inv (maybe_flush now s')"
      using inv next_event_count [OF inv(4)] by (intro maybe_flush_bound) (simp_all add: s'_def)
    moreover have "history_inv (maybe_flush now s')"
      by (rule row(2)) (simp_all add: maybe_flush_frame s'_def inv(3))
    ultimately show ?thesis using t by (simp add: logger_inv_def)
  qed
qed

lemma worker_drain_inv:
  assumes "logger_inv s" "wpc s = W_drain"
  shows "\<exists>t. worker_step opens now s = Some t \<and> logger_inv t"
proof -
  have inv: "history_inv s" "spsc_inv kQueueSize (lqueue s)" "file_open s" "\<not> lrunning s"
    using assms by (auto simp: logger_inv_def history_inv_def flush_inv_def)
  from inv(2) show ?thesis
  proof (rule log_ring.pop_cases)
    assume empty: "spsc_pop kQueueSize (lqueue s) = (Pop_empty, lqueue s)" "queued s = []"
    let ?t = "s\<lparr>flushed_rows := length (rows s), wpc := W_done\<rparr>"
    have "worker_step opens now s = Some ?t" using assms(2) empty by (simp add: worker_step_def)
    moreover have "history_inv ?t" using inv(1) by (rule history_frame) simp_all
    moreover have "flush_inv ?t" using inv empty by (simp add: flush_inv_def)
    ultimately show ?thesis by (simp add: logger_inv_def)
  next
    fix ev q'
    assume pop: "spsc_pop kQueueSize (lqueue s) = (Pop_item ev, q')" "spsc_inv kQueueSize q'"
      "queued s = ev # spsc_contents kQueueSize q'"
    have "wpc s \<noteq> W_start" using assms(2) by simp
    then obtain row where row: "csv_line ev = Some row"
      "\<And>t. lqueue t = q' \<Longrightarrow> accepted t = accepted s \<Longrightarrow> rows t = rows s @ [row] \<Longrightarrow>
        file_open t \<Longrightarrow> wpc t \<noteq> W_start \<Longrightarrow> history_inv t"
      using history_write [OF inv(1) _ inv(3) pop(2,3)] by blast
    let ?t = "s\<lparr>lqueue := q', rows := rows s @ [row]\<rparr>"
    have "worker_step opens now s = Some ?t" using assms(2) pop(1) row(1) by (simp add: worker_step_def write_row_def)
    moreover have "history_inv ?t" by (rule row(2)) (simp_all add: assms(2) inv(3))
    moreover have "flush_inv ?t" using inv assms(2) by (simp add: flush_inv_def)
    ultimately show ?thesis by (simp add: logger_inv_def)
  qed
qed

lemma worker_noio_inv:
  assumes "logger_inv s" "wpc s = W_noio_pop \<or> wpc s = W_noio_drain"
  shows "\<exists>t. worker_step opens now s = Some t \<and> logger_inv t"
proof -
  have inv: "history_inv s" "spsc_inv kQueueSize (lqueue s)" "\<not> file_open s" "flush_inv s" "wpc s \<noteq> W_start"
    using assms by (auto simp: logger_inv_def history_inv_def flush_inv_def)
  have r: "rows s = []" using inv(1,3) by (auto simp: history_inv_def)
  from inv(2) show ?thesis
  proof (rule log_ring.pop_cases)
    assume empty: "spsc_pop kQueueSize (lqueue s) = (Pop_empty, lqueue s)" "queued s = []"
    let ?t = "s\<lparr>wpc := if wpc s = W_noio_pop then W_noio_loop else W_done\<rparr>"
    have "worker_step opens now s = Some ?t" using assms(2) empty by (auto simp: worker_step_def)
    moreover have "history_inv ?t" using inv(1) by (rule history_frame) simp_all
    moreover have "flush_inv ?t" using inv empty assms(2) r by (auto simp: flush_inv_def)
    ultimately show ?thesis by (simp add: logger_inv_def)
  next
    fix ev q'
    assume pop: "spsc_pop kQueueSize (lqueue s) = (Pop_item ev, q')" "spsc_inv kQueueSize q'"
      "queued s = ev # spsc_contents kQueueSize q'"
    let ?t = "s\<lparr>lqueue := q', wpc := if wpc s = W_noio_pop then W_noio_loop else W_noio_drain\<rparr>"
    have "worker_step opens now s = Some ?t" using assms(2) pop(1) by (auto simp: worker_step_def)
    moreover have "history_inv ?t" by (rule history_discard [OF inv(1,5,3) pop(2,3)]) (simp_all add: inv)
    moreover have "flush_inv ?t" using inv assms(2) by (auto simp: flush_inv_def)
    ultimately show ?thesis by (simp add: logger_inv_def)
  qed
qed

lemma worker_step_inv:
  assumes "logger_inv s"
  shows "\<exists>t. worker_step opens now s = Some t \<and> logger_inv t"
proof (cases "wpc s")
  case W_start
  then show ?thesis using assms
    by (auto simp: worker_step_def logger_inv_def history_inv_def flush_inv_def)
next
  case W_loop
  then show ?thesis using assms
    by (auto simp: worker_step_def logger_inv_def history_inv_def flush_inv_def)
next
  case W_noio_loop
  then show ?thesis using assms
    by (auto simp: worker_step_def logger_inv_def history_inv_def flush_inv_def)
next
  case W_done
  then show ?thesis using assms by (simp add: worker_step_def)
qed (use assms worker_pop_inv worker_drain_inv worker_noio_inv in blast)+

lemma logger_step_inv: "logger_step s t \<Longrightarrow> logger_inv s \<Longrightarrow> logger_inv t"
proof (induction rule: logger_step.induct)
  case (worker opens now s t)
  then show ?case using worker_step_inv [of s opens now] by auto
qed (auto intro!: push_event_inv request_shutdown_inv
    simp: terminated_def terminated_make_event terminated_strategy_event)

lemma logger_reachable_inv: "logger_reachable s \<Longrightarrow> logger_inv s"
  by (induction rule: logger_reachable.induct) (auto intro: logger_inv_init logger_step_inv)

section \<open>Shutdown\<close>

fun run_worker :: "(bool \<times> int) list \<Rightarrow> logger_sys \<Rightarrow> logger_sys option" where
  "run_worker [] s = Some s"
| "run_worker ((opens, now) # env) s =
     (case worker_step opens now s of None \<Rightarrow> None | Some t \<Rightarrow> run_worker env t)"

text \<open>How many more steps the worker takes once shutdown has been requested.\<close>

definition steps_left :: "logger_sys \<Rightarrow> nat" where
  "steps_left s = (case wpc s of
      W_done \<Rightarrow> 0
    | W_drain \<Rightarrow> length (queued s) + 1
    | W_noio_drain \<Rightarrow> length (queued s) + 1
    | W_loop \<Rightarrow> length (queued s) + 2
    | W_noio_loop \<Rightarrow> length (queued s) + 2
    | _ \<Rightarrow> length (queued s) + 3)"

lemma pop_shrinks:
  assumes "logger_inv s"
  shows "fst (spsc_pop kQueueSize (lqueue s)) \<noteq> Pop_undefined"
    "fst (spsc_pop kQueueSize (lqueue s)) = Pop_empty \<Longrightarrow>
       queued s = [] \<and> spsc_contents kQueueSize (snd (spsc_pop kQueueSize (lqueue s))) = []"
    "fst (spsc_pop kQueueSize (lqueue s)) = Pop_item ev \<Longrightarrow>
       length (queued s) = Suc (length (spsc_contents kQueueSize (snd (spsc_pop kQueueSize (lqueue s)))))"
proof -
  have inv: "spsc_inv kQueueSize (lqueue s)" using assms by (simp add: logger_inv_def history_inv_def)
  show "fst (spsc_pop kQueueSize (lqueue s)) \<noteq> Pop_undefined" using inv by (rule log_ring.pop_defined)
  show "fst (spsc_pop kQueueSize (lqueue s)) = Pop_empty \<Longrightarrow>
       queued s = [] \<and> spsc_contents kQueueSize (snd (spsc_pop kQueueSize (lqueue s))) = []"
    by (rule log_ring.pop_cases [OF inv]) simp_all
  show "fst (spsc_pop kQueueSize (lqueue s)) = Pop_item ev \<Longrightarrow>
       length (queued s) = Suc (length (spsc_contents kQueueSize (snd (spsc_pop kQueueSize (lqueue s)))))"
    by (rule log_ring.pop_cases [OF inv]) simp_all
qed

lemma worker_progress:
  assumes "logger_inv s" "\<not> lrunning s" "worker_step opens now s = Some t"
  shows "\<not> lrunning t \<and> steps_left t \<le> steps_left s - 1"
proof -
  obtain r q where pop: "spsc_pop kQueueSize (lqueue s) = (r, q)" by fastforce
  note shrink = pop_shrinks [OF assms(1), unfolded pop]
  show ?thesis
    using assms(2,3) shrink
    by (cases "wpc s"; cases r)
      (auto simp: worker_step_def pop steps_left_def maybe_flush_frame write_row_def split: if_splits)
qed

lemma run_worker_done:
  "logger_inv s \<Longrightarrow> \<not> lrunning s \<Longrightarrow> steps_left s \<le> length env \<Longrightarrow>
   \<exists>t. run_worker env s = Some t \<and> wpc t = W_done \<and> logger_inv t \<and> accepted t = accepted s \<and>
     file_open t = (if wpc s = W_start then fst (env ! 0) else file_open s)"
proof (induction env arbitrary: s)
  case Nil
  then have "wpc s = W_done" by (auto simp: steps_left_def split: worker_pc.splits)
  then show ?case using Nil.prems(1) by simp
next
  case (Cons e env)
  obtain opens now where e: "e = (opens, now)" by (cases e)
  obtain t where t: "worker_step opens now s = Some t" "logger_inv t"
    using worker_step_inv [OF Cons.prems(1)] by blast
  have p: "\<not> lrunning t" "steps_left t \<le> length env"
    using worker_progress [OF Cons.prems(1,2) t(1)] Cons.prems(3) by auto
  have frame: "accepted t = accepted s" "wpc t \<noteq> W_start"
    "file_open t = (if wpc s = W_start then opens else file_open s)"
    using t(1) Cons.prems(1) by (auto simp: worker_step_def write_row_def maybe_flush_frame logger_inv_def flush_inv_def
        split: worker_pc.splits prod.splits pop_result.splits if_splits)
  then show ?case using Cons.IH [OF t(2) p] by (auto simp: e t(1))
qed

lemma done_file:
  assumes "logger_inv s" "wpc s = W_done"
  shows "if file_open s then map Some (rows s) = Some Header # map csv_line (accepted s) else rows s = []"
    "flushed_rows s = length (rows s)" "queued s = []"
  using assms by (auto simp: logger_inv_def history_inv_def flush_inv_def)

section \<open>Properties\<close>

text \<open>
  C11: in every state that the producer, the worker and the destructor can reach, the accepted events are
  those already taken from the ring followed by those still in it, and when the file is open its rows are the header
  and one row per taken event, in order, none skipped, repeated or torn.
\<close>
theorem rows_are_the_accepted_events:
  assumes "logger_reachable s"
  shows "\<exists>taken. accepted s = taken @ queued s \<and>
    (if file_open s then map Some (rows s) = Some Header # map csv_line taken else rows s = [])"
  using logger_reachable_inv [OF assms] unfolding logger_inv_def history_inv_def by blast

theorem rows_are_the_accepted_events_witness:
  "\<exists>taken. accepted (push_event (make_event 1 CHR ''T'' (f64_lit 0) 10 (f64_lit 0) 2) logger_init) =
     taken @ queued (push_event (make_event 1 CHR ''T'' (f64_lit 0) 10 (f64_lit 0) 2) logger_init)"
proof -
  have "logger_step logger_init (push_event (make_event 1 CHR ''T'' (f64_lit 0) 10 (f64_lit 0) 2) logger_init)"
    by (rule logger_step.log) (simp add: logger_init_def)
  then have "logger_reachable (push_event (make_event 1 CHR ''T'' (f64_lit 0) 10 (f64_lit 0) 2) logger_init)"
    by (rule logger_reachable.step [OF logger_reachable.start])
  from rows_are_the_accepted_events [OF this] show ?thesis by blast
qed

text \<open>
  C12: once the destructor has cleared \<open>running_\<close>, the worker ends after at most one step per
  queued event and three more, wherever it is, whatever the clock says and whether or not the file
  could be opened, with the ring empty. The file is the one it already had, or, for a worker that has
  not begun, whatever the open at its first step gives. With a file, what has been streamed is the
  header and a row for every event ever accepted, in order, all of it flushed; without one, nothing.
\<close>
theorem shutdown_writes_everything:
  assumes "logger_reachable s" "\<not> lrunning s" "length (queued s) + 3 \<le> length env"
  shows "\<exists>t. run_worker env s = Some t \<and> wpc t = W_done \<and> queued t = [] \<and> accepted t = accepted s \<and>
    file_open t = (if wpc s = W_start then fst (env ! 0) else file_open s) \<and>
    (if file_open t then map Some (rows t) = Some Header # map csv_line (accepted s) else rows t = []) \<and>
    flushed_rows t = length (rows t)"
proof -
  have "steps_left s \<le> length env"
    using assms(3) by (auto simp: steps_left_def split: worker_pc.splits)
  from run_worker_done [OF logger_reachable_inv [OF assms(1)] assms(2) this] obtain t where t:
    "run_worker env s = Some t" "wpc t = W_done" "logger_inv t" "accepted t = accepted s"
    "file_open t = (if wpc s = W_start then fst (env ! 0) else file_open s)"
    by blast
  show ?thesis by (rule exI [of _ t]) (use t done_file [OF t(3,2)] in simp)
qed

theorem shutdown_writes_everything_witness:
  "\<exists>t. run_worker (replicate 4 (True, 0))
      (request_shutdown (push_event (strategy_event ''ofi'') (logger_init\<lparr>wpc := W_loop, rows := [Header], file_open := True\<rparr>))) = Some t \<and>
    rows t = [Header, Row 0 CHR ''M'' (f64_lit 0) 0 (f64_lit 0) 0 ''ofi'']"
proof -
  let ?ev = "strategy_event ''ofi''"
  let ?up = "logger_init\<lparr>wpc := W_loop, rows := [Header], file_open := True\<rparr>"
  let ?s = "request_shutdown (push_event ?ev ?up)"
  have "logger_step logger_init ?up"
    using logger_step.worker [of True 0 logger_init] by (simp add: worker_step_def logger_init_def)
  then have "logger_reachable ?up" by (rule logger_reachable.step [OF logger_reachable.start])
  moreover have "logger_step ?up (push_event ?ev ?up)" by (rule logger_step.label) (simp add: logger_init_def)
  ultimately have "logger_reachable (push_event ?ev ?up)" by (rule logger_reachable.step)
  then have reach: "logger_reachable ?s" by (rule logger_reachable.step) (rule logger_step.shutdown)
  have room: "spsc_inv kQueueSize (lqueue logger_init)" "queued logger_init = []"
    using spsc_inv_init [OF log_ring.static_assert, where 'a = LogEvent]
      spsc_contents_init [of kQueueSize, where 'a = LogEvent] by (simp_all add: logger_init_def)
  have q: "length (queued logger_init) < unat kQueueSize" unfolding room by (simp add: kQueueSize_def)
  obtain q' where q': "spsc_push kQueueSize ?ev (lqueue logger_init) = (True, q')" "spsc_contents kQueueSize q' = [?ev]"
    using log_ring.push_room [OF room(1) q] room(2) by fastforce
  have s: "accepted ?s = [?ev]" "queued ?s = [?ev]" "\<not> lrunning ?s" "wpc ?s = W_loop" "file_open ?s"
    using q' by (simp_all add: request_shutdown_def push_event_def) (simp_all add: logger_init_def)
  have line: "csv_line ?ev = Some (Row 0 CHR ''M'' (f64_lit 0) 0 (f64_lit 0) 0 ''ofi'')"
    by (simp add: csv_line_def c_string_def strategy_event_label)
      (simp add: strategy_event_def zero_event_def Let_def)
  obtain t where "run_worker (replicate 4 (True, 0)) ?s = Some t" "file_open t"
      "if file_open t then map Some (rows t) = Some Header # map csv_line (accepted ?s) else rows t = []"
    using shutdown_writes_everything [OF reach, of "replicate 4 (True, 0)"] s by auto
  then show ?thesis by (intro exI [of _ t]) (auto simp: s(1) line)
qed

text \<open>
  While the logger runs, at most one thousand rows, the header included, have been streamed but not yet flushed.
\<close>
theorem flush_lag_is_bounded:
  assumes "logger_reachable s" "wpc s = W_loop \<or> wpc s = W_pop"
  shows "length (rows s) \<le> flushed_rows s + 1000"
proof -
  have "since_flush s < 1000" "length (rows s) \<le> flushed_rows s + unat (since_flush s) + 1"
    using logger_reachable_inv [OF assms(1)] assms(2) by (auto simp: logger_inv_def flush_inv_def)
  then show ?thesis by (simp add: word_less_nat_alt)
qed

theorem flush_lag_is_bounded_witness:
  "let s = logger_init\<lparr>wpc := W_loop, rows := [Header], file_open := True\<rparr> in length (rows s) \<le> flushed_rows s + 1000"
proof -
  let ?up = "logger_init\<lparr>wpc := W_loop, rows := [Header], file_open := True\<rparr>"
  have "logger_step logger_init ?up"
    using logger_step.worker [of True 0 logger_init] by (simp add: worker_step_def logger_init_def)
  then have "logger_reachable ?up" by (rule logger_reachable.step [OF logger_reachable.start])
  from flush_lag_is_bounded [OF this] show ?thesis by (simp add: Let_def)
qed

text \<open>
  C40: the strategy label that is written for an event is the strategy name cut to 15 characters (and at its first
  NUL): the copy loop stays inside the 16 bytes and the terminator is always there.
\<close>
theorem label_is_a_c_string:
  "length (strategy (strategy_event name)) = 16 \<and>
   c_string (strategy (strategy_event name)) = Some (takeWhile (\<lambda>c. c \<noteq> NUL) (take 15 name))"
proof -
  have "takeWhile (\<lambda>c. c \<noteq> NUL) (xs @ replicate (Suc k) NUL) = takeWhile (\<lambda>c. c \<noteq> NUL) xs" for xs k
    by (induction xs) simp_all
  moreover have "16 - length (take 15 name) = Suc (15 - length (take 15 name))" by simp
  ultimately show ?thesis
    by (simp only: strategy_event_label c_string_def) simp
qed

end
