(* ===== verification/EngineConfig.thy ===== *)
theory EngineConfig
  imports SpscQueue
begin

text \<open>
  The constant of \<open>include/engine_config.hpp\<close>, the capacity of the ring between the network thread and the strategy thread,
  and the properties of a ring of that size.
\<close>

definition kTickQueueSize :: u64 where
  "kTickQueueSize = 65536"

interpretation tick_ring: ring_size kTickQueueSize
  by unfold_locales (simp add: valid_size_def kTickQueueSize_def)

lemma valid_tick_queue: "valid_size kTickQueueSize"
  by (rule tick_ring.static_assert)

lemma unat_kTickQueueSize: "unat kTickQueueSize = 65536"
  by (simp add: kTickQueueSize_def)

end
