(* ===== verification/StrategyEngine.thy ===== *)
theory StrategyEngine
  imports AlphaSignals PositionManager AsyncLogger EngineConfig "HOL-Library.Sublist"
begin

text \<open>
  The strategy thread, \<open>include/strategy_engine.hpp\<close> and \<open>src/strategy_engine.cpp\<close>: the choice of signals, the
  processing of one tick, and the polling loop between the tick ring and the log ring.

  \<open>process_tick\<close> is the body of the loop after a successful pop. It returns the new state and the events
  handed to \<open>AsyncLogger::log_event\<close>, in order (the engine ignores the results of these calls), or \<open>None\<close> when the position
  overflows. The clock is a sequence of readings, \<open>clock_reads\<close> the number of readings taken.
\<close>

datatype strategy_selection = Momentum | Ofi | Both

datatype signal = Momentum_signal momentum_alpha | Ofi_signal ofi_alpha

record engine =
  ebook :: limit_order_book
  epm :: position_manager
  signals :: "signal list"
  emitted_initial_p :: bool
  ticks_processed :: u64
  clock_reads :: nat

definition kTradeThreshold :: f64 where
  "kTradeThreshold = f64_lit (60 / 100)"

definition kDefaultTradeSize :: int where
  "kDefaultTradeSize = 10"

definition cents_to_price :: "u8 \<Rightarrow> f64" where
  "cents_to_price price_cents = u8_f64 price_cents / f64_lit 100"

definition make_signals :: "strategy_selection \<Rightarrow> signal list" where
  "make_signals selection =
     (case selection of
        Momentum \<Rightarrow> [Momentum_signal momentum_init]
      | Ofi \<Rightarrow> [Ofi_signal ofi_init]
      | Both \<Rightarrow> [Momentum_signal momentum_init, Ofi_signal ofi_init])"

definition engine_init :: "strategy_selection \<Rightarrow> engine" where
  "engine_init selection =
     \<lparr>ebook = empty_book, epm = pm_init, signals = make_signals selection, emitted_initial_p = False,
      ticks_processed = 0, clock_reads = 0\<rparr>"

section \<open>One tick\<close>

fun signal_update :: "limit_order_book \<Rightarrow> market_tick \<Rightarrow> signal \<Rightarrow> f64 \<times> signal" where
  "signal_update book tick (Momentum_signal m) = map_prod id Momentum_signal (momentum_update book tick m)"
| "signal_update book tick (Ofi_signal a) = map_prod id Ofi_signal (ofi_update book tick a)"

fun update_signals :: "limit_order_book \<Rightarrow> market_tick \<Rightarrow> f64 \<Rightarrow> signal list \<Rightarrow> f64 \<times> signal list" where
  "update_signals book tick score_sum [] = (score_sum, [])"
| "update_signals book tick score_sum (s # ss) =
     (let (score, s') = signal_update book tick s;
          (total, ss') = update_signals book tick (score_sum + score) ss
      in (total, s' # ss'))"

definition combine_scores :: "f64 \<Rightarrow> nat \<Rightarrow> f64" where
  "combine_scores score_sum n = (if n = 0 then f64_lit 0 else score_sum / f64_of_int (int n))"

definition trade_decision :: "f64 \<Rightarrow> u8 \<Rightarrow> u8 \<Rightarrow> int \<times> f64" where
  "trade_decision combined_score best_bid best_ask =
     (if kTradeThreshold \<le> combined_score then (kDefaultTradeSize, cents_to_price best_ask)
      else if combined_score \<le> - kTradeThreshold then (- kDefaultTradeSize, cents_to_price best_bid)
      else (0, f64_lit 0))"

definition now_us :: "(nat \<Rightarrow> u64) \<Rightarrow> engine \<Rightarrow> u64 \<times> engine" where
  "now_us clk e = (clk (clock_reads e), e\<lparr>clock_reads := Suc (clock_reads e)\<rparr>)"

definition mid_price :: "u8 \<Rightarrow> u8 \<Rightarrow> f64" where
  "mid_price best_bid best_ask =
     (cents_to_price best_bid + cents_to_price best_ask) * f64_lit (1 / 2)"

definition report_pnl :: "(nat \<Rightarrow> u64) \<Rightarrow> u64 \<Rightarrow> u8 \<Rightarrow> u8 \<Rightarrow> engine \<Rightarrow> engine \<times> LogEvent list" where
  "report_pnl clk tick_start_us best_bid best_ask e =
     (let mid = mid_price best_bid best_ask;
          equity_pnl = realized_pnl (epm e) + get_unrealized_pnl (epm e) mid;
          (now, e) = now_us clk e;
          latency = now - tick_start_us;
          (timestamp, e) = now_us clk e
      in (e, [make_event timestamp CHR ''P'' mid (position_size (epm e)) equity_pnl latency]))"

definition execute_trade :: "(nat \<Rightarrow> u64) \<Rightarrow> u64 \<Rightarrow> int \<times> f64 \<Rightarrow> engine \<Rightarrow> (engine \<times> LogEvent list) option" where
  "execute_trade clk tick_start_us decision e =
     (let (fill_size, fill_price) = decision
      in if fill_size \<noteq> 0
         then do {
           pm \<leftarrow> add_fill fill_size fill_price (epm e);
           let e = e\<lparr>epm := pm\<rparr>;
           let (now, e) = now_us clk e;
           let latency = now - tick_start_us;
           let (timestamp, e) = now_us clk e;
           Some (e, [make_event timestamp CHR ''T'' fill_price fill_size (realized_pnl pm) latency])
         }
         else Some (e, []))"

definition initial_report :: "(nat \<Rightarrow> u64) \<Rightarrow> u64 \<Rightarrow> u8 \<Rightarrow> u8 \<Rightarrow> engine \<Rightarrow> engine \<times> LogEvent list" where
  "initial_report clk tick_start_us best_bid best_ask e =
     (if \<not> emitted_initial_p e
      then let (e, p) = report_pnl clk tick_start_us best_bid best_ask e
           in (e\<lparr>emitted_initial_p := True\<rparr>, p)
      else (e, []))"

definition score_signals :: "market_tick \<Rightarrow> engine \<Rightarrow> f64 \<times> engine" where
  "score_signals tick e =
     (let n = length (signals e);
          (score_sum, ss) = update_signals (ebook e) tick (f64_lit 0) (signals e)
      in (combine_scores score_sum n, e\<lparr>signals := ss\<rparr>))"

definition periodic_report :: "(nat \<Rightarrow> u64) \<Rightarrow> u64 \<Rightarrow> u8 \<Rightarrow> u8 \<Rightarrow> engine \<Rightarrow> engine \<times> LogEvent list" where
  "periodic_report clk tick_start_us best_bid best_ask e =
     (if ticks_processed e mod 1000 = 0 then report_pnl clk tick_start_us best_bid best_ask e
      else (e, []))"

definition process_tick :: "(nat \<Rightarrow> u64) \<Rightarrow> market_tick \<Rightarrow> engine \<Rightarrow> (engine \<times> LogEvent list) option" where
  "process_tick clk tick e =
     (let (tick_start_us, e) = now_us clk e;
          e = e\<lparr>ticks_processed := ticks_processed e + 1\<rparr>;
          e = e\<lparr>ebook := apply_tick tick (ebook e)\<rparr>;
          best_bid = get_best_bid (ebook e);
          best_ask = get_best_ask (ebook e)
      in if best_bid = kNoBid \<or> best_ask = kNoAsk then Some (e, [])
         else
           let denom = get_bid_size (ebook e) best_bid + get_ask_size (ebook e) best_ask
           in if denom = 0 then Some (e, [])
              else do {
                let (e, initial_p) = initial_report clk tick_start_us best_bid best_ask e;
                let (combined_score, e) = score_signals tick e;
                (e, trade) \<leftarrow>
                  execute_trade clk tick_start_us (trade_decision combined_score best_bid best_ask) e;
                let (e, periodic_p) = periodic_report clk tick_start_us best_bid best_ask e;
                Some (e, initial_p @ trade @ periodic_p)
              })"

section \<open>The polling loop\<close>

fun run_ticks :: "(nat \<Rightarrow> u64) \<Rightarrow> market_tick list \<Rightarrow> engine \<Rightarrow> (engine \<times> LogEvent list) option" where
  "run_ticks clk [] e = Some (e, [])"
| "run_ticks clk (t # ts) e =
     do {
       (e, evs) \<leftarrow> process_tick clk t e;
       (e, evs') \<leftarrow> run_ticks clk ts e;
       Some (e, evs @ evs')
     }"

record strategy_sys =
  tick_queue :: "market_tick spsc"
  log_queue :: "LogEvent spsc"
  eng :: engine
  erunning :: bool
  offered_ticks :: "market_tick list"
  processed_ticks :: "market_tick list"
  emitted_events :: "LogEvent list"

datatype engine_action =
    Produce market_tick
  | Drain_log
  | Iterate
  | Stop

definition strategy_init :: "strategy_selection \<Rightarrow> strategy_sys" where
  "strategy_init selection =
     \<lparr>tick_queue = spsc_init kTickQueueSize, log_queue = spsc_init kQueueSize, eng = engine_init selection,
      erunning = True, offered_ticks = [], processed_ticks = [], emitted_events = []\<rparr>"

text \<open>
  One action of the system around \<open>StrategyEngine::run\<close>: the parser pushes a tick, the logger pops an event, the loop
  makes one iteration (its test of \<open>running_\<close>, its pop and its body), or the main thread calls \<open>stop\<close>. The last three members
  of the state are histories.
\<close>

definition perform :: "(nat \<Rightarrow> u64) \<Rightarrow> engine_action \<Rightarrow> strategy_sys \<Rightarrow> strategy_sys option" where
  "perform clk a s =
     (case a of
        Produce t \<Rightarrow>
          (let (ok, q) = spsc_push kTickQueueSize t (tick_queue s)
           in Some (s\<lparr>tick_queue := q, offered_ticks := (if ok then offered_ticks s @ [t] else offered_ticks s)\<rparr>))
      | Drain_log \<Rightarrow> Some (s\<lparr>log_queue := snd (spsc_pop kQueueSize (log_queue s))\<rparr>)
      | Stop \<Rightarrow> Some (s\<lparr>erunning := False\<rparr>)
      | Iterate \<Rightarrow>
          if \<not> erunning s then Some s
          else
            (case spsc_pop kTickQueueSize (tick_queue s) of
               (Pop_undefined, _) \<Rightarrow> None
             | (Pop_empty, q) \<Rightarrow> Some (s\<lparr>tick_queue := q\<rparr>)
             | (Pop_item t, q) \<Rightarrow>
                 do {
                   (e, evs) \<leftarrow> process_tick clk t (eng s);
                   Some (s\<lparr>tick_queue := q, log_queue := push_all (spsc_push kQueueSize) evs (log_queue s), eng := e,
                           processed_ticks := processed_ticks s @ [t],
                           emitted_events := emitted_events s @ evs\<rparr>)
                 }))"

fun run_actions :: "(nat \<Rightarrow> u64) \<Rightarrow> engine_action list \<Rightarrow> strategy_sys \<Rightarrow> strategy_sys option" where
  "run_actions clk [] s = Some s"
| "run_actions clk (a # as) s = perform clk a s \<bind> run_actions clk as"

section \<open>The body of the loop, case by case\<close>

definition tradable :: "limit_order_book \<Rightarrow> bool" where
  "tradable book \<longleftrightarrow> \<not> one_sided book \<and>
     get_bid_size book (get_best_bid book) + get_ask_size book (get_best_ask book) \<noteq> 0"

definition p_row :: "u64 \<Rightarrow> u64 \<Rightarrow> limit_order_book \<Rightarrow> position_manager \<Rightarrow> LogEvent" where
  "p_row timestamp latency book pm =
     (let mid = mid_price (get_best_bid book) (get_best_ask book)
      in make_event timestamp CHR ''P'' mid (position_size pm) (realized_pnl pm + get_unrealized_pnl pm mid) latency)"

definition t_row :: "u64 \<Rightarrow> u64 \<Rightarrow> int \<times> f64 \<Rightarrow> position_manager \<Rightarrow> LogEvent" where
  "t_row timestamp latency decision pm =
     make_event timestamp CHR ''T'' (snd decision) (fst decision) (realized_pnl pm) latency"

definition decision_on :: "limit_order_book \<Rightarrow> market_tick \<Rightarrow> signal list \<Rightarrow> int \<times> f64" where
  "decision_on book tick ss =
     trade_decision (combine_scores (fst (update_signals book tick (f64_lit 0) ss)) (length ss))
       (get_best_bid book) (get_best_ask book)"

lemma report_pnl_eq:
  "report_pnl clk t0 (get_best_bid book) (get_best_ask book) e =
     (e\<lparr>clock_reads := clock_reads e + 2\<rparr>,
      [p_row (clk (Suc (clock_reads e))) (clk (clock_reads e) - t0) book (epm e)])"
  by (simp add: report_pnl_def now_us_def p_row_def Let_def)

lemma initial_report_eq:
  obtains n ps where
    "initial_report clk t0 (get_best_bid book) (get_best_ask book) e =
       (e\<lparr>clock_reads := n, emitted_initial_p := True\<rparr>, ps)"
    "if emitted_initial_p e then ps = [] else \<exists>ts lat. ps = [p_row ts lat book (epm e)]"
proof (cases "emitted_initial_p e")
  case True
  then show ?thesis using that [of "clock_reads e" "[]"] by (cases e) (simp add: initial_report_def)
next
  case False
  then show ?thesis by (intro that [of "clock_reads e + 2"]) (auto simp: initial_report_def report_pnl_eq)
qed

lemma periodic_report_eq:
  obtains n ps where
    "periodic_report clk t0 (get_best_bid book) (get_best_ask book) e = (e\<lparr>clock_reads := n\<rparr>, ps)"
    "if ticks_processed e mod 1000 = 0 then \<exists>ts lat. ps = [p_row ts lat book (epm e)] else ps = []"
proof (cases "ticks_processed e mod 1000 = 0")
  case True
  then show ?thesis by (intro that [of "clock_reads e + 2"]) (auto simp: periodic_report_def report_pnl_eq)
next
  case False
  then show ?thesis using that [of "clock_reads e" "[]"] by (cases e) (simp add: periodic_report_def)
qed

lemma execute_trade_eq:
  "execute_trade clk t0 d e =
     (if fst d = 0 then Some (e, [])
      else map_option (\<lambda>pm. (e\<lparr>epm := pm, clock_reads := clock_reads e + 2\<rparr>,
        [t_row (clk (Suc (clock_reads e))) (clk (clock_reads e) - t0) d pm])) (add_fill (fst d) (snd d) (epm e)))"
  by (cases d; cases "add_fill (fst d) (snd d) (epm e)")
    (simp_all add: execute_trade_def now_us_def t_row_def Let_def)

lemma process_tick_idle:
  assumes "\<not> tradable (apply_tick tick (ebook e))"
  shows "process_tick clk tick e =
    Some (e\<lparr>ebook := apply_tick tick (ebook e), ticks_processed := ticks_processed e + 1,
            clock_reads := Suc (clock_reads e)\<rparr>, [])"
  using assms by (auto simp: process_tick_def tradable_def one_sided_def now_us_def Let_def)

text \<open>A tick on a tradable book: the new state and the three groups of events.\<close>

definition tick_effect :: "limit_order_book \<Rightarrow> int \<times> f64 \<Rightarrow> signal list \<Rightarrow> engine \<Rightarrow> engine \<times> LogEvent list \<Rightarrow> bool" where
  "tick_effect book d ss e = (\<lambda>(e', evs).
     ebook e' = book \<and> ticks_processed e' = ticks_processed e + 1 \<and> emitted_initial_p e' \<and> signals e' = ss \<and>
     (\<exists>initial trade periodic. evs = initial @ trade @ periodic \<and>
       (if emitted_initial_p e then initial = [] else \<exists>ts lat. initial = [p_row ts lat book (epm e)]) \<and>
       (if fst d = 0 then trade = [] \<and> epm e' = epm e
        else add_fill (fst d) (snd d) (epm e) = Some (epm e') \<and> (\<exists>ts lat. trade = [t_row ts lat d (epm e')])) \<and>
       (if (ticks_processed e + 1) mod 1000 = 0 then \<exists>ts lat. periodic = [p_row ts lat book (epm e')]
        else periodic = [])))"

lemma process_tick_tradable:
  assumes "tradable (apply_tick tick (ebook e))"
  defines "book \<equiv> apply_tick tick (ebook e)"
  defines "d \<equiv> decision_on book tick (signals e)"
  shows "if fst d \<noteq> 0 \<and> add_fill (fst d) (snd d) (epm e) = None then process_tick clk tick e = None
    else \<exists>r. process_tick clk tick e = Some r \<and>
      tick_effect book d (snd (update_signals book tick (f64_lit 0) (signals e))) e r"
proof -
  define t0 where "t0 = clk (clock_reads e)"
  define e1 where "e1 = e\<lparr>clock_reads := Suc (clock_reads e), ticks_processed := ticks_processed e + 1, ebook := book\<rparr>"
  obtain n1 initial where initial:
    "initial_report clk t0 (get_best_bid book) (get_best_ask book) e1 =
       (e1\<lparr>clock_reads := n1, emitted_initial_p := True\<rparr>, initial)"
    "if emitted_initial_p e1 then initial = [] else \<exists>ts lat. initial = [p_row ts lat book (epm e1)]"
    by (rule initial_report_eq)
  define ss where "ss = snd (update_signals book tick (f64_lit 0) (signals e))"
  define e2 where "e2 = e1\<lparr>clock_reads := n1, emitted_initial_p := True, signals := ss\<rparr>"
  have score: "score_signals tick (e1\<lparr>clock_reads := n1, emitted_initial_p := True\<rparr>) =
      (combine_scores (fst (update_signals book tick (f64_lit 0) (signals e))) (length (signals e)), e2)"
    by (simp add: score_signals_def e1_def e2_def ss_def case_prod_beta Let_def)
  have two: "\<not> (get_best_bid book = kNoBid \<or> get_best_ask book = kNoAsk)"
    "get_bid_size book (get_best_bid book) + get_ask_size book (get_best_ask book) \<noteq> 0"
    using assms(1) by (auto simp: tradable_def one_sided_def book_def)
  have eq: "process_tick clk tick e = execute_trade clk t0 d e2 \<bind> (\<lambda>(e3, trade).
      let (e4, periodic) = periodic_report clk t0 (get_best_bid book) (get_best_ask book) e3
      in Some (e4, initial @ trade @ periodic))"
    using two initial(1) score
    by (simp add: process_tick_def now_us_def d_def decision_on_def t0_def e1_def book_def Let_def)
  have pm2: "epm e2 = epm e" by (simp add: e2_def e1_def)
  show ?thesis
  proof (cases "fst d \<noteq> 0 \<and> add_fill (fst d) (snd d) (epm e) = None")
    case True
    then show ?thesis using eq by (simp add: execute_trade_eq pm2)
  next
    case False
    then obtain n3 pm trade where trade: "execute_trade clk t0 d e2 = Some (e2\<lparr>epm := pm, clock_reads := n3\<rparr>, trade)"
      "if fst d = 0 then trade = [] \<and> pm = epm e
       else add_fill (fst d) (snd d) (epm e) = Some pm \<and> (\<exists>ts lat. trade = [t_row ts lat d pm])"
    proof (cases "fst d = 0")
      case True
      then show ?thesis using that [of "clock_reads e2" "epm e" "[]"] pm2 by (cases e2) (simp add: execute_trade_eq)
    next
      case False
      then obtain pm where "add_fill (fst d) (snd d) (epm e) = Some pm"
        using \<open>\<not> (fst d \<noteq> 0 \<and> add_fill (fst d) (snd d) (epm e) = None)\<close> by auto
      then show ?thesis using False pm2
        by (intro that [of "clock_reads e2 + 2" pm]) (auto simp: execute_trade_eq)
    qed
    define e3 where "e3 = e2\<lparr>epm := pm, clock_reads := n3\<rparr>"
    obtain n4 periodic where periodic:
      "periodic_report clk t0 (get_best_bid book) (get_best_ask book) e3 = (e3\<lparr>clock_reads := n4\<rparr>, periodic)"
      "if ticks_processed e3 mod 1000 = 0 then \<exists>ts lat. periodic = [p_row ts lat book (epm e3)] else periodic = []"
      by (rule periodic_report_eq)
    have "process_tick clk tick e = Some (e3\<lparr>clock_reads := n4\<rparr>, initial @ trade @ periodic)"
      using eq trade(1) periodic(1) by (simp add: e3_def)
    moreover have "tick_effect book d ss e (e3\<lparr>clock_reads := n4\<rparr>, initial @ trade @ periodic)"
    proof -
      let ?e' = "e3\<lparr>clock_reads := n4\<rparr>"
      have e': "ebook ?e' = book" "ticks_processed ?e' = ticks_processed e + 1" "emitted_initial_p ?e'"
        "signals ?e' = ss" "epm ?e' = pm" "epm e1 = epm e" "emitted_initial_p e1 = emitted_initial_p e"
        "epm e3 = pm" "ticks_processed e3 = ticks_processed e + 1"
        by (simp_all add: e1_def e2_def e3_def)
      show ?thesis
        unfolding tick_effect_def prod.case e'
        using initial(2) [unfolded e'] trade(2) periodic(2) [unfolded e'] e'(3) by blast
    qed
    ultimately show ?thesis using False by (auto simp: ss_def)
  qed
qed

section \<open>Scores and decisions\<close>

fun signal_ok :: "signal \<Rightarrow> bool" where
  "signal_ok (Momentum_signal m) = momentum_ok m"
| "signal_ok (Ofi_signal a) = True"

interpretation engine_signal: alpha_signal signal_update signal_ok "Momentum_signal momentum_init"
proof unfold_locales
  show "signal_ok (Momentum_signal momentum_init)" by (simp add: momentum_ok_init)
  show "signal_ok (snd (signal_update book tick s))" if "signal_ok s" for book tick s
    using that by (cases s) (simp_all add: momentum_ok_update)
  show "unit_score (fst (signal_update book tick s))" if "signal_ok s" for book tick s
    using that momentum.score_unit [of _ book tick] by (cases s) (simp_all add: ofi_score_unit)
  show "fst (signal_update book tick s) = f64_lit 0" if "one_sided book" for book tick s
    using that by (cases s) (simp_all add: momentum_one_sided ofi_one_sided)
qed

lemma nat_as_f64:
  "n < 2 ^ 53 \<Longrightarrow> is_finite (f64_of_int (int n)) \<and> fval (f64_of_int (int n)) = of_nat n"
  using f64_of_int_finite [of "int n"] by simp

lemma add_unit_score:
  assumes "is_finite x" "\<bar>fval x\<bar> \<le> of_nat k" "unit_score y" "k < 2 ^ 30"
  shows "is_finite (x + y) \<and> \<bar>fval (x + y)\<bar> \<le> of_nat (Suc k)"
proof -
  have y: "is_finite y" "\<bar>fval y\<bar> \<le> 1" using assms(3) by (auto simp: unit_score_def)
  have r: "representable (of_nat (Suc k))"
    using assms(4) representable_of_int [of "int (Suc k)"] by simp
  have sum: "\<bar>fval x + fval y\<bar> \<le> of_nat (Suc k)" using assms(2) y(2) by simp
  have "(of_nat k :: rat) < 2 ^ 30" using assms(4) of_nat_less_iff [of k "2 ^ 30", where 'a = rat] by simp
  then have "\<bar>fval x + fval y\<bar> \<le> pow2 1023" using sum by (intro abs_big) simp
  then show ?thesis using f64_add_finite [OF assms(1) y(1)] rnds_bound [OF r sum] by simp
qed

lemma update_signals_bound:
  "list_all signal_ok ss \<Longrightarrow> is_finite x \<Longrightarrow> \<bar>fval x\<bar> \<le> of_nat k \<Longrightarrow> k + length ss < 2 ^ 30 \<Longrightarrow>
   is_finite (fst (update_signals book tick x ss)) \<and>
   \<bar>fval (fst (update_signals book tick x ss))\<bar> \<le> of_nat (k + length ss) \<and>
   list_all signal_ok (snd (update_signals book tick x ss)) \<and>
   length (snd (update_signals book tick x ss)) = length ss"
proof (induction ss arbitrary: x k)
  case (Cons s ss)
  obtain y s' where u: "signal_update book tick s = (y, s')" by fastforce
  have y: "unit_score y" "signal_ok s'"
    using engine_signal.score_unit [of s book tick] engine_signal.ok_update [of s book tick] Cons.prems(1) u by simp_all
  have "is_finite (x + y) \<and> \<bar>fval (x + y)\<bar> \<le> of_nat (Suc k)"
    using Cons.prems(2-4) y(1) by (intro add_unit_score) simp_all
  then show ?case
    using Cons.IH [of "x + y" "Suc k"] Cons.prems(1,4) y(2) by (simp add: u case_prod_beta Let_def)
qed simp

lemma combined_score_unit:
  assumes "list_all signal_ok ss" "length ss < 2 ^ 20"
  shows "unit_score (combine_scores (fst (update_signals book tick (f64_lit 0) ss)) (length ss))"
proof (cases "ss = []")
  case False
  define n where "n = length ss"
  define x where "x = fst (update_signals book tick (f64_lit 0) ss)"
  have n: "1 \<le> n" "n < 2 ^ 20" using False assms(2) by (simp_all add: n_def Suc_le_eq)
  have x: "is_finite x" "\<bar>fval x\<bar> \<le> of_nat n"
    using update_signals_bound [OF assms(1), of "f64_lit 0" 0 book tick] assms(2) by (simp_all add: n_def x_def)
  have f: "is_finite (f64_of_int (int n))" "fval (f64_of_int (int n)) = of_nat n"
    using nat_as_f64 [of n] n(2) by simp_all
  have N: "1 \<le> (of_nat n :: rat)" using n(1) by simp
  have "(of_nat n :: rat) < 2 ^ 20" using n(2) of_nat_less_iff [of n "2 ^ 20", where 'a = rat] by simp
  then have "\<bar>fval x\<bar> \<le> 2 ^ 50" using x(2) by simp
  then have q: "is_finite (x / f64_of_int (int n))" "fval (x / f64_of_int (int n)) = rnds (fval x / of_nat n)"
    using quotient_finite [OF x(1) f(1)] N by (simp_all add: f(2))
  have "\<bar>fval x / of_nat n\<bar> \<le> 1" using x(2) N by (simp add: divide_le_eq)
  then have "\<bar>rnds (fval x / of_nat n)\<bar> \<le> 1"
    using representable_of_int [of 1] by (intro rnds_bound) simp_all
  then show ?thesis
    using q False unfolding combine_scores_def n_def [symmetric] x_def [symmetric]
    by (auto simp: unit_score_def abs_le_iff n_def)
qed (simp add: combine_scores_def)

lemma cents_to_price_val:
  assumes "p \<le> kMaxPrice"
  shows "unit_price (cents_to_price p)" "fval (cents_to_price p) = rnds (of_int (uint p) / 100)"
proof -
  have h: "is_finite (f64_lit 100)" "fval (f64_lit 100) = 100"
    using f64_of_int_finite [of 100] by (simp_all add: f64_lit_def f64_of_int_def)
  have "uint p \<le> 100" using assms by (simp add: ladder_uint)
  then have p: "0 \<le> (of_int (uint p) :: rat)" "of_int (uint p) \<le> (100 :: rat)"
    using of_int_le_iff [of "uint p" 100, where 'a = rat] uint_u8_bounds(1) [of p]
      of_int_le_iff [of 0 "uint p", where 'a = rat] by (simp_all only: of_int_numeral of_int_0)
  have q: "0 \<le> of_int (uint p) / (100 :: rat)" "of_int (uint p) / (100 :: rat) \<le> 1"
    using p by (simp_all only: zero_le_divide_iff divide_le_eq) simp_all
  have "is_finite (cents_to_price p) \<and> fval (cents_to_price p) = rnds (fval (u8_f64 p) / fval (f64_lit 100))"
    unfolding cents_to_price_def using p h by (intro quotient_finite u8_f64_val(1)) (simp_all only: u8_f64_val abs_of_nonneg, simp_all)
  then have c: "is_finite (cents_to_price p)" "fval (cents_to_price p) = rnds (of_int (uint p) / 100)"
    by (simp_all only: u8_f64_val h)
  then show "fval (cents_to_price p) = rnds (of_int (uint p) / 100)" by blast
  have "0 \<le> rnds (of_int (uint p) / 100)" "rnds (of_int (uint p) / 100) \<le> 1"
    using q representable_of_int [of 1] by (auto intro: rnds_sgn rnds_upper simp del: of_int_uint)
  then show "unit_price (cents_to_price p)" using c by (simp add: unit_price_def)
qed

lemma threshold_val: "is_finite kTradeThreshold" "9 / 16 \<le> fval kTradeThreshold" "fval kTradeThreshold \<le> 5 / 8"
proof -
  have l: "is_finite kTradeThreshold" "fval kTradeThreshold = rnds (60 / 100)"
    unfolding kTradeThreshold_def by (rule unit_literal; simp)+
  have "representable (of_int 9 * pow2 (- 4))" by (rule representable_dyadic) simp_all
  then have r: "representable (9 / 16)" by (simp add: pow2_neg_numeral)
  have "representable (of_int 5 * pow2 (- 3))" by (rule representable_dyadic) simp_all
  then have s: "representable (5 / 8)" by (simp add: pow2_neg_numeral)
  show "is_finite kTradeThreshold" by (rule l)
  show "9 / 16 \<le> fval kTradeThreshold" unfolding l using r by (rule rnds_lower) simp
  show "fval kTradeThreshold \<le> 5 / 8" unfolding l using s by (rule rnds_upper) simp
qed

lemma trade_decision_cases:
  obtains "trade_decision x bid ask = (10, cents_to_price ask)" "kTradeThreshold \<le> x"
  | "trade_decision x bid ask = (- 10, cents_to_price bid)" "x \<le> - kTradeThreshold" "\<not> kTradeThreshold \<le> x"
  | "trade_decision x bid ask = (0, f64_lit 0)" "\<not> kTradeThreshold \<le> x" "\<not> x \<le> - kTradeThreshold"
  unfolding trade_decision_def kDefaultTradeSize_def by presburger

lemma quoted_prices:
  assumes "\<not> one_sided book"
  shows "get_best_bid book \<le> kMaxPrice" "get_best_ask book \<le> kMaxPrice"
  using best_bid_cases [of book] best_ask_cases [of book] assms by (auto simp: one_sided_def)

lemma decision_on_bounds:
  assumes "\<not> one_sided book"
  shows "fst (decision_on book tick ss) \<in> {0, 10, - 10}" "unit_price (snd (decision_on book tick ss))"
  using cents_to_price_val(1) [OF quoted_prices(1) [OF assms]] cents_to_price_val(1) [OF quoted_prices(2) [OF assms]]
  by (auto simp: decision_on_def trade_decision_def kDefaultTradeSize_def)

section \<open>Reconciling the books with the events\<close>

text \<open>What the trade events say was bought, and for how much.\<close>

definition traded_size :: "LogEvent list \<Rightarrow> int" where
  "traded_size evs = (\<Sum>ev\<leftarrow>evs. if event_type ev = CHR ''T'' then lsize ev else 0)"

definition traded_cash :: "LogEvent list \<Rightarrow> rat" where
  "traded_cash evs = (\<Sum>ev\<leftarrow>evs. if event_type ev = CHR ''T'' then - (of_int (lsize ev) * fval (lprice ev)) else 0)"

lemma traded_simps [simp]:
  "traded_size [] = 0" "traded_cash [] = 0"
  "traded_size (evs @ evs') = traded_size evs + traded_size evs'"
  "traded_cash (evs @ evs') = traded_cash evs + traded_cash evs'"
  "traded_size [p_row ts lat book pm] = 0" "traded_cash [p_row ts lat book pm] = 0"
  "traded_size [t_row ts lat d pm] = fst d" "traded_cash [t_row ts lat d pm] = - (of_int (fst d) * fval (snd d))"
  by (simp_all add: traded_size_def traded_cash_def p_row_def t_row_def make_event_def Let_def)

definition engine_ok :: "nat \<Rightarrow> engine \<Rightarrow> bool" where
  "engine_ok k e \<longleftrightarrow> wf_book (ebook e) \<and> pm_ok (epm e) \<and> \<bar>position_size (epm e)\<bar> \<le> 10 * int k \<and>
     \<bar>fval (realized_pnl (epm e))\<bar> \<le> of_int (10 * int k) \<and>
     list_all signal_ok (signals e) \<and> length (signals e) \<le> 2"

lemma engine_ok_init: "engine_ok 0 (engine_init sel)"
  using pm_ok_init
  by (cases sel) (simp_all add: engine_ok_def engine_init_def make_signals_def momentum_ok_init pm_init_def)

text \<open>The trade of one tick: it is defined, and the books follow it.\<close>

lemma fill_step:
  assumes "pm_ok pm" "\<bar>position_size pm\<bar> \<le> 10 * int k" "\<bar>fval (realized_pnl pm)\<bar> \<le> of_int (10 * int k)"
    and "k < 2 ^ 27" "n \<in> {0, 10, - 10}" "unit_price p"
  obtains pm' where "add_fill n p pm = Some pm'" "pm_ok pm'" "position_size pm' = position_size pm + n"
    "\<bar>position_size pm'\<bar> \<le> 10 * int (Suc k)" "\<bar>fval (realized_pnl pm')\<bar> \<le> of_int (10 * int (Suc k))"
    "\<bar>book_cash pm' - (book_cash pm - of_int n * fval p)\<bar> \<le> of_nat (20 * k + 10) * pow2 (- 50)"
proof -
  have n: "\<bar>n\<bar> \<le> 10" using assms(5) by auto
  have k: "10 * int k + 10 \<le> int_max" "10 * int k + 10 \<le> 2 ^ 40" using assms(4) by (simp_all add: int_max_def)
  have range: "\<bar>position_size pm\<bar> + \<bar>n\<bar> \<le> int_max" using assms(2) n k(1) by linarith
  obtain pm' where pm': "add_fill n p pm = Some pm'" using add_fill_defined [OF range] by blast
  have size: "position_size pm' = position_size pm + n" using pm' by (rule add_fill_size)
  have kn: "10 * int k + \<bar>n\<bar> \<le> 2 ^ 40" using n k(2) by linarith
  have K: "(of_int (10 * int k) :: rat) \<le> 2 ^ 40"
    using k(2) of_int_le_iff [of "10 * int k" "2 ^ 40", where 'a = rat] by simp
  have "(2 :: rat) ^ 40 = pow2 40" by (simp add: pow2_numeral)
  also have "\<dots> \<le> pow2 1000" by (simp only: pow2_le_iff)
  finally have "\<bar>fval (realized_pnl pm)\<bar> \<le> pow2 1000"
    by (intro order.trans [OF assms(3)] order.trans [OF K])
  from drift_step [OF assms(1,6) range this pm']
  have ok: "pm_ok pm'" and drift: "\<bar>book_cash pm' - (book_cash pm - of_int n * fval p)\<bar> \<le> drift_bound n pm"
    by blast+
  have "of_int (\<bar>position_size pm\<bar> + \<bar>n\<bar>) \<le> (of_int (10 * int k + 10) :: rat)"
    unfolding of_int_le_iff using assms(2) n by linarith
  then have "of_int \<bar>position_size pm\<bar> + of_int \<bar>n\<bar> + \<bar>fval (realized_pnl pm)\<bar> \<le> (of_nat (20 * k + 10) :: rat)"
    using assms(3) by simp
  then have "drift_bound n pm \<le> of_nat (20 * k + 10) * pow2 (- 50)"
    unfolding drift_bound_def by (intro mult_right_mono) simp_all
  with drift have drift': "\<bar>book_cash pm' - (book_cash pm - of_int n * fval p)\<bar> \<le> of_nat (20 * k + 10) * pow2 (- 50)"
    by (rule order.trans)
  have "\<bar>position_size pm'\<bar> \<le> 10 * int (Suc k)" using assms(2) n size by simp
  moreover have "\<bar>fval (realized_pnl pm')\<bar> \<le> of_int (10 * int (Suc k))"
  proof -
    have "(of_int (10 * int k + \<bar>n\<bar>) :: rat) \<le> of_int (10 * int (Suc k))"
      unfolding of_int_le_iff using n by simp
    with realized_bound [OF assms(1,6) range assms(3) kn pm'] show ?thesis by (rule order.trans)
  qed
  ultimately show thesis using that [OF pm' ok size _ _ drift'] by blast
qed

lemma engine_step:
  assumes "engine_ok k e" "k < 2 ^ 27"
  obtains e' evs where "process_tick clk t e = Some (e', evs)" "engine_ok (Suc k) e'"
    "position_size (epm e') = position_size (epm e) + traded_size evs"
    "\<bar>book_cash (epm e') - (book_cash (epm e) + traded_cash evs)\<bar> \<le> of_nat (20 * k + 10) * pow2 (- 50)"
    "ebook e' = apply_tick t (ebook e)"
proof (cases "tradable (apply_tick t (ebook e))")
  case False
  have "0 \<le> (of_nat (20 * k + 10) :: rat) * pow2 (- 50)" by simp
  then show ?thesis using that [OF process_tick_idle [OF False]] assms(1) by (simp add: engine_ok_def)
next
  case True
  let ?book = "apply_tick t (ebook e)"
  define d where "d = decision_on ?book t (signals e)"
  define ss where "ss = snd (update_signals ?book t (f64_lit 0) (signals e))"
  have two: "\<not> one_sided ?book" using True by (simp add: tradable_def)
  have ok: "wf_book (ebook e)" "pm_ok (epm e)" "\<bar>position_size (epm e)\<bar> \<le> 10 * int k"
    "\<bar>fval (realized_pnl (epm e))\<bar> \<le> of_int (10 * int k)" "list_all signal_ok (signals e)" "length (signals e) \<le> 2"
    using assms(1) by (auto simp: engine_ok_def)
  obtain pm where pm: "add_fill (fst d) (snd d) (epm e) = Some pm" "pm_ok pm" "position_size pm = position_size (epm e) + fst d"
    "\<bar>position_size pm\<bar> \<le> 10 * int (Suc k)" "\<bar>fval (realized_pnl pm)\<bar> \<le> of_int (10 * int (Suc k))"
    "\<bar>book_cash pm - (book_cash (epm e) - of_int (fst d) * fval (snd d))\<bar> \<le> of_nat (20 * k + 10) * pow2 (- 50)"
    using fill_step [OF ok(2,3,4) assms(2) decision_on_bounds [OF two, of t "signals e"]] unfolding d_def by blast
  obtain e' evs where run: "process_tick clk t e = Some (e', evs)" and eff: "tick_effect ?book d ss e (e', evs)"
    using process_tick_tradable [OF True, of clk] pm(1) unfolding d_def [symmetric] ss_def [symmetric] by auto
  from eff obtain initial trade periodic where evs: "evs = initial @ trade @ periodic"
    and raw: "if emitted_initial_p e then initial = [] else \<exists>ts lat. initial = [p_row ts lat ?book (epm e)]"
      "if fst d = 0 then trade = [] \<and> epm e' = epm e
       else add_fill (fst d) (snd d) (epm e) = Some (epm e') \<and> (\<exists>ts lat. trade = [t_row ts lat d (epm e')])"
      "if (ticks_processed e + 1) mod 1000 = 0 then \<exists>ts lat. periodic = [p_row ts lat ?book (epm e')] else periodic = []"
    and e0: "ebook e' = ?book" "signals e' = ss"
    unfolding tick_effect_def prod.case by blast
  have i: "traded_size initial = 0" "traded_cash initial = 0" using raw(1) by (auto split: if_splits)
  have p: "traded_size periodic = 0" "traded_cash periodic = 0" using raw(3) by (auto split: if_splits)
  have tr: "traded_size trade = fst d" "traded_cash trade = - (of_int (fst d) * fval (snd d))"
    using raw(2) by (auto split: if_splits)
  have e': "epm e' = pm" "ebook e' = ?book" "signals e' = ss"
    using raw(2) pm(1) e0 by (auto split: if_splits)
  have "list_all signal_ok ss \<and> length ss \<le> 2"
    using update_signals_bound [OF ok(5), of "f64_lit 0" 0 ?book t] ok(6) by (simp add: ss_def)
  then have "engine_ok (Suc k) e'" using ok(1) pm e' by (simp add: engine_ok_def)
  moreover have "\<bar>book_cash (epm e') - (book_cash (epm e) + traded_cash evs)\<bar> \<le> of_nat (20 * k + 10) * pow2 (- 50)"
    using pm(6) by (simp add: evs i tr p e' algebra_simps)
  ultimately show ?thesis using that [OF run] pm(3) e' by (simp add: evs i tr p)
qed

lemma engine_run:
  "engine_ok k e \<Longrightarrow> k + length ts \<le> 2 ^ 27 \<Longrightarrow>
   \<exists>e' evs. run_ticks clk ts e = Some (e', evs) \<and> engine_ok (k + length ts) e' \<and>
     position_size (epm e') = position_size (epm e) + traded_size evs \<and>
     \<bar>book_cash (epm e') - (book_cash (epm e) + traded_cash evs)\<bar> \<le>
       of_nat (length ts * (20 * (k + length ts) + 10)) * pow2 (- 50) \<and>
     ebook e' = apply_ticks ts (ebook e)"
proof (induction ts arbitrary: e k)
  case (Cons t ts)
  have k: "k < 2 ^ 27" "Suc k + length ts \<le> 2 ^ 27" using Cons.prems(2) by simp_all
  obtain e1 evs1 where s: "process_tick clk t e = Some (e1, evs1)" "engine_ok (Suc k) e1"
    "position_size (epm e1) = position_size (epm e) + traded_size evs1"
    "\<bar>book_cash (epm e1) - (book_cash (epm e) + traded_cash evs1)\<bar> \<le> of_nat (20 * k + 10) * pow2 (- 50)"
    "ebook e1 = apply_tick t (ebook e)"
    using engine_step [OF Cons.prems(1) k(1)] by metis
  obtain e2 evs2 where r: "run_ticks clk ts e1 = Some (e2, evs2)" "engine_ok (Suc k + length ts) e2"
    "position_size (epm e2) = position_size (epm e1) + traded_size evs2"
    "\<bar>book_cash (epm e2) - (book_cash (epm e1) + traded_cash evs2)\<bar> \<le>
       of_nat (length ts * (20 * (Suc k + length ts) + 10)) * pow2 (- 50)"
    "ebook e2 = apply_ticks ts (ebook e1)"
    using Cons.IH [OF s(2) k(2)] by blast
  let ?n = "k + length (t # ts)"
  have "(of_nat (20 * k + 10) + of_nat (length ts * (20 * (Suc k + length ts) + 10)) :: rat)
      \<le> of_nat (length (t # ts) * (20 * ?n + 10))"
    unfolding of_nat_add [symmetric] of_nat_le_iff by (simp add: algebra_simps)
  then have "of_nat (20 * k + 10) * pow2 (- 50) + of_nat (length ts * (20 * (Suc k + length ts) + 10)) * pow2 (- 50)
      \<le> of_nat (length (t # ts) * (20 * ?n + 10)) * pow2 (- 50)"
    unfolding distrib_right [symmetric] by (intro mult_right_mono) simp_all
  moreover have "\<bar>book_cash (epm e2) - (book_cash (epm e) + (traded_cash evs1 + traded_cash evs2))\<bar> \<le>
      \<bar>book_cash (epm e1) - (book_cash (epm e) + traded_cash evs1)\<bar> +
      \<bar>book_cash (epm e2) - (book_cash (epm e1) + traded_cash evs2)\<bar>"
    by linarith
  ultimately have "\<bar>book_cash (epm e2) - (book_cash (epm e) + traded_cash (evs1 @ evs2))\<bar> \<le>
      of_nat (length (t # ts) * (20 * ?n + 10)) * pow2 (- 50)"
    using s(4) r(4) unfolding traded_simps by linarith
  then show ?case using s r by (simp add: apply_ticks_def)
qed (simp add: apply_ticks_def)

section \<open>What the combination of signals can decide\<close>

text \<open>The signals of each selection, the average of their scores with each operation rounded once, and the side it takes.\<close>

definition signals_of :: "strategy_selection \<Rightarrow> momentum_alpha \<Rightarrow> ofi_alpha \<Rightarrow> signal list" where
  "signals_of sel m a =
     (case sel of Momentum \<Rightarrow> [Momentum_signal m] | Ofi \<Rightarrow> [Ofi_signal a] | Both \<Rightarrow> [Momentum_signal m, Ofi_signal a])"

definition average_score :: "strategy_selection \<Rightarrow> rat \<Rightarrow> rat \<Rightarrow> rat" where
  "average_score sel x y = (case sel of Momentum \<Rightarrow> x | Ofi \<Rightarrow> y | Both \<Rightarrow> rnds (rnds (x + y) / 2))"

definition score_side :: "rat \<Rightarrow> int" where
  "score_side c = (if rnds (3 / 5) \<le> c then 1 else if c \<le> - rnds (3 / 5) then - 1 else 0)"

lemma representable_half: "representable (1 / 2)"
  using representable_pow2 [of "- 1"] by (simp add: pow2_def power_int_def)

lemma representable_small: "\<bar>k\<bar> \<le> 2 \<Longrightarrow> representable (of_int k)"
  by (rule representable_of_int) simp

lemma threshold_exact: "fval kTradeThreshold = rnds (3 / 5)"
  unfolding kTradeThreshold_def using unit_literal(2) [of "60 / 100"] by simp

lemma momentum_score_representable: "representable (fval (fst (momentum_update book t m)))"
  using momentum_update_score [of book t m] representable_small [of 0] representable_small [of 1]
    representable_small [of "- 1"]
  by auto

lemma clamp1_representable: "representable x \<Longrightarrow> representable (clamp1 x)"
  using representable_small [of 1] by (auto simp: clamp1_def max_def min_def)

lemma ofi_score_representable: "representable (fval (fst (ofi_update book t a)))"
proof (cases "one_sided book \<or> \<not> initialized a")
  case True
  then have "fst (ofi_update book t a) = f64_lit 0" using ofi_one_sided ofi_update_unprimed by (cases "one_sided book") auto
  then show ?thesis using representable_small [of 0] by simp
next
  case False
  then have "fval (fst (ofi_update book t a)) = exact_ofi_score book a" using ofi_update_primed(2) by blast
  then show ?thesis by (simp add: exact_ofi_score_def exact_confidence_def Let_def clamp1_representable)
qed

lemma combine_one:
  assumes "unit_score y" "representable (fval y)"
  shows "is_finite (combine_scores (f64_lit 0 + y) 1)" "fval (combine_scores (f64_lit 0 + y) 1) = fval y"
proof -
  have y: "is_finite y" "\<bar>fval y\<bar> \<le> 1" using assms(1) by (auto simp: unit_score_def)
  have "\<bar>fval (f64_lit 0) + fval y\<bar> \<le> pow2 1023" using y(2) by (intro abs_big) simp
  then have s: "is_finite (f64_lit 0 + y)" "fval (f64_lit 0 + y) = fval y"
    using f64_add_finite [OF fval_zero(1) y(1)] assms(2) by simp_all
  have one: "is_finite (f64_of_int 1)" "fval (f64_of_int 1) = 1" using nat_as_f64 [of 1] by simp_all
  have "is_finite ((f64_lit 0 + y) / f64_of_int 1) \<and> fval ((f64_lit 0 + y) / f64_of_int 1) = rnds (fval y / 1)"
    using quotient_finite [OF s(1) one(1)] y(2) by (simp add: one(2) s(2))
  then show "is_finite (combine_scores (f64_lit 0 + y) 1)" "fval (combine_scores (f64_lit 0 + y) 1) = fval y"
    using assms(2) by (simp_all add: combine_scores_def)
qed

lemma combine_two:
  assumes "unit_score x" "representable (fval x)" "unit_score y"
  shows "is_finite (combine_scores (f64_lit 0 + x + y) 2)"
    "fval (combine_scores (f64_lit 0 + x + y) 2) = rnds (rnds (fval x + fval y) / 2)"
proof -
  have x: "is_finite x" "\<bar>fval x\<bar> \<le> 1" and y: "is_finite y" "\<bar>fval y\<bar> \<le> 1"
    using assms by (auto simp: unit_score_def)
  have "\<bar>fval (f64_lit 0) + fval x\<bar> \<le> pow2 1023" using x(2) by (intro abs_big) simp
  then have sx: "is_finite (f64_lit 0 + x)" "fval (f64_lit 0 + x) = fval x"
    using f64_add_finite [OF fval_zero(1) x(1)] assms(2) by simp_all
  have "\<bar>fval (f64_lit 0 + x) + fval y\<bar> \<le> pow2 1023" unfolding sx using x(2) y by (intro abs_big) linarith
  then have s: "is_finite (f64_lit 0 + x + y)" "fval (f64_lit 0 + x + y) = rnds (fval x + fval y)"
    using f64_add_finite [OF sx(1) y(1)] by (simp_all add: sx(2))
  have two: "is_finite (f64_of_int 2)" "fval (f64_of_int 2) = 2" using nat_as_f64 [of 2] by simp_all
  have "representable 2" using representable_small [of 2] by simp
  moreover have "\<bar>fval x + fval y\<bar> \<le> 2" using x(2) y(2) by linarith
  ultimately have s2: "\<bar>fval (f64_lit 0 + x + y)\<bar> \<le> 2" unfolding s by (rule rnds_bound)
  have "is_finite ((f64_lit 0 + x + y) / f64_of_int 2) \<and>
      fval ((f64_lit 0 + x + y) / f64_of_int 2) = rnds (rnds (fval x + fval y) / 2)"
    using quotient_finite [OF s(1) two(1)] s2 by (simp add: two(2) s(2))
  then show "is_finite (combine_scores (f64_lit 0 + x + y) 2)"
    "fval (combine_scores (f64_lit 0 + x + y) 2) = rnds (rnds (fval x + fval y) / 2)"
    by (simp_all add: combine_scores_def)
qed

text \<open>The decision of the engine on a book with two sides.\<close>

lemma momentum_score_unit: "unit_score (fst (momentum_update book t m))"
  using momentum_update_score [of book t m] by (auto simp: unit_score_def)

lemma selection_score:
  fixes sel t m a book
  defines "c \<equiv> combine_scores (fst (update_signals book t (f64_lit 0) (signals_of sel m a))) (length (signals_of sel m a))"
  shows "is_finite c"
    "fval c = average_score sel (fval (fst (momentum_update book t m))) (fval (fst (ofi_update book t a)))"
proof -
  note one = combine_one [OF momentum_score_unit momentum_score_representable, of book t m]
    combine_one [OF ofi_score_unit ofi_score_representable, of book t a]
  note two = combine_two [OF momentum_score_unit momentum_score_representable ofi_score_unit, of book t m book t a]
  show "is_finite c"
    "fval c = average_score sel (fval (fst (momentum_update book t m))) (fval (fst (ofi_update book t a)))"
    using one two unfolding c_def
    by (cases sel; simp add: signals_of_def average_score_def case_prod_beta Let_def numeral_2_eq_2)+
qed

lemma selection_decision:
  fixes sel t m a book
  defines "side \<equiv> score_side (average_score sel (fval (fst (momentum_update book t m))) (fval (fst (ofi_update book t a))))"
  defines "d \<equiv> decision_on book t (signals_of sel m a)"
  assumes "\<not> one_sided book"
  shows "fst d = 10 * side"
    "side \<noteq> 0 \<Longrightarrow> fval (snd d) = rnds (of_int (uint (if side = 1 then get_best_ask book else get_best_bid book)) / 100)"
proof -
  define c where "c = combine_scores (fst (update_signals book t (f64_lit 0) (signals_of sel m a))) (length (signals_of sel m a))"
  note c = selection_score [of book t sel m a, folded c_def]
  have d: "d = trade_decision c (get_best_bid book) (get_best_ask book)" by (simp add: d_def decision_on_def c_def)
  have th: "(kTradeThreshold \<le> c) = (rnds (3 / 5) \<le> fval c)" "(c \<le> - kTradeThreshold) = (fval c \<le> - rnds (3 / 5))"
    using c(1) threshold_val(1) by (simp_all add: threshold_exact)
  show "fst d = 10 * side" unfolding d side_def c(2) [symmetric]
    by (simp add: trade_decision_def th score_side_def kDefaultTradeSize_def)
  show "side \<noteq> 0 \<Longrightarrow> fval (snd d) = rnds (of_int (uint (if side = 1 then get_best_ask book else get_best_bid book)) / 100)"
    unfolding d side_def c(2) [symmetric]
    by (simp add: trade_decision_def th score_side_def cents_to_price_val(2) quoted_prices [OF assms(3)] split: if_splits)
qed

text \<open>With two signals the average of a silent and a loud one stays below the threshold.\<close>

lemma average_of_silence:
  assumes "\<bar>y\<bar> \<le> 1" "x \<le> 0"
  shows "average_score Both x y \<le> 1 / 2" "- (1 / 2) \<le> average_score Both (- x) y"
proof -
  have one: "representable 1" using representable_small [of 1] by simp
  have "rnds (x + y) \<le> 1" using assms one by (intro rnds_upper) linarith+
  then show "average_score Both x y \<le> 1 / 2"
    unfolding average_score_def strategy_selection.case using representable_half by (intro rnds_upper) simp_all
  have "- 1 \<le> rnds (- x + y)" using assms one by (intro rnds_lower) (simp, linarith)
  then have "- (1 / 2) \<le> rnds (rnds (- x + y) / 2)" using representable_half by (intro rnds_lower) simp_all
  then show "- (1 / 2) \<le> average_score Both (- x) y" by (simp add: average_score_def)
qed

lemma score_side_small: "c \<le> 1 / 2 \<Longrightarrow> score_side c \<le> 0" "- (1 / 2) \<le> c \<Longrightarrow> 0 \<le> score_side c"
  using threshold_val(2) by (simp_all add: score_side_def threshold_exact)

lemma both_needs_momentum:
  fixes sel t m a book
  defines "d \<equiv> decision_on book t (signals_of Both m a)"
  assumes "\<not> one_sided book"
  shows "0 < fst d \<Longrightarrow> fst (momentum_update book t m) = f64_lit 1"
    "fst d < 0 \<Longrightarrow> fst (momentum_update book t m) = - f64_lit 1"
proof -
  let ?x = "fval (fst (momentum_update book t m))" and ?y = "fval (fst (ofi_update book t a))"
  have d: "fst d = 10 * score_side (average_score Both ?x ?y)"
    unfolding d_def by (rule selection_decision(1) [OF assms(2)])
  have y: "\<bar>?y\<bar> \<le> 1" using ofi_score_unit [of book t a] by (auto simp: unit_score_def)
  have "0 < fst d \<Longrightarrow> 0 < ?x" using average_of_silence(1) [OF y, of ?x] score_side_small(1) d by force
  moreover have "fst d < 0 \<Longrightarrow> ?x < 0" using average_of_silence(2) [OF y, of "- ?x"] score_side_small(2) d by force
  ultimately show "0 < fst d \<Longrightarrow> fst (momentum_update book t m) = f64_lit 1"
    "fst d < 0 \<Longrightarrow> fst (momentum_update book t m) = - f64_lit 1"
    using momentum_update_score [of book t m] by auto
qed

text \<open>How a tick moves the position.\<close>

lemma process_tick_position:
  assumes "process_tick clk t e = Some (e', evs)"
  shows "position_size (epm e') = position_size (epm e) +
    (if tradable (apply_tick t (ebook e)) then fst (decision_on (apply_tick t (ebook e)) t (signals e)) else 0)"
proof (cases "tradable (apply_tick t (ebook e))")
  case False
  then show ?thesis using assms process_tick_idle [OF False, of clk] by auto
next
  case True
  let ?d = "decision_on (apply_tick t (ebook e)) t (signals e)"
  have "tick_effect (apply_tick t (ebook e)) ?d (snd (update_signals (apply_tick t (ebook e)) t (f64_lit 0) (signals e))) e (e', evs)"
    using process_tick_tradable [OF True, of clk] assms by (auto split: if_splits)
  then have "if fst ?d = 0 then epm e' = epm e else add_fill (fst ?d) (snd ?d) (epm e) = Some (epm e')"
    unfolding tick_effect_def by (auto split: if_splits)
  then show ?thesis using True add_fill_size by (auto split: if_splits)
qed

text \<open>A tick on a tradable book updates each signal once, in place; the signals stay those of the selection.\<close>

lemma update_signals_map: "snd (update_signals book t x ss) = map (\<lambda>s. snd (signal_update book t s)) ss"
  by (induction ss arbitrary: x) (simp_all add: case_prod_beta Let_def)

lemma process_tick_signals:
  assumes "process_tick clk t e = Some (e', evs)"
  shows "ebook e' = apply_tick t (ebook e)"
    "signals e' = (if tradable (ebook e') then map (\<lambda>s. snd (signal_update (ebook e') t s)) (signals e) else signals e)"
proof -
  let ?book = "apply_tick t (ebook e)"
  have "ebook e' = ?book \<and> signals e' = (if tradable ?book then map (\<lambda>s. snd (signal_update ?book t s)) (signals e) else signals e)"
  proof (cases "tradable ?book")
    case False
    then show ?thesis using assms process_tick_idle [OF False, of clk] by auto
  next
    case True
    have "tick_effect ?book (decision_on ?book t (signals e)) (snd (update_signals ?book t (f64_lit 0) (signals e))) e (e', evs)"
      using process_tick_tradable [OF True, of clk] assms by (auto split: if_splits)
    then show ?thesis using True unfolding tick_effect_def by (auto simp: update_signals_map)
  qed
  then show "ebook e' = ?book"
    "signals e' = (if tradable (ebook e') then map (\<lambda>s. snd (signal_update (ebook e') t s)) (signals e) else signals e)"
    by simp_all
qed

lemma signals_of_update:
  "map (\<lambda>s. snd (signal_update book t s)) (signals_of sel m a) =
     signals_of sel (snd (momentum_update book t m)) (snd (ofi_update book t a))"
  by (cases sel) (simp_all add: signals_of_def)

lemma run_ticks_signals:
  "run_ticks clk ts e = Some (e', evs) \<Longrightarrow> signals e = signals_of sel m a \<Longrightarrow> \<exists>m a. signals e' = signals_of sel m a"
proof (induction ts arbitrary: e m a evs)
  case (Cons t ts)
  obtain e1 evs1 evs2 where s: "process_tick clk t e = Some (e1, evs1)" "run_ticks clk ts e1 = Some (e', evs2)"
    using Cons.prems(1) by (auto split: bind_splits)
  have "\<exists>m a. signals e1 = signals_of sel m a"
    using process_tick_signals(2) [OF s(1)] unfolding Cons.prems(2) signals_of_update by (metis (no_types))
  then show ?case using Cons.IH [OF s(2)] by blast
qed auto

lemma make_signals_shape: "make_signals sel = signals_of sel momentum_init ofi_init"
  by (cases sel) (simp_all add: make_signals_def signals_of_def)

text \<open>A tick whose decision is not to trade goes through, whatever the position.\<close>

lemma process_tick_no_trade:
  assumes "fst (decision_on (apply_tick t (ebook e)) t (signals e)) = 0"
  shows "\<exists>e' evs. process_tick clk t e = Some (e', evs) \<and> epm e' = epm e \<and> CHR ''T'' \<notin> set (map event_type evs)"
proof (cases "tradable (apply_tick t (ebook e))")
  case False
  then show ?thesis using process_tick_idle [OF False, of clk] by simp
next
  case True
  let ?book = "apply_tick t (ebook e)"
  obtain e' evs where run: "process_tick clk t e = Some (e', evs)"
    and eff: "tick_effect ?book (decision_on ?book t (signals e)) (snd (update_signals ?book t (f64_lit 0) (signals e))) e (e', evs)"
    using process_tick_tradable [OF True, of clk] assms by auto
  from eff assms obtain initial periodic where "evs = initial @ periodic" "epm e' = epm e"
    "if emitted_initial_p e then initial = [] else \<exists>ts lat. initial = [p_row ts lat ?book (epm e)]"
    "if (ticks_processed e + 1) mod 1000 = 0 then \<exists>ts lat. periodic = [p_row ts lat ?book (epm e')] else periodic = []"
    unfolding tick_effect_def prod.case by auto
  then have "CHR ''T'' \<notin> set (map event_type evs)"
    by (auto simp: p_row_def make_event_def Let_def split: if_splits)
  with run \<open>epm e' = epm e\<close> show ?thesis by blast
qed

text \<open>The last tick of a run that left the book tradable is the one the signals have seen.\<close>

lemma same_top_momentum:
  assumes "tradable book" "get_best_bid book' = get_best_bid book" "get_best_ask book' = get_best_ask book"
    and "get_bid_size book' (get_best_bid book) = get_bid_size book (get_best_bid book)"
    and "get_ask_size book' (get_best_ask book) = get_ask_size book (get_best_ask book)"
  shows "fst (momentum_update book' t' (snd (momentum_update book t m))) = f64_lit 0"
proof -
  let ?p = "microprice_cents (get_best_bid book) (get_best_ask book) (get_bid_size book (get_best_bid book))
      (get_ask_size book (get_best_ask book))
      (get_bid_size book (get_best_bid book) + get_ask_size book (get_best_ask book))"
  have two: "get_best_bid book \<noteq> kNoBid" "get_best_ask book \<noteq> kNoAsk"
    "get_bid_size book (get_best_bid book) + get_ask_size book (get_best_ask book) \<noteq> 0"
    using assms(1) by (auto simp: tradable_def one_sided_def)
  have p: "is_finite ?p" by (rule microprice_val(1) [OF two(3)])
  have "is_finite (?p - ?p) \<and> fval (?p - ?p) = 0" using f64_sub_finite [OF p p] by simp
  moreover have "snd (momentum_update book t m) = \<lparr>has_prev = True, prev_microprice_cents = ?p\<rparr>"
    using two by (cases m) (simp add: momentum_update_def Let_def)
  ultimately show ?thesis using two by (simp add: momentum_update_def Let_def assms(2-5))
qed

lemma same_top_decision:
  assumes "tradable book" "get_best_bid book' = get_best_bid book" "get_best_ask book' = get_best_ask book"
    and "get_bid_size book' (get_best_bid book) = get_bid_size book (get_best_bid book)"
    and "get_ask_size book' (get_best_ask book) = get_ask_size book (get_best_ask book)"
  shows "fst (decision_on book' t' (signals_of sel (snd (momentum_update book t m)) (snd (ofi_update book t a)))) = 0"
proof -
  have two: "\<not> one_sided book" "\<not> one_sided book'" using assms(1-3) by (simp_all add: tradable_def one_sided_def)
  let ?x = "fval (fst (momentum_update book' t' (snd (momentum_update book t m))))"
  let ?y = "fval (fst (ofi_update book' t' (snd (ofi_update book t a))))"
  have x: "?x = 0" using same_top_momentum [OF assms] by simp
  have y: "\<bar>?y\<bar> \<le> 1 / 2" by (rule unchanged_top_bound [OF two(1) assms(2-5)])
  then have y1: "\<bar>?y\<bar> \<le> 1" by linarith
  have "\<bar>average_score sel 0 ?y\<bar> \<le> 1 / 2"
    using y average_of_silence [OF y1, of 0] by (cases sel) (simp_all add: average_score_def abs_le_iff)
  then have "score_side (average_score sel ?x ?y) = 0"
    using score_side_small [of "average_score sel 0 ?y"] unfolding x by linarith
  then show ?thesis using selection_decision(1) [OF two(2)] by simp
qed

section \<open>The loop between its two rings\<close>

lemma run_ticks_snoc:
  "run_ticks clk (ts @ [t]) e = run_ticks clk ts e \<bind> (\<lambda>(e1, evs1).
     process_tick clk t e1 \<bind> (\<lambda>(e2, evs2). Some (e2, evs1 @ evs2)))"
  by (induction ts arbitrary: e) (auto split: bind_split option.split)

definition produced :: "engine_action list \<Rightarrow> market_tick list" where
  "produced as = concat (map (\<lambda>a. case a of Produce t \<Rightarrow> [t] | _ \<Rightarrow> []) as)"

lemma produced_simps [simp]:
  "produced [] = []" "produced (Produce t # as) = t # produced as" "produced (Drain_log # as) = produced as"
  "produced (Iterate # as) = produced as" "produced (Stop # as) = produced as"
  by (simp_all add: produced_def)

text \<open>The state after some actions of which \<open>ps\<close> are the ticks that were pushed, accepted or not.\<close>

definition sys_ok :: "(nat \<Rightarrow> u64) \<Rightarrow> strategy_selection \<Rightarrow> market_tick list \<Rightarrow> strategy_sys \<Rightarrow> bool" where
  "sys_ok clk sel ps s \<longleftrightarrow>
     spsc_inv kTickQueueSize (tick_queue s) \<and> spsc_inv kQueueSize (log_queue s) \<and>
     offered_ticks s = processed_ticks s @ spsc_contents kTickQueueSize (tick_queue s) \<and>
     subseq (offered_ticks s) ps \<and> (length ps \<le> unat kTickQueueSize \<longrightarrow> offered_ticks s = ps) \<and>
     run_ticks clk (processed_ticks s) (engine_init sel) = Some (eng s, emitted_events s)"

lemma sys_ok_init: "sys_ok clk sel [] (strategy_init sel)"
  using spsc_inv_init [OF tick_ring.static_assert, where 'a = market_tick]
    spsc_inv_init [OF log_ring.static_assert, where 'a = LogEvent]
    spsc_contents_init [of kTickQueueSize, where 'a = market_tick]
  by (simp add: sys_ok_def strategy_init_def)

lemma produce_ok:
  assumes "sys_ok clk sel ps s"
  shows "\<exists>s'. perform clk (Produce t) s = Some s' \<and> sys_ok clk sel (ps @ [t]) s' \<and> erunning s' = erunning s"
proof -
  have ok: "spsc_inv kTickQueueSize (tick_queue s)" "subseq (offered_ticks s) ps"
    "length ps \<le> unat kTickQueueSize \<longrightarrow> offered_ticks s = ps"
    "offered_ticks s = processed_ticks s @ spsc_contents kTickQueueSize (tick_queue s)"
    using assms unfolding sys_ok_def by blast+
  from ok(1) show ?thesis
  proof (rule tick_ring.push_cases [of "tick_queue s" t])
    assume full: "length (spsc_contents kTickQueueSize (tick_queue s)) = unat kTickQueueSize"
      and p: "spsc_push kTickQueueSize t (tick_queue s) = (False, tick_queue s)"
    have "length (offered_ticks s) \<le> length ps" using ok(2) by (rule list_emb_length)
    then have "\<not> length (ps @ [t]) \<le> unat kTickQueueSize" using full ok(4) by simp
    moreover have "subseq (offered_ticks s) (ps @ [t])" using ok(2) by (rule subseq_rev_drop_many)
    ultimately show ?thesis using assms p by (auto simp: perform_def sys_ok_def)
  next
    fix q' assume "spsc_push kTickQueueSize t (tick_queue s) = (True, q')" "spsc_inv kTickQueueSize q'"
      "spsc_contents kTickQueueSize q' = spsc_contents kTickQueueSize (tick_queue s) @ [t]"
    then show ?thesis using assms list_emb_append_mono [of "(=)" "offered_ticks s" ps "[t]" "[t]"]
      by (auto simp: perform_def sys_ok_def)
  qed
qed

text \<open>One iteration takes one tick out of a ring that is not empty.\<close>

lemma iterate_ok:
  assumes "sys_ok clk sel ps s" "length ps \<le> 2 ^ 27" "erunning s"
  shows "\<exists>s'. perform clk Iterate s = Some s' \<and> sys_ok clk sel ps s' \<and> erunning s' \<and>
    offered_ticks s' = offered_ticks s \<and>
    spsc_contents kTickQueueSize (tick_queue s') = tl (spsc_contents kTickQueueSize (tick_queue s))"
proof -
  have ok: "spsc_inv kTickQueueSize (tick_queue s)" "spsc_inv kQueueSize (log_queue s)"
    "offered_ticks s = processed_ticks s @ spsc_contents kTickQueueSize (tick_queue s)"
    "subseq (offered_ticks s) ps"
    "run_ticks clk (processed_ticks s) (engine_init sel) = Some (eng s, emitted_events s)"
    using assms(1) unfolding sys_ok_def by blast+
  from ok(1) show ?thesis
  proof (rule tick_ring.pop_cases)
    assume "spsc_pop kTickQueueSize (tick_queue s) = (Pop_empty, tick_queue s)"
      "spsc_contents kTickQueueSize (tick_queue s) = []"
    then show ?thesis using assms by (simp add: perform_def)
  next
    fix t q'
    assume pop: "spsc_pop kTickQueueSize (tick_queue s) = (Pop_item t, q')" "spsc_inv kTickQueueSize q'"
      "spsc_contents kTickQueueSize (tick_queue s) = t # spsc_contents kTickQueueSize q'"
    have "length (offered_ticks s) \<le> length ps" using ok(4) by (rule list_emb_length)
    then have n: "length (processed_ticks s) < 2 ^ 27" using assms(2) ok(3) pop(3) by simp
    then have "engine_ok (length (processed_ticks s)) (eng s)"
      using engine_run [OF engine_ok_init, of "processed_ticks s" clk sel] ok(5) by auto
    then obtain e' evs where step: "process_tick clk t (eng s) = Some (e', evs)"
      using engine_step [of "length (processed_ticks s)" "eng s" clk t] n by metis
    have "spsc_inv kQueueSize (push_all (spsc_push kQueueSize) evs (log_queue s))"
      using log_ring.contents_push_all [OF ok(2)] by blast
    then show ?thesis
      using assms pop step ok by (auto simp: perform_def sys_ok_def run_ticks_snoc)
  qed
qed

lemma perform_ok:
  assumes "sys_ok clk sel ps s" "length (ps @ produced [a]) \<le> 2 ^ 27"
  shows "\<exists>s'. perform clk a s = Some s' \<and> sys_ok clk sel (ps @ produced [a]) s' \<and> erunning s' = (erunning s \<and> a \<noteq> Stop)"
proof (cases a)
  case (Produce t)
  then show ?thesis using produce_ok [OF assms(1)] by simp
next
  case Drain_log
  have "spsc_inv kQueueSize (log_queue s)" using assms(1) by (simp add: sys_ok_def)
  then show ?thesis using Drain_log assms(1) log_ring.inv_pop by (auto simp: perform_def sys_ok_def)
next
  case Stop
  then show ?thesis using assms(1) by (auto simp: perform_def sys_ok_def)
next
  case Iterate
  then show ?thesis using iterate_ok [OF assms(1)] assms by (cases "erunning s") (auto simp: perform_def [where s = s])
qed

lemma run_actions_ok:
  "sys_ok clk sel ps s \<Longrightarrow> length (ps @ produced as) \<le> 2 ^ 27 \<Longrightarrow>
   \<exists>s'. run_actions clk as s = Some s' \<and> sys_ok clk sel (ps @ produced as) s' \<and> erunning s' = (erunning s \<and> Stop \<notin> set as)"
proof (induction as arbitrary: ps s)
  case (Cons a as)
  have split: "produced (a # as) = produced [a] @ produced as" by (cases a) simp_all
  obtain s' where s': "perform clk a s = Some s'" "sys_ok clk sel (ps @ produced [a]) s'" "erunning s' = (erunning s \<and> a \<noteq> Stop)"
    using perform_ok [OF Cons.prems(1), of a] Cons.prems(2) unfolding split by auto
  show ?case using Cons.IH [OF s'(2)] Cons.prems(2) s'(1,3) unfolding split by auto
qed simp

lemma run_actions_append:
  "run_actions clk (as @ bs) s = run_actions clk as s \<bind> run_actions clk bs"
  by (induction as arbitrary: s) (auto split: bind_split)

lemma iterations_drain:
  "sys_ok clk sel ps s \<Longrightarrow> length ps \<le> 2 ^ 27 \<Longrightarrow> erunning s \<Longrightarrow>
   length (spsc_contents kTickQueueSize (tick_queue s)) \<le> n \<Longrightarrow>
   \<exists>s'. run_actions clk (replicate n Iterate) s = Some s' \<and> sys_ok clk sel ps s' \<and>
     offered_ticks s' = offered_ticks s \<and> spsc_contents kTickQueueSize (tick_queue s') = []"
proof (induction n arbitrary: s)
  case (Suc n)
  obtain s' where s': "perform clk Iterate s = Some s'" "sys_ok clk sel ps s'" "erunning s'" "offered_ticks s' = offered_ticks s"
    "spsc_contents kTickQueueSize (tick_queue s') = tl (spsc_contents kTickQueueSize (tick_queue s))"
    using iterate_ok [OF Suc.prems(1-3)] by blast
  have "length (spsc_contents kTickQueueSize (tick_queue s')) \<le> n" using Suc.prems(4) s'(5) by simp
  then show ?case using Suc.IH [OF s'(2) Suc.prems(2) s'(3)] s'(1,4) by simp
qed simp

lemma book_cash_init [simp]: "book_cash pm_init = 0"
  by (simp add: book_cash_def pm_init_def)

text \<open>The engine that the witnesses start from: a book quoted at 40 and 60 cents.\<close>

definition quoted_engine :: "signal list \<Rightarrow> engine" where
  "quoted_engine ss =
     \<lparr>ebook = quoted_40_60 30 10, epm = pm_init, signals = ss, emitted_initial_p = True,
      ticks_processed = 7, clock_reads = 0\<rparr>"

lemma quoted_engine_ok: "list_all signal_ok ss \<Longrightarrow> length ss \<le> 2 \<Longrightarrow> engine_ok 0 (quoted_engine ss)"
  using pm_ok_init lob.inv_fold [OF wf_empty_book]
  by (simp add: engine_ok_def quoted_engine_def quoted_40_60_def apply_ticks_def pm_init_def)

lemma quoted_engine_runs:
  assumes "list_all signal_ok ss" "length ss \<le> 2"
  obtains e' evs where "process_tick clk t (quoted_engine ss) = Some (e', evs)"
  using engine_step [OF quoted_engine_ok [OF assms]] by (metis zero_less_numeral zero_less_power)

lemma quoted_repeat: "apply_tick ask_60_10 (quoted_40_60 30 10) = quoted_40_60 30 10"
  by (simp add: quoted_40_60_def apply_ticks_def ask_60_10_def apply_tick_eq)

section \<open>Properties\<close>

text \<open>
  C6: for every selection of signals, every clock and every sequence of at most \<open>2 ^ 27\<close> ticks, the engine
  processes all of them without undefined behaviour; the book is the one those ticks describe; the position is exactly the
  sum of the sizes of the 'T' events handed to the logger, and the implied cash is the sum of
  their costs up to the accumulated rounding, at most \<open>n * (20 * n + 10) * 2 ^ -50\<close> for \<open>n\<close> ticks.
\<close>
theorem books_reconcile_with_trade_events:
  assumes "length ts \<le> 2 ^ 27"
  shows "\<exists>e evs. run_ticks clk ts (engine_init sel) = Some (e, evs) \<and> ebook e = apply_ticks ts empty_book \<and>
    position_size (epm e) = traded_size evs \<and> \<bar>position_size (epm e)\<bar> \<le> 10 * int (length ts) \<and> pm_ok (epm e) \<and>
    \<bar>book_cash (epm e) - traded_cash evs\<bar> \<le> of_nat (length ts * (20 * length ts + 10)) * pow2 (- 50)"
proof -
  have "position_size (epm (engine_init sel)) = 0" "book_cash (epm (engine_init sel)) = 0" "ebook (engine_init sel) = empty_book"
    by (simp_all add: engine_init_def pm_init_def book_cash_init [unfolded pm_init_def])
  then show ?thesis using engine_run [OF engine_ok_init, of ts clk sel] assms by (auto simp: engine_ok_def)
qed

theorem books_reconcile_with_trade_events_witness:
  "\<exists>e evs. run_ticks (\<lambda>_. 0) [\<lparr>price = 40, tsize = 30, is_bid = True\<rparr>, ask_60_10] (engine_init Both) = Some (e, evs) \<and>
     position_size (epm e) = traded_size evs"
  using books_reconcile_with_trade_events [of "[\<lparr>price = 40, tsize = 30, is_bid = True\<rparr>, ask_60_10]" "\<lambda>_. 0" Both] by auto

text \<open>
  C7: whatever the order in which the parser pushed at most \<open>2 ^ 27\<close> ticks, the logger popped and
  the loop iterated (any number of times, on an empty ring too), as long as \<open>stop\<close> was not called, 65536 more
  iterations of the loop leave the tick ring empty with every accepted tick processed exactly once and in order: the engine
  and its events are those of the fold of \<open>process_tick\<close> over the accepted ticks. These are a subsequence of the
  pushed ones, and all of them if the ring could never fill up.
\<close>
theorem polling_loop_drains_the_ring:
  assumes "Stop \<notin> set as" "length (produced as) \<le> 2 ^ 27" "unat kTickQueueSize \<le> n"
  shows "\<exists>s. run_actions clk (as @ replicate n Iterate) (strategy_init sel) = Some s \<and>
    spsc_contents kTickQueueSize (tick_queue s) = [] \<and> processed_ticks s = offered_ticks s \<and>
    run_ticks clk (offered_ticks s) (engine_init sel) = Some (eng s, emitted_events s) \<and>
    subseq (offered_ticks s) (produced as) \<and>
    (length (produced as) \<le> unat kTickQueueSize \<longrightarrow> offered_ticks s = produced as)"
proof -
  obtain s1 where s1: "run_actions clk as (strategy_init sel) = Some s1" "sys_ok clk sel (produced as) s1" "erunning s1"
    using run_actions_ok [OF sys_ok_init, of "as" clk sel] assms(1,2) by (auto simp: strategy_init_def)
  then have "spsc_inv kTickQueueSize (tick_queue s1)" by (simp add: sys_ok_def)
  then have "length (spsc_contents kTickQueueSize (tick_queue s1)) \<le> n" using tick_ring.bounded [of "tick_queue s1"] assms(3) by linarith
  from iterations_drain [OF s1(2) assms(2) s1(3) this] obtain s where
    "run_actions clk (replicate n Iterate) s1 = Some s" "sys_ok clk sel (produced as) s"
    "spsc_contents kTickQueueSize (tick_queue s) = []" by blast
  then show ?thesis using s1(1) by (intro exI [of _ s]) (auto simp: run_actions_append sys_ok_def)
qed

theorem polling_loop_drains_the_ring_witness:
  "\<exists>s. run_actions (\<lambda>_. 0) ([Iterate, Produce ask_60_10, Drain_log, Produce ask_60_10] @ replicate 65536 Iterate) (strategy_init Ofi) = Some s \<and>
    processed_ticks s = [ask_60_10, ask_60_10]"
proof -
  have "unat kTickQueueSize \<le> 65536" by (simp add: kTickQueueSize_def)
  from polling_loop_drains_the_ring [OF _ _ this, of "[Iterate, Produce ask_60_10, Drain_log, Produce ask_60_10]" "\<lambda>_. 0" Ofi]
  show ?thesis by (auto simp: kTickQueueSize_def)
qed

text \<open>
  C13: what one tick trades, for each selection of signals, in exact numbers. The score is that of the selected signal
  on the updated book, or the average of the two with the sum and the division each rounded once. At or above the double
  nearest to 0.6 the engine buys ten at the best ask, at or below its negative it sells ten at the best bid, otherwise, and on
  every book that is not tradable, it does nothing. The position moves by that size, and the 'T' events of the tick
  are one event with that size and the double nearest to that price in dollars, or none.
\<close>
theorem trades_follow_the_score:
  assumes "signals e = signals_of sel m a" "process_tick clk t e = Some (e', evs)"
  defines "book \<equiv> apply_tick t (ebook e)"
  defines "x \<equiv> fval (fst (momentum_update book t m))" and "y \<equiv> fval (fst (ofi_update book t a))"
  defines "c \<equiv> (case sel of Momentum \<Rightarrow> x | Ofi \<Rightarrow> y | Both \<Rightarrow> rnds (rnds (x + y) / 2))"
  defines "side \<equiv> (if \<not> tradable book then 0 else if rnds (3 / 5) \<le> c then 1 else if c \<le> - rnds (3 / 5) then - 1 else 0 :: int)"
  shows "position_size (epm e') = position_size (epm e) + 10 * side \<and>
    map (\<lambda>ev. (lsize ev, fval (lprice ev))) (filter (\<lambda>ev. event_type ev = CHR ''T'') evs) =
      (if side = 0 then []
       else [(10 * side, rnds (of_int (uint (if side = 1 then get_best_ask book else get_best_bid book)) / 100))])"
proof (cases "tradable book")
  case False
  then show ?thesis using assms(2) process_tick_idle [of t e clk] by (auto simp: book_def side_def)
next
  case True
  let ?d = "decision_on book t (signals e)"
  have two: "\<not> one_sided book" using True by (simp add: tradable_def)
  have side: "side = score_side (average_score sel x y)"
    using True by (simp add: side_def score_side_def average_score_def c_def)
  have d: "fst ?d = 10 * side" "side \<noteq> 0 \<Longrightarrow>
      fval (snd ?d) = rnds (of_int (uint (if side = 1 then get_best_ask book else get_best_bid book)) / 100)"
    using selection_decision [OF two, where sel = sel and t = t and m = m and a = a] unfolding assms(1) side x_def y_def by blast+
  have "tick_effect book ?d (snd (update_signals book t (f64_lit 0) (signals e))) e (e', evs)"
    using process_tick_tradable [OF True [unfolded book_def], of clk] assms(2) unfolding book_def by (auto split: if_splits)
  then obtain initial trade periodic where evs: "evs = initial @ trade @ periodic"
    and i: "filter (\<lambda>ev. event_type ev = CHR ''T'') initial = []"
    and p: "filter (\<lambda>ev. event_type ev = CHR ''T'') periodic = []"
    and tr: "if fst ?d = 0 then trade = [] else \<exists>ts lat. trade = [t_row ts lat ?d (epm e')]"
    unfolding tick_effect_def prod.case
    by (elim conjE exE) (rule that, assumption, auto simp: p_row_def make_event_def Let_def split: if_splits)
  have "map (\<lambda>ev. (lsize ev, fval (lprice ev))) (filter (\<lambda>ev. event_type ev = CHR ''T'') evs) =
      (if fst ?d = 0 then [] else [(fst ?d, fval (snd ?d))])"
    using tr by (auto simp: evs i p t_row_def make_event_def split: if_splits)
  moreover have "position_size (epm e') = position_size (epm e) + fst ?d"
    using process_tick_position [OF assms(2)] True unfolding book_def by simp
  ultimately show ?thesis using d by auto
qed

text \<open>A momentum engine whose last price was zero cents buys ten at 60 cents.\<close>
theorem trades_follow_the_score_witness:
  "\<exists>e' evs. process_tick (\<lambda>_. 0) ask_60_10
      (quoted_engine [Momentum_signal \<lparr>has_prev = True, prev_microprice_cents = f64_lit 0\<rparr>]) = Some (e', evs) \<and>
    position_size (epm e') = 10 \<and>
    map (\<lambda>ev. (lsize ev, fval (lprice ev))) (filter (\<lambda>ev. event_type ev = CHR ''T'') evs) = [(10, rnds (3 / 5))]"
proof -
  let ?m = "\<lparr>has_prev = True, prev_microprice_cents = f64_lit 0\<rparr>"
  let ?e = "quoted_engine [Momentum_signal ?m]"
  have m: "momentum_ok ?m" by (simp add: momentum_ok_def)
  obtain e' evs where run: "process_tick (\<lambda>_. 0) ask_60_10 ?e = Some (e', evs)"
    by (rule quoted_engine_runs [of "[Momentum_signal ?m]"]) (simp_all add: m)
  have e: "signals ?e = signals_of Momentum ?m ofi_init" "apply_tick ask_60_10 (ebook ?e) = quoted_40_60 30 10"
    "position_size (epm ?e) = 0"
    by (simp_all add: quoted_engine_def quoted_repeat signals_of_def pm_init_def)
  have "representable 55" using representable_of_int [of 55] by simp
  moreover have "fval (microprice_cents 40 60 30 10 (30 + 10)) = rnds 55"
    using microprice_val(2) [of "30 + 10" 40 60 30 10] by (simp add: weighted_cents_def)
  moreover have "fst (momentum_update (quoted_40_60 30 10) ask_60_10 ?m) =
      (let delta = microprice_cents 40 60 30 10 (30 + 10) - f64_lit 0
       in if f64_lit 1 < delta then f64_lit 1 else if delta < - f64_lit 1 then - f64_lit 1 else f64_lit 0)"
    by (simp add: momentum_update_def quoted_40_60 Let_def book_consts)
  moreover have "is_finite (microprice_cents 40 60 30 10 (30 + 10))"
    using microprice_val(1) [of "30 + 10"] by simp
  ultimately have "fst (momentum_update (quoted_40_60 30 10) ask_60_10 ?m) = f64_lit 1"
    using f64_sub_finite [of "microprice_cents 40 60 30 10 (30 + 10)" "f64_lit 0"] abs_big [of 55]
    by (simp add: Let_def)
  moreover have "tradable (quoted_40_60 30 10)" by (simp add: tradable_def quoted_40_60)
  moreover have "rnds (3 / 5) \<le> 1" using unit_literal(4) [of "3 / 5"] by simp
  ultimately have "position_size (epm e') = 10 \<and>
      map (\<lambda>ev. (lsize ev, fval (lprice ev))) (filter (\<lambda>ev. event_type ev = CHR ''T'') evs) = [(10, rnds (3 / 5))]"
    using trades_follow_the_score [OF e(1) run] unfolding e(2,3) by (simp add: quoted_40_60)
  then show ?thesis by (intro exI [of _ e'] exI [of _ evs] conjI run) simp_all
qed

text \<open>
  C30: with both signals active the engine buys only on a tick on which the momentum signal answers 1 and sells only
  on one on which it answers -1: the order-flow signal can veto a trade but never cause one.
\<close>
theorem both_mode_needs_momentum:
  assumes "signals e = [Momentum_signal m, Ofi_signal a]" "process_tick clk t e = Some (e', evs)"
  defines "book \<equiv> apply_tick t (ebook e)"
  shows "(position_size (epm e) < position_size (epm e') \<longrightarrow> fst (momentum_update book t m) = f64_lit 1) \<and>
    (position_size (epm e') < position_size (epm e) \<longrightarrow> fst (momentum_update book t m) = - f64_lit 1)"
proof -
  have "position_size (epm e') = position_size (epm e) +
      (if tradable book then fst (decision_on book t (signals_of Both m a)) else 0)"
    using process_tick_position [OF assms(2)] unfolding book_def assms(1) by (simp add: signals_of_def)
  then show ?thesis
    using both_needs_momentum [of book t m a] by (auto simp: tradable_def split: if_splits)
qed

theorem both_mode_needs_momentum_witness:
  "\<exists>e' evs. process_tick (\<lambda>_. 0) ask_60_10 (quoted_engine [Momentum_signal momentum_init, Ofi_signal ofi_init]) = Some (e', evs) \<and>
    \<not> 0 < position_size (epm e') \<and> \<not> position_size (epm e') < 0"
proof -
  let ?e = "quoted_engine [Momentum_signal momentum_init, Ofi_signal ofi_init]"
  obtain e' evs where run: "process_tick (\<lambda>_. 0) ask_60_10 ?e = Some (e', evs)"
    by (rule quoted_engine_runs [of "[Momentum_signal momentum_init, Ofi_signal ofi_init]"]) (simp_all add: momentum_ok_init)
  have zero: "fst (momentum_update book t momentum_init) = f64_lit 0" for book t
    by (simp add: momentum_update_def momentum_init_def Let_def)
  have "f64_lit 0 \<noteq> f64_lit 1" "f64_lit 0 \<noteq> - f64_lit 1"
    using fval_zero fval_one fval_neg [of "f64_lit 1"] by (metis zero_neq_one neg_equal_0_iff_equal)+
  moreover have "signals ?e = [Momentum_signal momentum_init, Ofi_signal ofi_init]" "position_size (epm ?e) = 0"
    by (simp_all add: quoted_engine_def pm_init_def)
  ultimately show ?thesis using both_mode_needs_momentum [OF _ run, of momentum_init ofi_init] run
    by (intro exI [of _ e'] exI [of _ evs]) (auto simp: zero)
qed

text \<open>
  C34: for every selection of signals and every run of the engine that ends with a tradable book, a further tick that
  leaves both best prices and the two sizes at them unchanged, however unbalanced the book is, is processed
  without a trade: the position, the cash and the entry price stay, and no 'T' event is reported.
\<close>
theorem quiet_ticks_never_trade:
  fixes t :: market_tick
  assumes "run_ticks clk (ts @ [t0]) (engine_init sel) = Some (e, evs0)" "tradable (ebook e)"
  defines "book \<equiv> ebook e" and "book' \<equiv> apply_tick t (ebook e)"
  assumes "get_best_bid book' = get_best_bid book" "get_best_ask book' = get_best_ask book"
    and "get_bid_size book' (get_best_bid book) = get_bid_size book (get_best_bid book)"
    and "get_ask_size book' (get_best_ask book) = get_ask_size book (get_best_ask book)"
  shows "\<exists>e' evs. process_tick clk t e = Some (e', evs) \<and> epm e' = epm e \<and> CHR ''T'' \<notin> set (map event_type evs)"
proof -
  obtain e1 evs1 evs2 where run: "run_ticks clk ts (engine_init sel) = Some (e1, evs1)" "process_tick clk t0 e1 = Some (e, evs2)"
    using assms(1) by (auto simp: run_ticks_snoc split: bind_splits)
  have "signals (engine_init sel) = signals_of sel momentum_init ofi_init"
    by (simp add: engine_init_def make_signals_shape)
  then obtain m a where shape: "signals e1 = signals_of sel m a" using run_ticks_signals [OF run(1)] by blast
  have s: "signals e = signals_of sel (snd (momentum_update book t0 m)) (snd (ofi_update book t0 a))"
    using process_tick_signals(2) [OF run(2)] assms(2) unfolding shape signals_of_update book_def by simp
  have "fst (decision_on book' t (signals e)) = 0"
    unfolding s by (rule same_top_decision [OF assms(2) [folded book_def] assms(5-8)])
  then show ?thesis unfolding book'_def by (rule process_tick_no_trade)
qed

text \<open>The default mode, after the book has been quoted at 40 and 60 cents, and the ask once more.\<close>
theorem quiet_ticks_never_trade_witness:
  "\<exists>e evs0 e' evs. run_ticks (\<lambda>_. 0) [\<lparr>price = 40, tsize = 30, is_bid = True\<rparr>, ask_60_10] (engine_init Both) = Some (e, evs0) \<and>
    tradable (ebook e) \<and> process_tick (\<lambda>_. 0) ask_60_10 e = Some (e', evs) \<and> epm e' = epm e"
proof -
  let ?ts = "[\<lparr>price = 40, tsize = 30, is_bid = True\<rparr>]"
  obtain e evs0 where run: "run_ticks (\<lambda>_. 0) (?ts @ [ask_60_10]) (engine_init Both) = Some (e, evs0)"
    "ebook e = apply_ticks (?ts @ [ask_60_10]) (ebook (engine_init Both))"
    using engine_run [OF engine_ok_init, of "?ts @ [ask_60_10]" "\<lambda>_. 0" Both] by auto
  then have b: "ebook e = quoted_40_60 30 10" by (simp add: engine_init_def quoted_40_60_def ask_60_10_def)
  then have "tradable (ebook e)" by (simp add: tradable_def quoted_40_60)
  moreover from quiet_ticks_never_trade [OF run(1) this, of ask_60_10]
  have "\<exists>e' evs. process_tick (\<lambda>_. 0) ask_60_10 e = Some (e', evs) \<and> epm e' = epm e" by (auto simp: b quoted_repeat)
  ultimately show ?thesis using run(1) by auto
qed

text \<open>
  C29: a tick on a tradable book reports, in this order, one 'P' event if none was reported before, one 'T' event if it
  trades, and one 'P' event if the count of processed ticks is a multiple of 1000; a tick on any other book reports nothing,
  even when its count is a multiple of 1000.
\<close>
theorem event_schedule:
  assumes "process_tick clk t e = Some (e', evs)"
  defines "book \<equiv> apply_tick t (ebook e)"
  shows "map event_type evs =
      (if \<not> tradable book then []
       else (if emitted_initial_p e then [] else ''P'') @
            (if fst (decision_on book t (signals e)) = 0 then [] else ''T'') @
            (if (ticks_processed e + 1) mod 1000 = 0 then ''P'' else [])) \<and>
    ticks_processed e' = ticks_processed e + 1 \<and> emitted_initial_p e' = (emitted_initial_p e \<or> tradable book)"
proof (cases "tradable book")
  case False
  then show ?thesis using assms(1) process_tick_idle [of t e clk] by (auto simp: book_def)
next
  case True
  let ?d = "decision_on book t (signals e)"
  have "tick_effect book ?d (snd (update_signals book t (f64_lit 0) (signals e))) e (e', evs)"
    using process_tick_tradable [OF True [unfolded book_def], of clk] assms(1) unfolding book_def by (auto split: if_splits)
  then obtain initial trade periodic where evs: "evs = initial @ trade @ periodic"
    and i: "map event_type initial = (if emitted_initial_p e then [] else ''P'')"
    and tr: "map event_type trade = (if fst ?d = 0 then [] else ''T'')"
    and p: "map event_type periodic = (if (ticks_processed e + 1) mod 1000 = 0 then ''P'' else [])"
    and e': "ticks_processed e' = ticks_processed e + 1" "emitted_initial_p e'"
    unfolding tick_effect_def prod.case
    by (elim conjE exE) (rule that, assumption, simp_all add: p_row_def t_row_def make_event_def Let_def split: if_splits, auto)
  show ?thesis unfolding evs map_append i tr p using True e' by simp
qed

theorem event_schedule_witness:
  "\<exists>e' evs. process_tick (\<lambda>_. 0) ask_60_10 (quoted_engine [] \<lparr>emitted_initial_p := False, ticks_processed := 999\<rparr>) = Some (e', evs) \<and>
     map event_type evs = ''PP''"
proof -
  let ?e = "quoted_engine [] \<lparr>emitted_initial_p := False, ticks_processed := 999\<rparr>"
  have "engine_ok 0 ?e" using quoted_engine_ok [of "[]"] by (simp add: engine_ok_def)
  then obtain e' evs where run: "process_tick (\<lambda>_. 0) ask_60_10 ?e = Some (e', evs)"
    using engine_step by (metis zero_less_numeral zero_less_power)
  have "\<not> kTradeThreshold \<le> f64_lit 0" "\<not> f64_lit 0 \<le> - kTradeThreshold" using threshold_val by simp_all
  then have "fst (decision_on book ask_60_10 []) = 0" for book
    by (simp add: decision_on_def trade_decision_def combine_scores_def)
  moreover have "tradable (quoted_40_60 30 10)" by (simp add: tradable_def quoted_40_60)
  moreover have "apply_tick ask_60_10 (ebook ?e) = quoted_40_60 30 10" "signals ?e = []"
    by (simp_all add: quoted_engine_def quoted_repeat)
  ultimately have "map event_type evs = ''PP''" using event_schedule [OF run] by simp
  with run show ?thesis by (intro exI conjI)
qed

text \<open>
  A tick that leaves the book one-sided updates the book and the tick count and nothing else: the signals are
  not called. So the reset that \<open>OFIAlpha::update\<close> performs on a one-sided book never happens in the engine, and the first
  tick after the gap is scored against the top of the book before the gap.
\<close>
theorem one_sided_ticks_skip_the_signals:
  assumes "one_sided (apply_tick t (ebook e))" "signals e = [Ofi_signal a]" "initialized a"
  shows "process_tick clk t e = Some (e\<lparr>ebook := apply_tick t (ebook e), ticks_processed := ticks_processed e + 1,
      clock_reads := Suc (clock_reads e)\<rparr>, []) \<and>
    snd (ofi_update (apply_tick t (ebook e)) t a) = a\<lparr>initialized := False\<rparr> \<and>
    signals (fst (the (process_tick clk t e))) = [Ofi_signal a]"
proof -
  have "\<not> tradable (apply_tick t (ebook e))" using assms(1) by (simp add: tradable_def)
  from process_tick_idle [OF this, of clk] show ?thesis using assms by (simp add: ofi_one_sided)
qed

theorem one_sided_ticks_skip_the_signals_witness:
  "signals (fst (the (process_tick (\<lambda>_. 0) ask_60_10 (engine_init Ofi \<lparr>signals := [Ofi_signal (ofi_init\<lparr>initialized := True\<rparr>)]\<rparr>)))) =
     [Ofi_signal (ofi_init\<lparr>initialized := True\<rparr>)]"
proof -
  let ?e = "engine_init Ofi \<lparr>signals := [Ofi_signal (ofi_init\<lparr>initialized := True\<rparr>)]\<rparr>"
  have "get_best_bid (apply_tick ask_60_10 empty_book) = kNoBid"
    using lob.no_bid_iff [of "apply_tick ask_60_10 empty_book"] by (simp add: depth_apply_tick ask_60_10_def)
  then have "one_sided (apply_tick ask_60_10 (ebook ?e))" by (simp add: one_sided_def engine_init_def)
  then show ?thesis using one_sided_ticks_skip_the_signals [of ask_60_10 ?e "ofi_init\<lparr>initialized := True\<rparr>" "\<lambda>_. 0"] by simp
qed

end
