(* ===== verification/PriceText.thy ===== *)
theory PriceText
  imports Prelude "HOL-Library.Monad_Syntax"
begin

text \<open>
  The text conversions of \<open>include/market_parser.hpp\<close>: \<open>parse_u32\<close>, \<open>parse_size_u32\<close>,
  \<open>parse_price_cents\<close> and \<open>in_price_range\<close>, on strings as character lists, with the 32-bit arithmetic of the code.
  A function that the code lets return false is \<open>None\<close>; otherwise the value is what it stores into its out parameter.

  The specifications relate the results to the number a text denotes, \<open>text_value\<close>.
\<close>

section \<open>The conversions\<close>

definition is_digit :: "char \<Rightarrow> bool" where
  "is_digit c \<longleftrightarrow> 48 \<le> (of_char c :: nat) \<and> (of_char c :: nat) \<le> 57"

definition digit :: "char \<Rightarrow> nat" where
  "digit c = of_char c - 48"

definition dec_value :: "string \<Rightarrow> nat" where
  "dec_value = foldl (\<lambda>n c. n * 10 + digit c) 0"

datatype errc = Errc_ok | Invalid_argument | Result_out_of_range

text \<open>\<open>std::from_chars\<close> for an unsigned type in base 10: error code, the text from \<open>ptr\<close> on, and the value.\<close>

definition from_chars_u32 :: "string \<Rightarrow> errc \<times> string \<times> u32" where
  "from_chars_u32 sv =
     (let ds = takeWhile is_digit sv; rest = dropWhile is_digit sv
      in if ds = [] then (Invalid_argument, sv, 0)
         else if 2 ^ 32 \<le> dec_value ds then (Result_out_of_range, rest, 0)
         else (Errc_ok, rest, word_of_nat (dec_value ds)))"

definition parse_u32 :: "string \<Rightarrow> u32 option" where
  "parse_u32 sv =
     (if sv = [] then None
      else let (ec, ptr, v) = from_chars_u32 sv
           in if ec \<noteq> Errc_ok \<or> ptr \<noteq> [] then None else Some v)"

definition find_dot :: "string \<Rightarrow> nat option" where
  "find_dot sv = (if CHR ''.'' \<in> set sv then Some (length (takeWhile (\<lambda>c. c \<noteq> CHR ''.'') sv)) else None)"

definition parse_whole :: "string \<Rightarrow> u32 option" where
  "parse_whole int_part = (if int_part \<noteq> [] then parse_u32 int_part else Some 0)"

fun scan_fraction :: "bool \<Rightarrow> string \<Rightarrow> bool option" where
  "scan_fraction any_nonzero [] = Some any_nonzero"
| "scan_fraction any_nonzero (c # cs) =
     (if \<not> is_digit c then None
      else scan_fraction (if c \<noteq> CHR ''0'' then True else any_nonzero) cs)"

fun scale_digits :: "nat \<Rightarrow> string \<Rightarrow> u32 \<Rightarrow> nat \<times> u32" where
  "scale_digits (Suc left) (c # cs) acc = scale_digits left cs (acc * 10 + word_of_nat (digit c))"
| "scale_digits left cs acc = (left, acc)"

fun scale_padding :: "nat \<Rightarrow> u32 \<Rightarrow> u32" where
  "scale_padding 0 acc = acc"
| "scale_padding (Suc left) acc = scale_padding left (acc * 10)"

definition parse_size_u32 :: "string \<Rightarrow> u32 option" where
  "parse_size_u32 sv =
     (if sv = [] then None
      else case find_dot sv of
        None \<Rightarrow> parse_u32 sv
      | Some dot \<Rightarrow>
          let int_part = take dot sv; frac_part = drop (dot + 1) sv
          in do {
            whole \<leftarrow> parse_whole int_part;
            if frac_part = [] then Some whole
            else do {
              any_nonzero \<leftarrow> scan_fraction False frac_part;
              if \<not> any_nonzero then Some whole
              else
                let (left, acc) = scale_digits 6 frac_part 0;
                    frac_scaled = scale_padding left acc;
                    scaled = (ucast whole :: u64) * 1000000 + ucast frac_scaled
                in if 4294967295 < scaled then None else Some (ucast scaled)
            }
          })"

definition digit_or_zero :: "string \<Rightarrow> nat \<Rightarrow> u32" where
  "digit_or_zero frac_part idx =
     (if length frac_part \<le> idx then 0
      else let c = frac_part ! idx in if \<not> is_digit c then 10 else word_of_nat (digit c))"

definition parse_price_cents :: "string \<Rightarrow> u32 option" where
  "parse_price_cents sv =
     (if sv = [] then None
      else case find_dot sv of
        None \<Rightarrow> parse_u32 sv
      | Some dot \<Rightarrow>
          let int_part = take dot sv; frac_part = drop (dot + 1) sv
          in if frac_part = [] then None
             else do {
               whole \<leftarrow> parse_whole int_part;
               let d0 = digit_or_zero frac_part 0;
               let d1 = digit_or_zero frac_part 1;
               if 9 < d0 \<or> 9 < d1 then None
               else if 3 \<le> length frac_part \<and> \<not> is_digit (frac_part ! 2) then None
               else
                 let rounding_digit = (if 3 \<le> length frac_part then word_of_nat (digit (frac_part ! 2)) else (0 :: u32))
                 in if \<not> list_all is_digit (drop 3 frac_part) then None
                    else
                      let cents = whole * 100 + (d0 * 10 + d1)
                      in Some (if 5 \<le> rounding_digit then cents + 1 else cents)
             })"

definition in_price_range :: "u32 \<Rightarrow> bool" where
  "in_price_range cents \<longleftrightarrow> 0 \<le> cents \<and> cents \<le> 100"

section \<open>Decimal numerals\<close>

lemma dec_value_Nil [simp]: "dec_value [] = 0"
  by (simp add: dec_value_def)

lemma dec_value_snoc [simp]: "dec_value (cs @ [c]) = dec_value cs * 10 + digit c"
  by (simp add: dec_value_def)

lemma dec_value_append: "dec_value (cs @ ds) = dec_value cs * 10 ^ length ds + dec_value ds"
  by (induction ds rule: rev_induct) (simp_all add: algebra_simps flip: append_assoc)

lemma dec_value_Cons: "dec_value (c # cs) = digit c * 10 ^ length cs + dec_value cs"
  using dec_value_append [of "[c]" cs] by (simp add: dec_value_def)

lemma digit_le: "is_digit c \<Longrightarrow> digit c \<le> 9"
  by (auto simp: is_digit_def digit_def)

lemma dec_value_less: "list_all is_digit cs \<Longrightarrow> dec_value cs < 10 ^ length cs"
proof (induction cs rule: rev_induct)
  case (snoc c cs)
  then have "digit c \<le> 9" "dec_value cs < 10 ^ length cs" by (simp_all add: digit_le)
  then show ?case by simp
qed simp

lemma digit_zero_iff: "is_digit c \<Longrightarrow> digit c = 0 \<longleftrightarrow> c = CHR ''0''"
proof -
  assume "is_digit c"
  then have "digit c = 0 \<longleftrightarrow> (of_char c :: nat) = 48" by (auto simp: is_digit_def digit_def)
  also have "\<dots> \<longleftrightarrow> (of_char c :: nat) = of_char (CHR ''0'')" by simp
  also have "\<dots> \<longleftrightarrow> c = CHR ''0''" by (simp only: of_char_eq_iff)
  finally show ?thesis .
qed

lemma not_digit_dot: "\<not> is_digit (CHR ''.'')"
  by (simp add: is_digit_def)

text \<open>The exact value of \<open>parse_u32\<close>.\<close>

lemma parse_u32_Some:
  "parse_u32 sv = Some v \<longleftrightarrow> sv \<noteq> [] \<and> list_all is_digit sv \<and> dec_value sv < 2 ^ 32 \<and> v = word_of_nat (dec_value sv)"
proof (cases "list_all is_digit sv")
  case True
  then have eq: "takeWhile is_digit sv = sv" "dropWhile is_digit sv = []"
    by (simp_all add: list_all_iff)
  show ?thesis unfolding parse_u32_def from_chars_u32_def Let_def eq using True by auto
next
  case False
  then have "dropWhile is_digit sv \<noteq> []" by (simp add: list_all_iff)
  with False show ?thesis by (auto simp: parse_u32_def from_chars_u32_def Let_def)
qed

lemma parse_whole_Some:
  "parse_whole sv = Some v \<longleftrightarrow> list_all is_digit sv \<and> dec_value sv < 2 ^ 32 \<and> v = word_of_nat (dec_value sv)"
  by (auto simp: parse_whole_def parse_u32_Some)

lemma find_dot_split:
  assumes "CHR ''.'' \<notin> set w"
  shows "find_dot (w @ CHR ''.'' # f) = Some (length w)" "take (length w) (w @ CHR ''.'' # f) = w"
    "drop (length w + 1) (w @ CHR ''.'' # f) = f"
proof -
  have "takeWhile (\<lambda>c. c \<noteq> CHR ''.'') (w @ CHR ''.'' # f) = w"
    using assms by (subst takeWhile_append2) auto
  then show "find_dot (w @ CHR ''.'' # f) = Some (length w)" by (simp add: find_dot_def)
qed simp_all

lemma find_dot_cases:
  obtains "CHR ''.'' \<notin> set sv" "find_dot sv = None"
  | w f where "sv = w @ CHR ''.'' # f" "CHR ''.'' \<notin> set w"
proof (cases "CHR ''.'' \<in> set sv")
  case True
  then show ?thesis using that(2) split_list_first [OF True] by blast
qed (use that(1) in \<open>simp add: find_dot_def\<close>)

lemma digits_no_dot: "list_all is_digit w \<Longrightarrow> CHR ''.'' \<notin> set w"
  using not_digit_dot by (auto simp: list_all_iff)

section \<open>The number a text denotes\<close>

definition text_value :: "string \<Rightarrow> string \<Rightarrow> rat" where
  "text_value w f = of_nat (dec_value w) + of_nat (dec_value f) / 10 ^ length f"

text \<open>The rounded number of cents: the first three fractional digits decide.\<close>

definition cents_of :: "string \<Rightarrow> string \<Rightarrow> nat" where
  "cents_of w f = dec_value w * 100 +
     (if f = [] then 0 else digit (f ! 0)) * 10 + (if length f \<le> 1 then 0 else digit (f ! 1)) +
     (if 3 \<le> length f \<and> 5 \<le> digit (f ! 2) then 1 else 0)"

lemma digit_or_zero_digits:
  assumes "list_all is_digit f"
  shows "digit_or_zero f i = word_of_nat (if length f \<le> i then 0 else digit (f ! i))" "digit_or_zero f i \<le> 9"
proof -
  show eq: "digit_or_zero f i = word_of_nat (if length f \<le> i then 0 else digit (f ! i))"
    using assms by (auto simp: digit_or_zero_def list_all_length not_le)
  have "(if length f \<le> i then 0 else digit (f ! i)) \<le> 9"
    using assms digit_le by (auto simp: list_all_length not_le)
  then show "digit_or_zero f i \<le> 9"
    unfolding eq by (simp add: word_le_nat_alt unat_of_nat)
qed

lemma digit_or_zero_bad: "i < length f \<Longrightarrow> \<not> is_digit (f ! i) \<Longrightarrow> 9 < digit_or_zero f i"
  by (simp add: digit_or_zero_def)

lemma all_digits_split:
  "list_all is_digit f \<longleftrightarrow>
     (\<forall>i < 2. i < length f \<longrightarrow> is_digit (f ! i)) \<and> (3 \<le> length f \<longrightarrow> is_digit (f ! 2)) \<and> list_all is_digit (drop 3 f)"
proof -
  have "list_all is_digit f \<longleftrightarrow> (\<forall>i < length f. is_digit (f ! i))" by (simp add: list_all_length)
  also have "\<dots> \<longleftrightarrow> (\<forall>i < length f. i < 3 \<longrightarrow> is_digit (f ! i)) \<and> (\<forall>i < length f - 3. is_digit (f ! (3 + i)))"
    by (metis add.commute add_diff_inverse_nat less_diff_conv)
  also have "(\<forall>i < length f - 3. is_digit (f ! (3 + i))) \<longleftrightarrow> list_all is_digit (drop 3 f)"
    by (simp add: list_all_length)
  also have "(\<forall>i < length f. i < 3 \<longrightarrow> is_digit (f ! i)) \<longleftrightarrow>
      (\<forall>i < 2. i < length f \<longrightarrow> is_digit (f ! i)) \<and> (3 \<le> length f \<longrightarrow> is_digit (f ! 2))"
  proof
    assume l: "\<forall>i < length f. i < 3 \<longrightarrow> is_digit (f ! i)"
    show "(\<forall>i < 2. i < length f \<longrightarrow> is_digit (f ! i)) \<and> (3 \<le> length f \<longrightarrow> is_digit (f ! 2))"
      using l l [rule_format, of 2] by simp
  next
    assume r: "(\<forall>i < 2. i < length f \<longrightarrow> is_digit (f ! i)) \<and> (3 \<le> length f \<longrightarrow> is_digit (f ! 2))"
    have "is_digit (f ! i)" if "i < length f" "i < 3" for i
    proof -
      have "i < 2 \<or> i = 2" using that(2) by linarith
      then show ?thesis using r that(1) by auto
    qed
    then show "\<forall>i < length f. i < 3 \<longrightarrow> is_digit (f ! i)" by blast
  qed
  finally show ?thesis by simp
qed

lemma parse_price_digits:
  assumes "list_all is_digit w" "dec_value w < 2 ^ 32" "list_all is_digit f" "f \<noteq> []"
  shows "parse_price_cents (w @ CHR ''.'' # f) = Some (word_of_nat (cents_of w f))"
proof -
  note dot = find_dot_split [OF digits_no_dot [OF assms(1)], of f]
  have w: "parse_whole w = Some (word_of_nat (dec_value w))" using assms(1,2) by (simp add: parse_whole_Some)
  have d: "\<not> (9 < digit_or_zero f 0 \<or> 9 < digit_or_zero f 1)"
    using digit_or_zero_digits(2) [OF assms(3)] by (simp add: not_less)
  have t: "\<not> (3 \<le> length f \<and> \<not> is_digit (f ! 2))" "list_all is_digit (drop 3 f)"
    using assms(3) all_digits_split [of f] by blast+
  have r: "5 \<le> (word_of_nat (digit (f ! 2)) :: u32) \<longleftrightarrow> 5 \<le> digit (f ! 2)" if "3 \<le> length f"
  proof -
    have "digit (f ! 2) \<le> 9" using t(1) that digit_le by blast
    then show ?thesis by (simp add: word_le_nat_alt unat_of_nat)
  qed
  have "parse_price_cents (w @ CHR ''.'' # f) = Some
      (let cents = word_of_nat (dec_value w) * 100 + (digit_or_zero f 0 * 10 + digit_or_zero f 1)
       in if 5 \<le> (if 3 \<le> length f then word_of_nat (digit (f ! 2)) else (0 :: u32)) then cents + 1 else cents)"
    using assms(4) w d t by (simp add: parse_price_cents_def dot Let_def)
  also have "\<dots> = Some (word_of_nat (cents_of w f))"
  proof (cases "3 \<le> length f \<and> 5 \<le> digit (f ! 2)")
    case True
    then have "\<not> length f \<le> 1" by linarith
    with True r assms(4) show ?thesis
      by (simp add: digit_or_zero_digits(1) [OF assms(3)] cents_of_def Let_def algebra_simps)
  next
    case False
    have zero: "\<not> 5 \<le> (0 :: u32)" by (simp add: word_le_nat_alt)
    from False have "\<not> 5 \<le> (if 3 \<le> length f then word_of_nat (digit (f ! 2)) else (0 :: u32))"
      using r zero by (cases "3 \<le> length f") (simp_all only: if_True if_False simp_thms)
    then show ?thesis using False assms(4)
      by (simp only: Let_def if_False cents_of_def digit_or_zero_digits(1) [OF assms(3)]) simp
  qed
  finally show ?thesis .
qed

lemma parse_price_dot:
  assumes "parse_price_cents (w @ CHR ''.'' # f) = Some v" "CHR ''.'' \<notin> set w"
  shows "list_all is_digit w \<and> dec_value w < 2 ^ 32 \<and> list_all is_digit f \<and> f \<noteq> []"
proof -
  have run: "f \<noteq> []" "\<exists>x. parse_whole w = Some x" "\<not> 9 < digit_or_zero f 0" "\<not> 9 < digit_or_zero f 1"
    "3 \<le> length f \<longrightarrow> is_digit (f ! 2)" "list_all is_digit (drop 3 f)"
    using assms(1) unfolding parse_price_cents_def Let_def find_dot_split [OF assms(2)]
    by (auto split: if_splits bind_splits)
  have "is_digit (f ! i)" if "i < 2" "i < length f" for i
  proof -
    have "i = 0 \<or> i = 1" using that(1) by auto
    then show ?thesis using run(3,4) digit_or_zero_bad [of i f] that(2) by auto
  qed
  then have "list_all is_digit f" unfolding all_digits_split [of f] using run(5,6) by blast
  then show ?thesis using run(1,2) by (auto simp: parse_whole_Some)
qed

text \<open>Every text that \<open>parse_price_cents\<close> accepts, and what it makes of it.\<close>

lemma parse_price_Some:
  "parse_price_cents sv = Some v \<longleftrightarrow>
     sv \<noteq> [] \<and> list_all is_digit sv \<and> dec_value sv < 2 ^ 32 \<and> v = word_of_nat (dec_value sv) \<or>
     (\<exists>w f. sv = w @ CHR ''.'' # f \<and> list_all is_digit w \<and> dec_value w < 2 ^ 32 \<and> list_all is_digit f \<and> f \<noteq> [] \<and>
        v = word_of_nat (cents_of w f))"
proof (cases rule: find_dot_cases [of sv])
  case 1
  then have "parse_price_cents sv = (if sv = [] then None else parse_u32 sv)" by (simp add: parse_price_cents_def)
  moreover have "\<not> (\<exists>w f. sv = w @ CHR ''.'' # f)" using 1(1) by auto
  ultimately show ?thesis by (auto simp: parse_u32_Some)
next
  case (2 w f)
  have uniq: "w' = w \<and> f' = f" if "sv = w' @ CHR ''.'' # f'" "list_all is_digit w'" for w' f'
    using that 2 digits_no_dot [OF that(2)] find_dot_split [of w' f'] find_dot_split [of w f]
    by (metis option.inject)
  have nd: "\<not> list_all is_digit sv" using 2(1) not_digit_dot by simp
  show ?thesis
  proof
    assume "parse_price_cents sv = Some v"
    then have "parse_price_cents (w @ CHR ''.'' # f) = Some v" by (simp only: 2(1))
    from parse_price_dot [OF this 2(2)] parse_price_digits [of w f] this 2(1) show
      "sv \<noteq> [] \<and> list_all is_digit sv \<and> dec_value sv < 2 ^ 32 \<and> v = word_of_nat (dec_value sv) \<or>
       (\<exists>w f. sv = w @ CHR ''.'' # f \<and> list_all is_digit w \<and> dec_value w < 2 ^ 32 \<and> list_all is_digit f \<and> f \<noteq> [] \<and>
        v = word_of_nat (cents_of w f))" by auto
  qed (use nd parse_price_digits in auto)
qed

text \<open>The digits that \<open>cents_of\<close> reads round the fraction half up to hundredths.\<close>

lemma half_up_tail:
  fixes r :: rat
  assumes "d \<le> 9" "0 \<le> r" "r < 1"
  shows "\<lfloor>(of_nat d + r) / 10 + 1 / 2\<rfloor> = (if 5 \<le> d then 1 else 0)"
proof (cases "5 \<le> d")
  case True
  then have "(5 :: rat) \<le> of_nat d" "of_nat d \<le> (9 :: rat)"
    using assms(1) of_nat_le_iff [of 5 d, where 'a = rat] of_nat_le_iff [of d 9, where 'a = rat] by simp_all
  then show ?thesis using True assms(2,3) by (simp add: floor_eq_iff field_simps)
next
  case False
  then have "of_nat d \<le> (4 :: rat)" using of_nat_le_iff [of d 4, where 'a = rat] by simp
  moreover have "0 \<le> (of_nat d :: rat)" by simp
  ultimately show ?thesis using False assms(2,3) by (simp add: floor_eq_iff field_simps)
qed

lemma fraction_bounds:
  assumes "list_all is_digit f"
  shows "0 \<le> (of_nat (dec_value f) / 10 ^ length f :: rat)" "(of_nat (dec_value f) / 10 ^ length f :: rat) < 1"
proof -
  have "(of_nat (dec_value f) :: rat) < of_nat (10 ^ length f)"
    unfolding of_nat_less_iff using assms by (rule dec_value_less)
  then show "(of_nat (dec_value f) / 10 ^ length f :: rat) < 1" by simp
qed simp

lemma fraction_Cons:
  "(of_nat (dec_value (c # f)) / 10 ^ length (c # f) :: rat) = (of_nat (digit c) + of_nat (dec_value f) / 10 ^ length f) / 10"
  by (simp add: dec_value_Cons field_simps)

lemma floor_half: "\<lfloor>1 / 2 :: rat\<rfloor> = 0"
  by (simp add: floor_eq_iff)

lemma floor_shift: "\<lfloor>of_nat n + x + 1 / 2\<rfloor> = int n + \<lfloor>x + 1 / 2 :: rat\<rfloor>"
proof -
  have "of_nat n + x + 1 / 2 = (x + 1 / 2) + of_int (int n)" by simp
  then show ?thesis by (simp only: floor_add_int [symmetric])
qed

lemma cents_of_rounds:
  assumes "list_all is_digit f" "f \<noteq> []"
  shows "int (cents_of w f) = \<lfloor>text_value w f * 100 + 1 / 2\<rfloor>"
proof -
  obtain c f1 where f: "f = c # f1" using assms(2) by (cases f) auto
  show ?thesis
  proof (cases f1)
    case Nil
    have "text_value w f * 100 = of_nat (dec_value w * 100 + digit c * 10)"
      by (simp add: text_value_def f Nil dec_value_Cons)
    then have "\<lfloor>text_value w f * 100 + 1 / 2\<rfloor> = int (dec_value w * 100 + digit c * 10) + \<lfloor>1 / 2 :: rat\<rfloor>"
      using floor_shift [of "dec_value w * 100 + digit c * 10" 0] by (simp only: add_0_right add_0_left)
    then show ?thesis using floor_half by (simp add: cents_of_def f Nil)
  next
    case (Cons d f2)
    define x where "x = (of_nat (dec_value f2) / 10 ^ length f2 :: rat)"
    have x: "0 \<le> x" "x < 1" unfolding x_def using fraction_bounds [of f2] assms(1) by (simp_all add: f Cons)
    have v: "text_value w f * 100 = of_nat (dec_value w * 100 + digit c * 10 + digit d) + x"
      unfolding text_value_def f Cons fraction_Cons x_def [symmetric] by simp
    have "\<lfloor>text_value w f * 100 + 1 / 2\<rfloor> = int (dec_value w * 100 + digit c * 10 + digit d) + \<lfloor>x + 1 / 2\<rfloor>"
      unfolding v by (rule floor_shift)
    moreover have "\<lfloor>x + 1 / 2\<rfloor> = (if 3 \<le> length f \<and> 5 \<le> digit (f ! 2) then 1 else 0)"
    proof (cases f2)
      case Nil
      then show ?thesis using floor_half by (simp add: x_def f Cons)
    next
      case (Cons g f3)
      have "digit g \<le> 9" using assms(1) digit_le by (simp add: f \<open>f1 = d # f2\<close> Cons)
      moreover have "0 \<le> (of_nat (dec_value f3) / 10 ^ length f3 :: rat)" "(of_nat (dec_value f3) / 10 ^ length f3 :: rat) < 1"
        using fraction_bounds [of f3] assms(1) by (simp_all add: f \<open>f1 = d # f2\<close> Cons)
      ultimately have "\<lfloor>x + 1 / 2\<rfloor> = (if 5 \<le> digit g then 1 else 0)"
        unfolding x_def Cons fraction_Cons by (rule half_up_tail)
      then show ?thesis by (simp add: f \<open>f1 = d # f2\<close> Cons)
    qed
    ultimately show ?thesis by (simp add: cents_of_def f Cons)
  qed
qed

section \<open>Sizes\<close>

lemma scan_fraction_eq:
  "scan_fraction b f = (if list_all is_digit f then Some (b \<or> dec_value f \<noteq> 0) else None)"
proof (induction f arbitrary: b)
  case (Cons c f)
  then show ?case using digit_zero_iff [of c] by (auto simp: dec_value_Cons)
qed simp

lemma scale_digits_eq:
  "scale_digits k f (word_of_nat n) =
     (k - length f, word_of_nat (n * 10 ^ min k (length f) + dec_value (take k f)))"
proof (induction k f "word_of_nat n :: u32" arbitrary: n rule: scale_digits.induct)
  case (1 k c f)
  have "(word_of_nat n * 10 + word_of_nat (digit c) :: u32) = word_of_nat (n * 10 + digit c)" by simp
  from "1.hyps" [OF this] have "scale_digits (Suc k) (c # f) (word_of_nat n) =
      (k - length f, word_of_nat ((n * 10 + digit c) * 10 ^ min k (length f) + dec_value (take k f)))"
    by simp
  also have "(n * 10 + digit c) * 10 ^ min k (length f) + dec_value (take k f) =
      n * 10 ^ min (Suc k) (length (c # f)) + dec_value (take (Suc k) (c # f))"
    by (simp add: dec_value_Cons algebra_simps min.commute)
  finally show ?case by simp
qed simp_all

lemma scale_padding_eq: "scale_padding k (word_of_nat n) = word_of_nat (n * 10 ^ k)"
proof (induction k arbitrary: n)
  case (Suc k)
  have "(word_of_nat n * 10 :: u32) = word_of_nat (n * 10)" by simp
  then show ?case using Suc [of "n * 10"] by (simp add: algebra_simps)
qed simp

definition micro_units :: "string \<Rightarrow> nat" where
  "micro_units f = dec_value (take 6 f) * 10 ^ (6 - length f)"

lemma micro_units_less: "list_all is_digit f \<Longrightarrow> micro_units f < 10 ^ 6"
proof -
  assume "list_all is_digit f"
  then have "list_all is_digit (take 6 f)" by (auto simp: list_all_iff dest: in_set_takeD)
  then have "dec_value (take 6 f) < 10 ^ length (take 6 f)" by (rule dec_value_less)
  then have "micro_units f < 10 ^ length (take 6 f) * 10 ^ (6 - length f)"
    unfolding micro_units_def by (rule mult_strict_right_mono) simp
  also have "\<dots> = 10 ^ 6" by (simp add: power_add [symmetric] min_def)
  finally show ?thesis .
qed

lemma micro_units_floor:
  assumes "list_all is_digit f"
  shows "int (dec_value w * 10 ^ 6 + micro_units f) = \<lfloor>text_value w f * 10 ^ 6\<rfloor>"
proof -
  have shift: "\<lfloor>of_nat n + x\<rfloor> = int n + \<lfloor>x :: rat\<rfloor>" for n x
    by (metis add.commute floor_add_int of_int_of_nat_eq)
  have v: "text_value w f * 10 ^ 6 = of_nat (dec_value w * 10 ^ 6) + of_nat (dec_value f) / 10 ^ length f * 10 ^ 6"
    by (simp add: text_value_def algebra_simps)
  have "\<lfloor>of_nat (dec_value f) / 10 ^ length f * 10 ^ 6 :: rat\<rfloor> = int (micro_units f)"
  proof (cases "length f \<le> 6")
    case True
    then have "(10 :: rat) ^ 6 = 10 ^ (6 - length f) * 10 ^ length f" by (simp add: power_add [symmetric])
    moreover have "x / 10 ^ length f * (y * 10 ^ length f) = x * y" for x y :: rat by simp
    ultimately have "of_nat (dec_value f) / 10 ^ length f * 10 ^ 6 = (of_nat (dec_value f) * 10 ^ (6 - length f) :: rat)"
      by (simp only:)
    also have "\<dots> = of_nat (micro_units f)" using True by (simp add: micro_units_def)
    finally have "of_nat (dec_value f) / 10 ^ length f * 10 ^ 6 = (of_nat (micro_units f) :: rat)" .
    then show ?thesis by simp
  next
    case False
    define r where "r = length f - 6"
    have len: "length f = 6 + r" "length (drop 6 f) = r" using False by (simp_all add: r_def)
    have "list_all is_digit (drop 6 f)" using assms by (auto simp: list_all_iff dest: in_set_dropD)
    note b = fraction_bounds [OF this, unfolded len(2)]
    have "dec_value f = dec_value (take 6 f) * 10 ^ r + dec_value (drop 6 f)"
      using dec_value_append [of "take 6 f" "drop 6 f"] len(2) by simp
    then have "of_nat (dec_value f) / 10 ^ length f * 10 ^ 6 =
        of_nat (dec_value (take 6 f)) + (of_nat (dec_value (drop 6 f)) / 10 ^ r :: rat)"
      unfolding len(1) by (simp add: power_add field_simps)
    also have "\<lfloor>\<dots>\<rfloor> = int (dec_value (take 6 f)) + 0"
      unfolding shift using b by (simp add: floor_eq_iff)
    finally show ?thesis using False by (simp add: micro_units_def)
  qed
  then show ?thesis unfolding v shift by simp
qed

text \<open>The units of a decimal size: whole units if the fraction is zero, millionths otherwise.\<close>

definition size_units :: "string \<Rightarrow> string \<Rightarrow> nat" where
  "size_units w f = (if dec_value f = 0 then dec_value w else dec_value w * 10 ^ 6 + micro_units f)"

lemma len64: "LENGTH(64) = 64"
  by simp

lemma u32_of_nat_iff: "n < 2 ^ 32 \<Longrightarrow> (v :: u32) = word_of_nat n \<longleftrightarrow> unat v = n"
proof -
  assume "n < 2 ^ 32"
  then have "unat (word_of_nat n :: u32) = n" by (simp add: unat_of_nat)
  then show ?thesis by (metis unsigned_word_eqI)
qed

lemma widen: "n < 2 ^ 32 \<Longrightarrow> (ucast (word_of_nat n :: u32) :: u64) = word_of_nat n"
proof -
  assume "n < 2 ^ 32"
  then have "unat (ucast (word_of_nat n :: u32) :: u64) = unat (word_of_nat n :: u64)"
    by (simp add: unsigned_ucast_eq unat_of_nat take_bit_nat_eq_self)
  then show ?thesis by (rule unsigned_word_eqI)
qed

lemma parse_size_digits:
  assumes "list_all is_digit w" "dec_value w < 2 ^ 32" "list_all is_digit f"
  shows "parse_size_u32 (w @ CHR ''.'' # f) = (if size_units w f < 2 ^ 32 then Some (word_of_nat (size_units w f)) else None)"
proof -
  have w: "parse_whole w = Some (word_of_nat (dec_value w))" using assms(1,2) by (simp add: parse_whole_Some)
  have run: "parse_size_u32 (w @ CHR ''.'' # f) =
      (if f = [] then Some (word_of_nat (dec_value w))
       else if dec_value f = 0 then Some (word_of_nat (dec_value w))
       else let (left, acc) = scale_digits 6 f 0;
                scaled = (ucast (word_of_nat (dec_value w) :: u32) :: u64) * 1000000 + ucast (scale_padding left acc)
            in if 4294967295 < scaled then None else Some (ucast scaled))"
    using assms(3) w
    by (simp add: parse_size_u32_def find_dot_split [OF digits_no_dot [OF assms(1)], of f] scan_fraction_eq Let_def)
  show ?thesis
  proof (cases "dec_value f = 0")
    case True
    then show ?thesis using assms(2) by (simp add: run size_units_def)
  next
    case False
    then have ne: "f \<noteq> []" by auto
    have small: "micro_units f < 10 ^ 6" by (rule micro_units_less [OF assms(3)])
    have acc: "(case scale_digits 6 f 0 of (left, acc) \<Rightarrow> scale_padding left acc) = word_of_nat (micro_units f)"
      using scale_digits_eq [of 6 f 0] by (simp add: scale_padding_eq micro_units_def)
    define s where "s = (ucast (word_of_nat (dec_value w) :: u32) :: u64) * 1000000 + ucast (word_of_nat (micro_units f) :: u32)"
    have units: "size_units w f = dec_value w * 10 ^ 6 + micro_units f" using False by (simp add: size_units_def)
    have s: "s = word_of_nat (size_units w f)"
      using assms(2) small by (simp add: s_def units widen)
    have s_nat: "unat s = size_units w f"
    proof -
      have "size_units w f < 2 ^ 64" using assms(2) small by (simp add: units)
      then show ?thesis unfolding s by (simp only: unat_of_nat len64 mod_less)
    qed
    have "parse_size_u32 (w @ CHR ''.'' # f) = (if 4294967295 < s then None else Some (ucast s))"
      using ne False acc by (simp add: run s_def case_prod_beta Let_def)
    also have "(4294967295 < s) = (\<not> size_units w f < 2 ^ 32)"
      by (simp add: word_less_nat_alt s_nat) linarith
    also have "(ucast s :: u32) = word_of_nat (size_units w f)"
      unfolding s_nat [symmetric] by simp
    finally show ?thesis by simp
  qed
qed

lemma parse_size_dot:
  assumes "parse_size_u32 (w @ CHR ''.'' # f) = Some v" "CHR ''.'' \<notin> set w"
  shows "list_all is_digit w \<and> dec_value w < 2 ^ 32 \<and> list_all is_digit f"
  using assms(1) unfolding parse_size_u32_def Let_def find_dot_split [OF assms(2)]
  by (auto simp: parse_whole_Some scan_fraction_eq split: if_splits bind_splits)

section \<open>Printing\<close>

fun decimal :: "nat \<Rightarrow> string" where
  "decimal n = (if n < 10 then [char_of (48 + n)] else decimal (n div 10) @ [char_of (48 + n mod 10)])"

declare decimal.simps [simp del]

definition price_text :: "nat \<Rightarrow> string" where
  "price_text cents = decimal (cents div 100) @ CHR ''.'' # [char_of (48 + cents div 10 mod 10), char_of (48 + cents mod 10)]"

lemma digit_char:
  assumes "n < 10"
  shows "is_digit (char_of (48 + n))" "digit (char_of (48 + n)) = n"
proof -
  have "(of_char (char_of (48 + n) :: char) :: nat) = 48 + n" using assms by (simp add: of_char_of)
  then show "is_digit (char_of (48 + n))" "digit (char_of (48 + n)) = n"
    using assms by (simp_all add: is_digit_def digit_def)
qed

lemma decimal_digits: "list_all is_digit (decimal n) \<and> dec_value (decimal n) = n"
proof (induction n rule: decimal.induct)
  case (1 n)
  show ?case
  proof (cases "n < 10")
    case True
    then show ?thesis using dec_value_Cons [of "char_of (48 + n)" "[]"] by (simp add: decimal.simps [of n] digit_char)
  next
    case False
    then show ?thesis using 1 by (simp add: decimal.simps [of n] digit_char)
  qed
qed

lemma price_text_cents: "cents_of (decimal (c div 100)) [char_of (48 + c div 10 mod 10), char_of (48 + c mod 10)] = c"
proof -
  have "c div 100 = c div 10 div 10" using div_mult2_eq [of c 10 10] by simp
  moreover have "c div 10 div 10 * 10 + c div 10 mod 10 = c div 10" "c div 10 * 10 + c mod 10 = c"
    by (rule div_mult_mod_eq)+
  ultimately have "c div 100 * 100 + c div 10 mod 10 * 10 + c mod 10 = c" by linarith
  then show ?thesis
    using decimal_digits [of "c div 100"] digit_char(2) [of "c div 10 mod 10"] digit_char(2) [of "c mod 10"]
    by (simp add: cents_of_def)
qed

lemma price_text_parses:
  assumes "c < 2 ^ 32"
  shows "parse_price_cents (price_text c) = Some (word_of_nat c)"
proof -
  let ?f = "[char_of (48 + c div 10 mod 10), char_of (48 + c mod 10)] :: string"
  have "dec_value (decimal (c div 100)) < 2 ^ 32" using decimal_digits assms by simp
  then have "parse_price_cents (decimal (c div 100) @ CHR ''.'' # ?f) = Some (word_of_nat (cents_of (decimal (c div 100)) ?f))"
    using decimal_digits digit_char(1) by (intro parse_price_digits) simp_all
  then show ?thesis by (simp only: price_text_cents price_text_def)
qed

lemma decimal_parses:
  assumes "n < 2 ^ 32"
  shows "parse_size_u32 (decimal n) = Some (word_of_nat n)"
proof -
  have d: "list_all is_digit (decimal n)" "dec_value (decimal n) = n" using decimal_digits by blast+
  have ne: "decimal n \<noteq> []" by (simp add: decimal.simps [of n])
  have "find_dot (decimal n) = None" using digits_no_dot [OF d(1)] by (simp add: find_dot_def)
  then have "parse_size_u32 (decimal n) = parse_u32 (decimal n)" using ne by (simp add: parse_size_u32_def)
  also have "\<dots> = Some (word_of_nat n)" using assms d ne by (simp add: parse_u32_Some)
  finally show ?thesis .
qed

section \<open>Properties\<close>

text \<open>
  C14: \<open>parse_price_cents\<close> accepts exactly the digit strings whose value fits 32 bits, read as cents, and the texts \<open>w.f\<close>
  with a digit string \<open>w\<close>, possibly empty, that fits 32 bits and a non-empty digit string \<open>f\<close>; the latter are a hundred times the
  number denoted, rounded half up, modulo \<open>2 ^ 32\<close>.
\<close>
theorem price_text_meaning:
  "parse_price_cents sv = Some v \<longleftrightarrow>
     sv \<noteq> [] \<and> list_all is_digit sv \<and> dec_value sv < 2 ^ 32 \<and> unat v = dec_value sv \<or>
     (\<exists>w f. sv = w @ CHR ''.'' # f \<and> list_all is_digit w \<and> dec_value w < 2 ^ 32 \<and> list_all is_digit f \<and> f \<noteq> [] \<and>
        uint v = \<lfloor>text_value w f * 100 + 1 / 2\<rfloor> mod 2 ^ 32)"
proof -
  note 1 = u32_of_nat_iff [of _ v]
  have 2: "v = word_of_nat (cents_of w f) \<longleftrightarrow> uint v = \<lfloor>text_value w f * 100 + 1 / 2\<rfloor> mod 2 ^ 32"
    if "list_all is_digit f" "f \<noteq> []" for w f
  proof -
    have "uint (word_of_nat (cents_of w f) :: u32) = int (cents_of w f) mod 2 ^ 32"
      unfolding uint_nat unat_of_nat by (simp add: zmod_int)
    then show ?thesis unfolding cents_of_rounds [OF that, symmetric] by (metis uint_word_of_int_eq word_uint_eqI)
  qed
  show ?thesis unfolding parse_price_Some using 1 2 by blast
qed

text \<open>
  The decimal text of a number of cents parses back to it, for every number of cents that fits the type.
\<close>
theorem price_round_trip:
  "parse_price_cents (price_text (unat (cents :: u32))) = Some cents"
  using price_text_parses [of "unat cents"] unsigned_less [of cents] by simp

text \<open>
  C15: \<open>parse_size_u32\<close> accepts exactly the digit strings whose value fits 32 bits, and the texts \<open>w.f\<close> whose value fits 32 bits in the
  units the code chooses: whole units when the fraction is zero (or missing), otherwise millionths, rounded down. No multiplication wraps.
\<close>
theorem size_text_meaning:
  "parse_size_u32 sv = Some v \<longleftrightarrow>
     sv \<noteq> [] \<and> list_all is_digit sv \<and> dec_value sv < 2 ^ 32 \<and> unat v = dec_value sv \<or>
     (\<exists>w f. sv = w @ CHR ''.'' # f \<and> list_all is_digit w \<and> dec_value w < 2 ^ 32 \<and> list_all is_digit f \<and>
        uint v = (if dec_value f = 0 then int (dec_value w) else \<lfloor>text_value w f * 10 ^ 6\<rfloor>) \<and>
        (if dec_value f = 0 then int (dec_value w) else \<lfloor>text_value w f * 10 ^ 6\<rfloor>) < 2 ^ 32)"
proof -
  note 1 = u32_of_nat_iff [of _ v]
  have units: "(if dec_value f = 0 then int (dec_value w) else \<lfloor>text_value w f * 10 ^ 6\<rfloor>) = int (size_units w f)"
    if "list_all is_digit f" for w f
    using micro_units_floor [OF that, of w] by (simp only: size_units_def split: if_split) simp
  have 2: "uint v = int n \<longleftrightarrow> unat v = n" for n by (simp only: uint_nat of_nat_eq_iff)
  show ?thesis
  proof (cases rule: find_dot_cases [of sv])
    case 1
    then have "parse_size_u32 sv = (if sv = [] then None else parse_u32 sv)" by (simp add: parse_size_u32_def)
    moreover have "\<not> (\<exists>w f. sv = w @ CHR ''.'' # f)" using 1(1) by auto
    ultimately show ?thesis using u32_of_nat_iff [of _ v] by (auto simp: parse_u32_Some)
  next
    case (2 w f)
    have uniq: "w' = w \<and> f' = f" if "sv = w' @ CHR ''.'' # f'" "list_all is_digit w'" for w' f'
      using that 2 digits_no_dot [OF that(2)] find_dot_split [of w' f'] find_dot_split [of w f] by (metis option.inject)
    have nd: "\<not> list_all is_digit sv" using 2(1) not_digit_dot by simp
    have "parse_size_u32 sv = Some v \<longleftrightarrow> list_all is_digit w \<and> dec_value w < 2 ^ 32 \<and> list_all is_digit f \<and>
        size_units w f < 2 ^ 32 \<and> unat v = size_units w f"
    proof (cases "list_all is_digit w \<and> dec_value w < 2 ^ 32 \<and> list_all is_digit f")
      case True
      then have "parse_size_u32 sv = (if size_units w f < 2 ^ 32 then Some (word_of_nat (size_units w f)) else None)"
        unfolding 2(1) by (intro parse_size_digits) blast+
      then show ?thesis using True u32_of_nat_iff [of "size_units w f" v] by (auto split: if_splits)
    next
      case False
      then show ?thesis unfolding 2(1) using parse_size_dot [OF _ 2(2), of f v] by blast
    qed
    also have "\<dots> \<longleftrightarrow> (\<exists>w f. sv = w @ CHR ''.'' # f \<and> list_all is_digit w \<and> dec_value w < 2 ^ 32 \<and> list_all is_digit f \<and>
        uint v = int (size_units w f) \<and> int (size_units w f) < 2 ^ 32)"
      using uniq 2(1) unfolding uint_nat of_nat_eq_iff by auto
    also have "\<dots> \<longleftrightarrow> (\<exists>w f. sv = w @ CHR ''.'' # f \<and> list_all is_digit w \<and> dec_value w < 2 ^ 32 \<and> list_all is_digit f \<and>
        uint v = (if dec_value f = 0 then int (dec_value w) else \<lfloor>text_value w f * 10 ^ 6\<rfloor>) \<and>
        (if dec_value f = 0 then int (dec_value w) else \<lfloor>text_value w f * 10 ^ 6\<rfloor>) < 2 ^ 32)"
      by (intro iff_exI conj_cong refl) (simp_all only: units)
    finally show ?thesis using nd by blast
  qed
qed

text \<open>
  The multiplication by 100 is not checked: 42949673.00 dollars is accepted as 4 cents, a price in range; and a whole number is read as
  cents without a decimal point but as dollars with one.
\<close>
theorem price_text_wraps:
  "parse_price_cents ''42949673.00'' = Some 4 \<and> in_price_range 4 \<and>
   parse_price_cents ''1'' = Some 1 \<and> parse_price_cents ''1.0'' = Some 100"
proof -
  have "parse_price_cents (''42949673'' @ CHR ''.'' # ''00'') = Some 4"
    by (subst parse_price_digits) (simp_all add: is_digit_def digit_def dec_value_def cents_of_def)
  moreover have "parse_price_cents (''1'' @ CHR ''.'' # ''0'') = Some 100"
    by (subst parse_price_digits) (simp_all add: is_digit_def digit_def dec_value_def cents_of_def)
  moreover have "parse_price_cents ''1'' = Some 1"
    by (subst parse_price_Some) (simp add: is_digit_def digit_def dec_value_def)
  ultimately show ?thesis by (simp add: in_price_range_def)
qed

text \<open>
  A size with a fraction is stored in millionths and one without in whole units, so 10.5 outweighs 10000000, and a size below one millionth
  becomes zero, which deletes the level.
\<close>
theorem size_units_are_mixed:
  "parse_size_u32 ''10'' = Some 10 \<and> parse_size_u32 ''10.0'' = Some 10 \<and> parse_size_u32 ''10.5'' = Some 10500000 \<and>
   parse_size_u32 ''0.0000001'' = Some 0"
proof -
  have "parse_size_u32 (''10'' @ CHR ''.'' # ''0'') = Some 10" "parse_size_u32 (''10'' @ CHR ''.'' # ''5'') = Some 10500000"
    "parse_size_u32 (''0'' @ CHR ''.'' # ''0000001'') = Some 0"
    by (subst parse_size_digits; simp add: is_digit_def digit_def dec_value_def size_units_def micro_units_def)+
  moreover have "parse_size_u32 ''10'' = Some 10"
    by (simp add: parse_size_u32_def find_dot_def parse_u32_Some) (simp add: is_digit_def digit_def dec_value_def)
  ultimately show ?thesis by simp
qed

end
