(* ===== verification/MarketParser.thy ===== *)
theory MarketParser
  imports PriceText OrderBook SpscQueue
begin

text \<open>
  The parser of \<open>include/market_parser.hpp\<close>: one WebSocket message to ticks in the ring. The JSON library
  simdjson is not part of the repository, so it is a parameter: a record of the calls the parser makes,
  over an abstract state \<open>'j\<close> and handles \<open>'h\<close> (objects, arrays, values, iterators), each free to
  answer anything. A call chain that ends in \<open>get\<close> returns \<open>Some\<close> where simdjson reports \<open>SUCCESS\<close>.

  Two outcomes besides returning are possible. The range-\<open>for\<close> loops convert a \<open>simdjson_result\<close> to a
  value, which throws on an error; the functions are \<open>noexcept\<close>, so this ends the process (\<open>Terminated\<close>). And a loop
  over an iterator that never ends does not return; the loops run on fuel, and \<open>No_fuel\<close> is its exhaustion.
\<close>

datatype 'h field_result = Found 'h | No_such_field | Field_error

record ('j, 'h) simdjson =
  padding :: nat
  api_iterate :: "string \<Rightarrow> nat \<Rightarrow> 'j \<Rightarrow> bool \<times> 'j"
  doc_get_object :: "'j \<Rightarrow> 'h option \<times> 'j"
  doc_get_array :: "'j \<Rightarrow> 'h option \<times> 'j"
  find_field_unordered :: "'h \<Rightarrow> string \<Rightarrow> 'j \<Rightarrow> 'h field_result \<times> 'j"
  get_string :: "'h \<Rightarrow> 'j \<Rightarrow> string option \<times> 'j"
  get_array :: "'h \<Rightarrow> 'j \<Rightarrow> 'h option \<times> 'j"
  get_object :: "'h \<Rightarrow> 'j \<Rightarrow> 'h option \<times> 'j"
  arr_begin :: "'h \<Rightarrow> 'j \<Rightarrow> 'h \<times> 'j"
  arr_not_end :: "'h \<Rightarrow> 'j \<Rightarrow> bool \<times> 'j"
  arr_deref :: "'h \<Rightarrow> 'j \<Rightarrow> 'h option \<times> 'j"
  arr_next :: "'h \<Rightarrow> 'j \<Rightarrow> 'h \<times> 'j"

type_synonym 'j pstate = "'j \<times> market_tick spsc"

datatype 'a outcome = Done 'a | Terminated | No_fuel

datatype flow = Continue | Return_false

section \<open>Loops and accessors\<close>

fun range_for :: "('j, 'h) simdjson \<Rightarrow> ('h \<Rightarrow> 'j pstate \<Rightarrow> (flow \<times> 'j pstate) outcome) \<Rightarrow> nat \<Rightarrow> 'h \<Rightarrow>
    'j pstate \<Rightarrow> (bool \<times> 'j pstate) outcome" where
  "range_for api body 0 it s = No_fuel"
| "range_for api body (Suc fuel) it (j, q) =
     (let (more, j) = arr_not_end api it j
      in if \<not> more then Done (True, (j, q))
         else case arr_deref api it j of
             (None, j) \<Rightarrow> Terminated
           | (Some v, j) \<Rightarrow>
               (case body v (j, q) of
                  Terminated \<Rightarrow> Terminated
                | No_fuel \<Rightarrow> No_fuel
                | Done (Return_false, s) \<Rightarrow> Done (False, s)
                | Done (Continue, (j, q)) \<Rightarrow>
                    let (it, j) = arr_next api it j in range_for api body fuel it (j, q)))"

definition string_at :: "('j, 'h) simdjson \<Rightarrow> 'h \<Rightarrow> 'j \<Rightarrow> string option \<times> 'j" where
  "string_at api it j =
     (case arr_deref api it j of (None, j) \<Rightarrow> (None, j) | (Some v, j) \<Rightarrow> get_string api v j)"

definition string_field :: "('j, 'h) simdjson \<Rightarrow> 'h \<Rightarrow> string \<Rightarrow> 'j \<Rightarrow> string option \<times> 'j" where
  "string_field api obj name j =
     (case find_field_unordered api obj name j of
        (Found v, j) \<Rightarrow> get_string api v j
      | (_, j) \<Rightarrow> (None, j))"

definition push_tick :: "u64 \<Rightarrow> market_tick \<Rightarrow> market_tick spsc \<Rightarrow> market_tick spsc" where
  "push_tick sz tick q = snd (spsc_push sz tick q)"

text \<open>The conversion of the two texts of a level, and of a top-of-book hint, to a tick.\<close>

definition level_tick :: "bool \<Rightarrow> string \<Rightarrow> string \<Rightarrow> market_tick option" where
  "level_tick bid price_sv size_sv =
     (case parse_price_cents price_sv of
        None \<Rightarrow> None
      | Some price_cents \<Rightarrow>
          if \<not> in_price_range price_cents then None
          else case parse_size_u32 size_sv of
              None \<Rightarrow> None
            | Some sz \<Rightarrow> Some \<lparr>price = ucast price_cents, tsize = sz, is_bid = bid\<rparr>)"

definition hint_tick :: "bool \<Rightarrow> string \<Rightarrow> market_tick option" where
  "hint_tick bid price_sv =
     (case parse_price_cents price_sv of
        None \<Rightarrow> None
      | Some cents \<Rightarrow>
          if in_price_range cents \<and> cents \<noteq> 0 then Some \<lparr>price = ucast cents, tsize = 1, is_bid = bid\<rparr> else None)"

definition emit :: "u64 \<Rightarrow> market_tick option \<Rightarrow> market_tick spsc \<Rightarrow> market_tick spsc" where
  "emit sz t q = (case t of None \<Rightarrow> q | Some tick \<Rightarrow> push_tick sz tick q)"

section \<open>The three schemas\<close>

definition levels_body :: "('j, 'h) simdjson \<Rightarrow> u64 \<Rightarrow> bool \<Rightarrow> 'h \<Rightarrow> 'j pstate \<Rightarrow> (flow \<times> 'j pstate) outcome" where
  "levels_body api sz bid level_val = (\<lambda>(j, q).
     case get_array api level_val j of
       (None, j) \<Rightarrow> Done (Return_false, (j, q))
     | (Some pair, j) \<Rightarrow>
         let (it, j) = arr_begin api pair j;
             (more, j) = arr_not_end api it j
         in if \<not> more then Done (Return_false, (j, q))
            else case string_at api it j of
                (None, j) \<Rightarrow> Done (Continue, (j, q))
              | (Some price_sv, j) \<Rightarrow>
                  let (it, j) = arr_next api it j;
                      (more, j) = arr_not_end api it j
                  in if \<not> more then Done (Return_false, (j, q))
                     else case string_at api it j of
                         (None, j) \<Rightarrow> Done (Continue, (j, q))
                       | (Some size_sv, j) \<Rightarrow>
                           let (it, j) = arr_next api it j;
                               (more, j) = arr_not_end api it j
                           in if more then Done (Return_false, (j, q))
                              else Done (Continue, (j, emit sz (level_tick bid price_sv size_sv) q)))"

definition object_levels_body :: "('j, 'h) simdjson \<Rightarrow> u64 \<Rightarrow> bool \<Rightarrow> 'h \<Rightarrow> 'j pstate \<Rightarrow> (flow \<times> 'j pstate) outcome" where
  "object_levels_body api sz bid level_val = (\<lambda>(j, q).
     case get_object api level_val j of
       (None, j) \<Rightarrow> Done (Return_false, (j, q))
     | (Some level_obj, j) \<Rightarrow>
         (case string_field api level_obj ''price'' j of
            (None, j) \<Rightarrow> Done (Continue, (j, q))
          | (Some price_sv, j) \<Rightarrow>
              (case string_field api level_obj ''size'' j of
                 (None, j) \<Rightarrow> Done (Continue, (j, q))
               | (Some size_sv, j) \<Rightarrow> Done (Continue, (j, emit sz (level_tick bid price_sv size_sv) q)))))"

definition hint :: "('j, 'h) simdjson \<Rightarrow> u64 \<Rightarrow> 'h \<Rightarrow> string \<Rightarrow> bool \<Rightarrow> 'j pstate \<Rightarrow> 'j pstate" where
  "hint api sz change_obj field bid = (\<lambda>(j, q).
     case string_field api change_obj field j of
       (None, j) \<Rightarrow> (j, q)
     | (Some sv, j) \<Rightarrow> (j, emit sz (hint_tick bid sv) q))"

definition price_change_body :: "('j, 'h) simdjson \<Rightarrow> u64 \<Rightarrow> 'h \<Rightarrow> 'j pstate \<Rightarrow> (flow \<times> 'j pstate) outcome" where
  "price_change_body api sz change_val = (\<lambda>(j, q).
     case get_object api change_val j of
       (None, j) \<Rightarrow> Done (Return_false, (j, q))
     | (Some change_obj, j) \<Rightarrow>
         (case string_field api change_obj ''price'' j of
            (None, j) \<Rightarrow> Done (Continue, (j, q))
          | (Some price_sv, j) \<Rightarrow>
              (case string_field api change_obj ''size'' j of
                 (None, j) \<Rightarrow> Done (Continue, (j, q))
               | (Some size_sv, j) \<Rightarrow>
                   (case string_field api change_obj ''side'' j of
                      (None, j) \<Rightarrow> Done (Continue, (j, q))
                    | (Some side_sv, j) \<Rightarrow>
                        let bid = (side_sv = ''BUY''); ask = (side_sv = ''SELL'')
                        in if \<not> bid \<and> \<not> ask then Done (Continue, (j, q))
                           else case level_tick bid price_sv size_sv of
                               None \<Rightarrow> Done (Continue, (j, q))
                             | Some tick \<Rightarrow>
                                 Done (Continue, hint api sz change_obj ''best_ask'' False
                                   (hint api sz change_obj ''best_bid'' True (j, push_tick sz tick q)))))))"

definition parse_array_field :: "('j, 'h) simdjson \<Rightarrow> ('h \<Rightarrow> 'j pstate \<Rightarrow> (flow \<times> 'j pstate) outcome) \<Rightarrow> nat \<Rightarrow>
    'h \<Rightarrow> string \<Rightarrow> 'j pstate \<Rightarrow> (bool \<times> 'j pstate) outcome" where
  "parse_array_field api body fuel obj field = (\<lambda>(j, q).
     case find_field_unordered api obj field j of
       (No_such_field, j) \<Rightarrow> Done (True, (j, q))
     | (Field_error, j) \<Rightarrow> Done (False, (j, q))
     | (Found v, j) \<Rightarrow>
         (case get_array api v j of
            (None, j) \<Rightarrow> Done (False, (j, q))
          | (Some arr, j) \<Rightarrow>
              let (it, j) = arr_begin api arr j in range_for api body fuel it (j, q)))"

definition parse_levels where
  "parse_levels api sz fuel obj field bid s = parse_array_field api (levels_body api sz bid) fuel obj field s"

definition parse_object_levels where
  "parse_object_levels api sz fuel obj field bid s =
     parse_array_field api (object_levels_body api sz bid) fuel obj field s"

definition parse_price_change where
  "parse_price_change api sz fuel obj s =
     parse_array_field api (price_change_body api sz) fuel obj ''price_changes'' s"

section \<open>Messages\<close>

text \<open>Two parses in sequence: the second runs only if the first returned true.\<close>

definition and_then :: "(bool \<times> 's) outcome \<Rightarrow> ('s \<Rightarrow> (bool \<times> 's) outcome) \<Rightarrow> (bool \<times> 's) outcome" where
  "and_then r k = (case r of Done (True, s) \<Rightarrow> k s | _ \<Rightarrow> r)"

definition parse_message_object :: "('j, 'h) simdjson \<Rightarrow> u64 \<Rightarrow> nat \<Rightarrow> 'h \<Rightarrow> 'j pstate \<Rightarrow> (bool \<times> 'j pstate) outcome" where
  "parse_message_object api sz fuel obj = (\<lambda>(j, q).
     let mock = (\<lambda>s. and_then (parse_levels api sz fuel obj ''bids'' True s)
                       (parse_levels api sz fuel obj ''asks'' False))
     in case find_field_unordered api obj ''event_type'' j of
          (Field_error, j) \<Rightarrow> Done (False, (j, q))
        | (No_such_field, j) \<Rightarrow> mock (j, q)
        | (Found v, j) \<Rightarrow>
            (case get_string api v j of
               (None, j) \<Rightarrow> mock (j, q)
             | (Some event_type_sv, j) \<Rightarrow>
                 if event_type_sv = ''book''
                 then and_then (parse_object_levels api sz fuel obj ''bids'' True (j, q))
                        (parse_object_levels api sz fuel obj ''asks'' False)
                 else if event_type_sv = ''price_change'' then parse_price_change api sz fuel obj (j, q)
                 else Done (True, (j, q))))"

definition element_body :: "('j, 'h) simdjson \<Rightarrow> u64 \<Rightarrow> nat \<Rightarrow> 'h \<Rightarrow> 'j pstate \<Rightarrow> (flow \<times> 'j pstate) outcome" where
  "element_body api sz fuel v = (\<lambda>(j, q).
     case get_object api v j of
       (None, j) \<Rightarrow> Done (Continue, (j, q))
     | (Some elem, j) \<Rightarrow>
         (case parse_message_object api sz fuel elem (j, q) of
            Done (_, s) \<Rightarrow> Done (Continue, s)
          | Terminated \<Rightarrow> Terminated
          | No_fuel \<Rightarrow> No_fuel))"

definition kMaxPayloadBytes :: nat where
  "kMaxPayloadBytes = 65536"

record market_parser =
  parser_initialized :: bool
  parser_buffer :: string

definition parser_init :: "('j, 'h) simdjson \<Rightarrow> bool \<Rightarrow> market_parser" where
  "parser_init api allocated =
     \<lparr>parser_initialized = allocated, parser_buffer = replicate (kMaxPayloadBytes + padding api) (CHR 0x00)\<rparr>"

text \<open>\<open>memcpy\<close> and \<open>memset\<close> into the fixed buffer; writing past its end is undefined (\<open>None\<close>).\<close>

definition write_bytes :: "nat \<Rightarrow> string \<Rightarrow> string \<Rightarrow> string option" where
  "write_bytes pos bytes buf =
     (if pos + length bytes \<le> length buf then Some (take pos buf @ bytes @ drop (pos + length bytes) buf) else None)"

definition load_payload :: "('j, 'h) simdjson \<Rightarrow> string \<Rightarrow> market_parser \<Rightarrow> market_parser option" where
  "load_payload api payload p =
     do {
       buf \<leftarrow> write_bytes 0 payload (parser_buffer p);
       buf \<leftarrow> write_bytes (length payload) (replicate (padding api) (CHR 0x00)) buf;
       Some (p\<lparr>parser_buffer := buf\<rparr>)
     }"

definition parse_document :: "('j, 'h) simdjson \<Rightarrow> u64 \<Rightarrow> nat \<Rightarrow> 'j pstate \<Rightarrow> (bool \<times> 'j pstate) outcome" where
  "parse_document api sz fuel = (\<lambda>(j, q).
     case doc_get_object api j of
       (Some obj, j) \<Rightarrow> parse_message_object api sz fuel obj (j, q)
     | (None, j) \<Rightarrow>
         (case doc_get_array api j of
            (None, j) \<Rightarrow> Done (False, (j, q))
          | (Some arr, j) \<Rightarrow>
              let (it, j) = arr_begin api arr j in range_for api (element_body api sz fuel) fuel it (j, q)))"

text \<open>The result is \<open>None\<close> if the buffer is overrun.\<close>

definition parse_tick :: "('j, 'h) simdjson \<Rightarrow> u64 \<Rightarrow> nat \<Rightarrow> string \<Rightarrow> market_parser \<Rightarrow> 'j pstate \<Rightarrow>
    (market_parser \<times> (bool \<times> 'j pstate) outcome) option" where
  "parse_tick api sz fuel payload p = (\<lambda>(j, q).
     if \<not> parser_initialized p then Some (p, Done (False, (j, q)))
     else if length payload = 0 \<or> kMaxPayloadBytes < length payload then Some (p, Done (False, (j, q)))
     else do {
       p \<leftarrow> load_payload api payload p;
       let (ok, j) = api_iterate api (parser_buffer p) (length payload) j;
       Some (p, if \<not> ok then Done (False, (j, q)) else parse_document api sz fuel (j, q))
     })"

section \<open>Only ticks on the ladder are emitted\<close>

definition emits :: "u64 \<Rightarrow> market_tick spsc \<Rightarrow> market_tick spsc \<Rightarrow> bool" where
  "emits sz q q' \<longleftrightarrow> spsc_inv sz q' \<and>
     (\<exists>ts. spsc_contents sz q' = spsc_contents sz q @ ts \<and> list_all (\<lambda>t. price t \<le> kMaxPrice) ts)"

definition emits_only :: "u64 \<Rightarrow> market_tick spsc \<Rightarrow> ('a \<times> 'j pstate) outcome \<Rightarrow> bool" where
  "emits_only sz q r \<longleftrightarrow> (case r of Done (_, (_, q')) \<Rightarrow> emits sz q q' | _ \<Rightarrow> True)"

lemma emits_only_simps [simp]:
  "emits_only sz q (Done (b, (j, q'))) = emits sz q q'" "emits_only sz q Terminated" "emits_only sz q No_fuel"
  by (simp_all add: emits_only_def)

lemma emits_refl: "spsc_inv sz q \<Longrightarrow> emits sz q q"
  by (simp add: emits_def)

lemma emits_trans: "emits sz q q' \<Longrightarrow> emits sz q' q'' \<Longrightarrow> emits sz q q''"
  by (auto simp: emits_def)

lemma emits_inv: "emits sz q q' \<Longrightarrow> spsc_inv sz q'"
  by (simp add: emits_def)

lemma emits_push:
  assumes "spsc_inv sz q" "price t \<le> kMaxPrice"
  shows "emits sz q (push_tick sz t q)"
proof -
  have v: "valid_size sz" using assms(1) by (simp add: spsc_inv_def)
  from assms(1) show ?thesis
    by (rule bounded_fifo.push_cases [OF spsc_bounded_fifo [OF v], of q t])
      (use assms in \<open>simp_all add: emits_def push_tick_def\<close>)
qed

lemma in_range_price: "in_price_range c \<Longrightarrow> (ucast c :: u8) \<le> kMaxPrice \<and> unat (ucast c :: u8) = unat c"
proof -
  assume "in_price_range c"
  then have c: "unat c \<le> 100" by (simp add: in_price_range_def word_le_nat_alt)
  then have "unat (ucast c :: u8) = unat c" by (simp add: unsigned_ucast_eq take_bit_nat_eq_self)
  then show ?thesis using c by (simp add: word_le_nat_alt kMaxPrice_def)
qed

lemma level_tick_price: "level_tick bid p s = Some t \<Longrightarrow> price t \<le> kMaxPrice"
  using in_range_price by (auto simp: level_tick_def split: option.splits if_splits)

lemma hint_tick_price: "hint_tick bid p = Some t \<Longrightarrow> price t \<le> kMaxPrice"
  using in_range_price by (auto simp: hint_tick_def split: option.splits if_splits)

lemma emits_emit:
  "spsc_inv sz q \<Longrightarrow> (\<And>tick. t = Some tick \<Longrightarrow> price tick \<le> kMaxPrice) \<Longrightarrow> emits sz q (emit sz t q)"
  by (cases t) (simp_all add: emit_def emits_refl emits_push)

lemma range_for_emits:
  assumes "\<And>v j q. spsc_inv sz q \<Longrightarrow> emits_only sz q (body v (j, q))"
  shows "spsc_inv sz q \<Longrightarrow> emits_only sz q (range_for api body fuel it (j, q))"
proof (induction fuel arbitrary: it j q)
  case (Suc fuel)
  obtain more j1 where more: "arr_not_end api it j = (more, j1)" by fastforce
  obtain v j2 where v: "arr_deref api it j1 = (v, j2)" by fastforce
  show ?case
  proof (cases "more \<and> v \<noteq> None")
    case False
    then show ?thesis using Suc.prems by (cases v) (simp_all add: more v emits_refl)
  next
    case True
    then obtain x where x: "more" "v = Some x" by auto
    have b: "emits_only sz q (body x (j2, q))" using Suc.prems by (rule assms)
    show ?thesis
    proof (cases "body x (j2, q)")
      case (Done r)
      obtain f j3 q3 where r: "r = (f, (j3, q3))" by (metis surj_pair)
      have e: "emits sz q q3" using b by (simp add: Done r)
      obtain it' j4 where n: "arr_next api it j3 = (it', j4)" by fastforce
      have "emits_only sz q3 (range_for api body fuel it' (j4, q3))"
        using e by (intro Suc.IH emits_inv)
      then have "emits_only sz q (range_for api body fuel it' (j4, q3))"
        using e emits_trans by (auto simp: emits_only_def split: outcome.splits)
      then show ?thesis using x e by (cases f) (simp_all add: more v Done r n)
    qed (use x in \<open>simp_all add: more v\<close>)
  qed
qed simp

lemma levels_body_emits: "spsc_inv sz q \<Longrightarrow> emits_only sz q (levels_body api sz bid v (j, q))"
  by (auto simp: levels_body_def Let_def emits_refl emits_emit level_tick_price
      split: prod.split option.split)

lemma object_levels_body_emits: "spsc_inv sz q \<Longrightarrow> emits_only sz q (object_levels_body api sz bid v (j, q))"
  by (auto simp: object_levels_body_def Let_def emits_refl emits_emit level_tick_price
      split: prod.split option.split)

lemma hint_emits: "spsc_inv sz (snd s) \<Longrightarrow> emits sz (snd s) (snd (hint api sz obj field bid s))"
  by (cases s) (auto simp: hint_def emits_refl emits_emit hint_tick_price split: prod.split option.split)

lemma price_change_body_emits: "spsc_inv sz q \<Longrightarrow> emits_only sz q (price_change_body api sz v (j, q))"
proof -
  assume inv: "spsc_inv sz q"
  have hints: "emits_only sz q (Done (Continue, hint api sz obj ''best_ask'' False (hint api sz obj ''best_bid'' True (j', push_tick sz t q))))"
    if "price t \<le> kMaxPrice" for obj t j'
  proof -
    let ?s = "(j', push_tick sz t q)"
    have 1: "emits sz q (snd ?s)" using inv that by (simp add: emits_push)
    have 2: "emits sz (snd ?s) (snd (hint api sz obj ''best_bid'' True ?s))" using emits_inv [OF 1] by (rule hint_emits)
    have 3: "emits sz (snd (hint api sz obj ''best_bid'' True ?s)) (snd (hint api sz obj ''best_ask'' False (hint api sz obj ''best_bid'' True ?s)))"
      using emits_inv [OF 2] by (rule hint_emits)
    show ?thesis using emits_trans [OF emits_trans [OF 1 2] 3]
      by (auto simp: emits_only_def split: prod.split)
  qed
  show ?thesis using inv hints
    by (auto simp: price_change_body_def Let_def emits_refl level_tick_price split: prod.split option.split)
qed

lemma parse_array_field_emits:
  assumes "\<And>v j q. spsc_inv sz q \<Longrightarrow> emits_only sz q (body v (j, q))" "spsc_inv sz q"
  shows "emits_only sz q (parse_array_field api body fuel obj field (j, q))"
  using assms(2) range_for_emits [OF assms(1) assms(2)]
  by (auto simp: parse_array_field_def Let_def emits_refl split: prod.split option.split field_result.split)

lemmas parse_field_emits =
  parse_array_field_emits [OF levels_body_emits] parse_array_field_emits [OF object_levels_body_emits]
  parse_array_field_emits [OF price_change_body_emits]

lemma and_then_emits:
  assumes "emits_only sz q r" "\<And>j q'. spsc_inv sz q' \<Longrightarrow> emits_only sz q' (k (j, q'))"
  shows "emits_only sz q (and_then r k)"
proof (cases r)
  case (Done x)
  obtain b j q' where x: "x = (b, (j, q'))" by (metis surj_pair)
  have e: "emits sz q q'" using assms(1) by (simp add: Done x)
  have "emits_only sz q (k (j, q'))"
    using assms(2) [OF emits_inv [OF e], of j] e emits_trans by (auto simp: emits_only_def split: outcome.splits)
  then show ?thesis using e by (cases b) (simp_all add: and_then_def Done x)
qed (simp_all add: and_then_def)

lemma parse_message_object_emits:
  assumes "spsc_inv sz q"
  shows "emits_only sz q (parse_message_object api sz fuel obj (j, q))"
proof -
  have mock: "emits_only sz q (and_then (parse_levels api sz fuel obj ''bids'' True (j', q)) (parse_levels api sz fuel obj ''asks'' False))" for j'
    unfolding parse_levels_def using assms by (intro and_then_emits parse_field_emits)
  have book: "emits_only sz q (and_then (parse_object_levels api sz fuel obj ''bids'' True (j', q)) (parse_object_levels api sz fuel obj ''asks'' False))" for j'
    unfolding parse_object_levels_def using assms by (intro and_then_emits parse_field_emits)
  have change: "emits_only sz q (parse_price_change api sz fuel obj (j', q))" for j'
    unfolding parse_price_change_def using assms by (intro parse_field_emits)
  show ?thesis
    using assms mock book change
    by (auto simp: parse_message_object_def Let_def emits_refl split: prod.split option.split field_result.split)
qed

lemma element_body_emits:
  assumes "spsc_inv sz q"
  shows "emits_only sz q (element_body api sz fuel v (j, q))"
proof -
  have "emits_only sz q (case parse_message_object api sz fuel elem (j', q) of
      Done (_, s) \<Rightarrow> Done (Continue, s) | Terminated \<Rightarrow> Terminated | No_fuel \<Rightarrow> No_fuel)" for elem j'
    using parse_message_object_emits [OF assms, of api fuel elem j'] by (auto simp: emits_only_def split: outcome.splits)
  then show ?thesis using assms by (auto simp: element_body_def emits_refl split: prod.split option.split)
qed

lemma parse_document_emits:
  assumes "spsc_inv sz q"
  shows "emits_only sz q (parse_document api sz fuel (j, q))"
  using assms parse_message_object_emits [OF assms] range_for_emits [OF element_body_emits assms]
  by (auto simp: parse_document_def Let_def emits_refl split: prod.split option.split)

section \<open>The parser returns\<close>

text \<open>
  The documented progress of simdjson: its iterators only move forward. \<open>rank\<close> bounds what an iterator has left
  (for simdjson, the bytes of the document behind the cursor): a fresh iterator has at most \<open>n\<close> left, an iterator that is not at
  its end has something left, advancing it takes one off, and no call gives any iterator more.
\<close>

definition keeps_rank :: "('h \<Rightarrow> 'j \<Rightarrow> nat) \<Rightarrow> 'j \<Rightarrow> 'j \<Rightarrow> bool" where
  "keeps_rank rank j j' \<longleftrightarrow> (\<forall>it. rank it j' \<le> rank it j)"

definition forward_only :: "('j, 'h) simdjson \<Rightarrow> ('h \<Rightarrow> 'j \<Rightarrow> nat) \<Rightarrow> nat \<Rightarrow> bool" where
  "forward_only api rank n \<longleftrightarrow>
     (\<forall>h f j. keeps_rank rank j (snd (find_field_unordered api h f j))) \<and>
     (\<forall>h j. keeps_rank rank j (snd (get_string api h j)) \<and> keeps_rank rank j (snd (get_array api h j)) \<and>
        keeps_rank rank j (snd (get_object api h j)) \<and> keeps_rank rank j (snd (arr_begin api h j)) \<and>
        keeps_rank rank j (snd (arr_not_end api h j)) \<and> keeps_rank rank j (snd (arr_deref api h j)) \<and>
        keeps_rank rank j (snd (arr_next api h j))) \<and>
     (\<forall>h j. rank (fst (arr_begin api h j)) (snd (arr_begin api h j)) \<le> n) \<and>
     (\<forall>it j. fst (arr_not_end api it j) \<longrightarrow> 0 < rank it j) \<and>
     (\<forall>it j. rank (fst (arr_next api it j)) (snd (arr_next api it j)) \<le> rank it j - 1)"

definition returns :: "('h \<Rightarrow> 'j \<Rightarrow> nat) \<Rightarrow> 'j \<Rightarrow> ('a \<times> 'j pstate) outcome \<Rightarrow> bool" where
  "returns rank j r \<longleftrightarrow> (case r of Done (_, (j', _)) \<Rightarrow> keeps_rank rank j j' | Terminated \<Rightarrow> True | No_fuel \<Rightarrow> False)"

lemma returns_simps [simp]:
  "returns rank j (Done (b, (j', q))) = keeps_rank rank j j'" "returns rank j Terminated" "\<not> returns rank j No_fuel"
  by (simp_all add: returns_def)

lemma keeps_rank_refl [simp]: "keeps_rank rank j j"
  by (simp add: keeps_rank_def)

lemma keeps_rank_trans: "keeps_rank rank j j' \<Longrightarrow> keeps_rank rank j' j'' \<Longrightarrow> keeps_rank rank j j''"
  unfolding keeps_rank_def using order.trans by blast

lemma returns_trans: "keeps_rank rank j j' \<Longrightarrow> returns rank j' r \<Longrightarrow> returns rank j r"
  by (auto simp: returns_def intro: keeps_rank_trans split: outcome.splits)

text \<open>The same facts for a call whose result is known.\<close>

lemma forward_call:
  assumes "forward_only api rank n"
  shows "find_field_unordered api h f j = (r1, j') \<Longrightarrow> keeps_rank rank j j'"
    "get_string api h j = (r2, j') \<Longrightarrow> keeps_rank rank j j'"
    "get_array api h j = (r3, j') \<Longrightarrow> keeps_rank rank j j'"
    "get_object api h j = (r3, j') \<Longrightarrow> keeps_rank rank j j'"
    "arr_begin api h j = (r4, j') \<Longrightarrow> keeps_rank rank j j'"
    "arr_not_end api h j = (r5, j') \<Longrightarrow> keeps_rank rank j j'"
    "arr_deref api h j = (r3, j') \<Longrightarrow> keeps_rank rank j j'"
    "arr_next api h j = (r4, j') \<Longrightarrow> keeps_rank rank j j'"
  using assms unfolding forward_only_def by (metis snd_conv)+

lemma string_at_forward:
  assumes "forward_only api rank n" "string_at api it j = (r, j')"
  shows "keeps_rank rank j j'"
  using assms(2) forward_call(2,7) [OF assms(1)] unfolding string_at_def
  by (auto split: prod.splits option.splits) (meson keeps_rank_trans)

lemma string_field_forward:
  assumes "forward_only api rank n" "string_field api obj f j = (r, j')"
  shows "keeps_rank rank j j'"
  using assms(2) forward_call(1,2) [OF assms(1)] unfolding string_field_def
  by (auto split: prod.splits field_result.splits) (meson keeps_rank_trans)

lemma range_for_returns:
  assumes api: "forward_only api rank n"
    and body: "\<And>v j q. returns rank j (body v (j, q))"
  shows "rank it j < fuel \<Longrightarrow> returns rank j (range_for api body fuel it (j, q))"
proof (induction fuel arbitrary: it j q)
  case (Suc fuel)
  obtain more j1 where more: "arr_not_end api it j = (more, j1)" by fastforce
  obtain v j2 where v: "arr_deref api it j1 = (v, j2)" by fastforce
  have k1: "keeps_rank rank j j1" "keeps_rank rank j1 j2" using forward_call(6,7) [OF api] more v by blast+
  then have k2: "keeps_rank rank j j2" by (rule keeps_rank_trans)
  show ?case
  proof (cases "more \<and> v \<noteq> None")
    case False
    then show ?thesis using k1 by (cases v) (simp_all add: more v)
  next
    case True
    then obtain x where x: "more" "v = Some x" by auto
    have b: "returns rank j2 (body x (j2, q))" by (rule body)
    show ?thesis
    proof (cases "body x (j2, q)")
      case (Done r)
      obtain f j3 q3 where r: "r = (f, (j3, q3))" by (metis surj_pair)
      have k3: "keeps_rank rank j j3" using b keeps_rank_trans [OF k2] by (simp add: Done r)
      obtain it' j4 where nx: "arr_next api it j3 = (it', j4)" by fastforce
      have k4: "keeps_rank rank j j4" using keeps_rank_trans [OF k3] forward_call(8) [OF api nx] by blast
      have "0 < rank it j" using api more x(1) unfolding forward_only_def by (metis fst_conv)
      moreover have "rank it' j4 \<le> rank it j3 - 1" using api nx unfolding forward_only_def by (metis fst_conv snd_conv)
      moreover have "rank it j3 \<le> rank it j" using k3 by (simp add: keeps_rank_def)
      ultimately have "rank it' j4 < fuel" using Suc.prems by linarith
      then have "returns rank j4 (range_for api body fuel it' (j4, q3))" by (rule Suc.IH)
      then have "returns rank j (range_for api body fuel it' (j4, q3))" by (rule returns_trans [OF k4])
      then show ?thesis using x k3 by (cases f) (simp_all add: more v Done r nx)
    qed (use x b in \<open>simp_all add: more v\<close>)
  qed
qed simp

lemma levels_body_returns:
  assumes "forward_only api rank n"
  shows "returns rank j (levels_body api sz bid v (j, q))"
  using forward_call [OF assms] string_at_forward [OF assms]
  by (auto simp: levels_body_def Let_def split: prod.split option.split) (meson keeps_rank_trans)+

lemma object_levels_body_returns:
  assumes "forward_only api rank n"
  shows "returns rank j (object_levels_body api sz bid v (j, q))"
  using forward_call [OF assms] string_field_forward [OF assms]
  by (auto simp: object_levels_body_def Let_def split: prod.split option.split) (meson keeps_rank_trans)+

lemma hint_forward:
  assumes "forward_only api rank n"
  shows "keeps_rank rank j (fst (hint api sz obj f bid (j, q)))"
  using string_field_forward [OF assms] by (auto simp: hint_def split: prod.split option.split)

lemma price_change_body_returns:
  assumes "forward_only api rank n"
  shows "returns rank j (price_change_body api sz v (j, q))"
proof -
  have hints: "returns rank j' (Done (Continue, hint api sz obj ''best_ask'' False (hint api sz obj ''best_bid'' True (j', q'))))" for obj j' q'
  proof -
    obtain j1 q1 where 1: "hint api sz obj ''best_bid'' True (j', q') = (j1, q1)" by fastforce
    obtain j2 q2 where 2: "hint api sz obj ''best_ask'' False (j1, q1) = (j2, q2)" by fastforce
    have "keeps_rank rank j' j1" "keeps_rank rank j1 j2"
      using hint_forward [OF assms, of j' sz obj "''best_bid''" True q'] hint_forward [OF assms, of j1 sz obj "''best_ask''" False q1]
      by (simp_all add: 1 2)
    then show ?thesis using keeps_rank_trans by (simp add: 1 2)
  qed
  note trans = keeps_rank_trans returns_trans
  show ?thesis
    using forward_call(4) [OF assms] string_field_forward [OF assms] hints
    by (auto simp: price_change_body_def Let_def split: prod.split option.split) (meson trans)+
qed

lemma parse_array_field_returns:
  assumes "forward_only api rank n" "\<And>v j q. returns rank j (body v (j, q))" "n < fuel"
  shows "returns rank j (parse_array_field api body fuel obj field (j, q))"
proof -
  have loop: "returns rank j' (range_for api body fuel it (j', q))" if "arr_begin api arr j0 = (it, j')" for arr j0 it j'
  proof -
    have "rank it j' \<le> n" using assms(1) that unfolding forward_only_def by (metis fst_conv snd_conv)
    then show ?thesis using assms(3) by (intro range_for_returns [OF assms(1,2)]) simp
  qed
  show ?thesis
    using forward_call(1,3,5) [OF assms(1)] loop
    by (auto simp: parse_array_field_def Let_def split: prod.split option.split field_result.split)
      (meson keeps_rank_trans returns_trans)+
qed

lemma and_then_returns:
  assumes "returns rank j r" "\<And>j' q'. returns rank j' (k (j', q'))"
  shows "returns rank j (and_then r k)"
proof (cases r)
  case (Done x)
  obtain b j' q' where x: "x = (b, (j', q'))" by (metis surj_pair)
  have "keeps_rank rank j j'" using assms(1) by (simp add: Done x)
  then show ?thesis using returns_trans [OF _ assms(2)] by (cases b) (simp_all add: and_then_def Done x)
qed (use assms(1) in \<open>simp_all add: and_then_def\<close>)

lemma parse_message_object_returns:
  assumes api: "forward_only api rank n" and fuel: "n < fuel"
  shows "returns rank j (parse_message_object api sz fuel obj (j, q))"
proof -
  note field = parse_array_field_returns [OF api _ fuel]
  have mock: "returns rank j' (and_then (parse_levels api sz fuel obj ''bids'' True (j', q')) (parse_levels api sz fuel obj ''asks'' False))" for j' q'
    unfolding parse_levels_def by (intro and_then_returns field levels_body_returns [OF api])
  have book: "returns rank j' (and_then (parse_object_levels api sz fuel obj ''bids'' True (j', q')) (parse_object_levels api sz fuel obj ''asks'' False))" for j' q'
    unfolding parse_object_levels_def by (intro and_then_returns field object_levels_body_returns [OF api])
  have change: "returns rank j' (parse_price_change api sz fuel obj (j', q'))" for j' q'
    unfolding parse_price_change_def by (intro field price_change_body_returns [OF api])
  show ?thesis
    using forward_call(1,2) [OF api] mock book change
    by (auto simp: parse_message_object_def Let_def split: prod.split option.split field_result.split)
      (meson keeps_rank_trans returns_trans)+
qed

lemma element_body_returns:
  assumes "forward_only api rank n" "n < fuel"
  shows "returns rank j (element_body api sz fuel v (j, q))"
proof -
  have "returns rank j' (case parse_message_object api sz fuel elem (j', q) of
      Done (_, s) \<Rightarrow> Done (Continue, s) | Terminated \<Rightarrow> Terminated | No_fuel \<Rightarrow> No_fuel)" for elem j'
    using parse_message_object_returns [OF assms, of j' sz elem q] by (auto simp: returns_def split: outcome.splits)
  then show ?thesis
    using forward_call(4) [OF assms(1)]
    by (auto simp: element_body_def split: prod.split option.split) (meson returns_trans)
qed

lemma returns_fuel: "returns rank j r \<Longrightarrow> r \<noteq> No_fuel"
  by auto

lemma parse_document_fuel:
  assumes "forward_only api rank n" "n < fuel"
  shows "parse_document api sz fuel (j, q) \<noteq> No_fuel"
proof -
  have loop: "range_for api (element_body api sz fuel) fuel it (j', q) \<noteq> No_fuel" if "arr_begin api arr j0 = (it, j')" for arr j0 it j'
  proof -
    have "rank it j' \<le> n" using assms(1) that unfolding forward_only_def by (metis fst_conv snd_conv)
    then show ?thesis
      using assms(2) by (intro returns_fuel [OF range_for_returns [OF assms(1) element_body_returns [OF assms]]]) simp
  qed
  have message: "parse_message_object api sz fuel obj (j', q) \<noteq> No_fuel" for obj j'
    by (rule returns_fuel [OF parse_message_object_returns [OF assms]])
  show ?thesis
    using loop message by (auto simp: parse_document_def Let_def split: prod.split option.split)
qed

section \<open>Well-formed messages\<close>

text \<open>
  What simdjson documents for a valid document, as a view of its handles: \<open>json_at j h\<close> is the JSON value that handle \<open>h\<close> stands for while it may be used,
  \<open>items_left j it\<close> the elements that an iterator has left, and \<open>depth_of\<close> the nesting depth of a handle. A library on demand moves one cursor: a call on a handle may
  end the use of this handle's value and of every handle as deep or deeper, but it leaves the enclosing objects and arrays as they are (\<open>keeps\<close>). Looking up a
  field, testing an iterator or dereferencing it leaves the object or the iterator itself usable as well.
\<close>

datatype json = JStr string | JObj "(string \<times> json) list" | JArr "json list" | JOther

record ('j, 'h) view =
  json_at :: "'j \<Rightarrow> 'h \<Rightarrow> json option"
  items_left :: "'j \<Rightarrow> 'h \<Rightarrow> json list option"
  depth_of :: "'h \<Rightarrow> nat"

definition keeps :: "('j, 'h) view \<Rightarrow> nat \<Rightarrow> 'j \<Rightarrow> 'j \<Rightarrow> bool" where
  "keeps vw d j j' \<longleftrightarrow> (\<forall>h. depth_of vw h < d \<longrightarrow> json_at vw j' h = json_at vw j h \<and> items_left vw j' h = items_left vw j h)"

definition reads :: "('j, 'h) simdjson \<Rightarrow> ('j, 'h) view \<Rightarrow> bool" where
  "reads api vw \<longleftrightarrow>
     (\<forall>h s j. json_at vw j h = Some (JStr s) \<longrightarrow>
        (case get_string api h j of (r, j') \<Rightarrow> r = Some s \<and> keeps vw (depth_of vw h) j j')) \<and>
     (\<forall>h xs j. json_at vw j h = Some (JArr xs) \<longrightarrow>
        (case get_array api h j of (r, j') \<Rightarrow>
           \<exists>a. r = Some a \<and> depth_of vw a = depth_of vw h \<and> json_at vw j' a = Some (JArr xs) \<and> keeps vw (depth_of vw h) j j')) \<and>
     (\<forall>h fs j. json_at vw j h = Some (JObj fs) \<longrightarrow>
        (case get_object api h j of (r, j') \<Rightarrow>
           \<exists>obj. r = Some obj \<and> depth_of vw obj = depth_of vw h \<and> json_at vw j' obj = Some (JObj fs) \<and> keeps vw (depth_of vw h) j j')) \<and>
     (\<forall>h fs f j. json_at vw j h = Some (JObj fs) \<longrightarrow>
        (case find_field_unordered api h f j of (r, j') \<Rightarrow>
           keeps vw (Suc (depth_of vw h)) j j' \<and>
           (case map_of fs f of
              None \<Rightarrow> r = No_such_field
            | Some x \<Rightarrow> \<exists>v. r = Found v \<and> depth_of vw v = Suc (depth_of vw h) \<and> json_at vw j' v = Some x))) \<and>
     (\<forall>h xs j. json_at vw j h = Some (JArr xs) \<longrightarrow>
        (case arr_begin api h j of (it, j') \<Rightarrow>
           depth_of vw it = depth_of vw h \<and> items_left vw j' it = Some xs \<and> keeps vw (depth_of vw h) j j')) \<and>
     (\<forall>it xs j. items_left vw j it = Some xs \<longrightarrow>
        (case arr_not_end api it j of (b, j') \<Rightarrow> b = (xs \<noteq> []) \<and> keeps vw (Suc (depth_of vw it)) j j')) \<and>
     (\<forall>it x xs j. items_left vw j it = Some (x # xs) \<longrightarrow>
        (case arr_deref api it j of (r, j') \<Rightarrow>
           \<exists>v. r = Some v \<and> depth_of vw v = Suc (depth_of vw it) \<and> json_at vw j' v = Some x \<and> keeps vw (Suc (depth_of vw it)) j j')) \<and>
     (\<forall>it x xs j. items_left vw j it = Some (x # xs) \<longrightarrow>
        (case arr_next api it j of (it', j') \<Rightarrow>
           depth_of vw it' = depth_of vw it \<and> items_left vw j' it' = Some xs \<and> keeps vw (depth_of vw it) j j'))"

lemma keeps_refl [simp]: "keeps vw d j j"
  by (simp add: keeps_def)

lemma keeps_trans: "keeps vw d j j' \<Longrightarrow> keeps vw d j' j'' \<Longrightarrow> keeps vw d j j''"
  by (simp add: keeps_def)

lemma keeps_mono: "keeps vw d j j' \<Longrightarrow> d' \<le> d \<Longrightarrow> keeps vw d' j j'"
  by (simp add: keeps_def)

lemma keeps_view: "keeps vw d j j' \<Longrightarrow> depth_of vw h < d \<Longrightarrow> json_at vw j' h = json_at vw j h \<and> items_left vw j' h = items_left vw j h"
  by (simp add: keeps_def)

lemma reads_rules:
  assumes "reads api vw"
  shows "json_at vw j h = Some (JStr s) \<Longrightarrow> \<exists>j'. get_string api h j = (Some s, j') \<and> keeps vw (depth_of vw h) j j'"
    "json_at vw j h = Some (JArr xs) \<Longrightarrow> \<exists>a j'. get_array api h j = (Some a, j') \<and> depth_of vw a = depth_of vw h \<and> json_at vw j' a = Some (JArr xs) \<and>
       keeps vw (depth_of vw h) j j'"
    "json_at vw j h = Some (JObj fs) \<Longrightarrow> \<exists>obj j'. get_object api h j = (Some obj, j') \<and> depth_of vw obj = depth_of vw h \<and> json_at vw j' obj = Some (JObj fs) \<and>
       keeps vw (depth_of vw h) j j'"
    "json_at vw j h = Some (JObj fs) \<Longrightarrow> map_of fs f = Some x \<Longrightarrow> \<exists>v j'. find_field_unordered api h f j = (Found v, j') \<and>
       depth_of vw v = Suc (depth_of vw h) \<and> json_at vw j' v = Some x \<and> keeps vw (Suc (depth_of vw h)) j j'"
    "json_at vw j h = Some (JObj fs) \<Longrightarrow> map_of fs f = None \<Longrightarrow> \<exists>j'. find_field_unordered api h f j = (No_such_field, j') \<and>
       keeps vw (Suc (depth_of vw h)) j j'"
    "json_at vw j h = Some (JArr xs) \<Longrightarrow> \<exists>it j'. arr_begin api h j = (it, j') \<and> depth_of vw it = depth_of vw h \<and> items_left vw j' it = Some xs \<and>
       keeps vw (depth_of vw h) j j'"
    "items_left vw j it = Some xs \<Longrightarrow> \<exists>j'. arr_not_end api it j = (xs \<noteq> [], j') \<and> items_left vw j' it = Some xs \<and> keeps vw (Suc (depth_of vw it)) j j'"
    "items_left vw j it = Some (x # xs) \<Longrightarrow> \<exists>v j'. arr_deref api it j = (Some v, j') \<and> depth_of vw v = Suc (depth_of vw it) \<and> json_at vw j' v = Some x \<and>
       items_left vw j' it = Some (x # xs) \<and> keeps vw (Suc (depth_of vw it)) j j'"
    "items_left vw j it = Some (x # xs) \<Longrightarrow> \<exists>it' j'. arr_next api it j = (it', j') \<and> depth_of vw it' = depth_of vw it \<and> items_left vw j' it' = Some xs \<and>
       keeps vw (depth_of vw it) j j'"
proof -
  note c = assms [unfolded reads_def]
  note r1 = c [THEN conjunct1, rule_format]
  note r2 = c [THEN conjunct2, THEN conjunct1, rule_format]
  note r3 = c [THEN conjunct2, THEN conjunct2, THEN conjunct1, rule_format]
  note r4 = c [THEN conjunct2, THEN conjunct2, THEN conjunct2, THEN conjunct1, rule_format]
  note r5 = c [THEN conjunct2, THEN conjunct2, THEN conjunct2, THEN conjunct2, THEN conjunct1, rule_format]
  note r6 = c [THEN conjunct2, THEN conjunct2, THEN conjunct2, THEN conjunct2, THEN conjunct2, THEN conjunct1, rule_format]
  note r7 = c [THEN conjunct2, THEN conjunct2, THEN conjunct2, THEN conjunct2, THEN conjunct2, THEN conjunct2, THEN conjunct1, rule_format]
  note r8 = c [THEN conjunct2, THEN conjunct2, THEN conjunct2, THEN conjunct2, THEN conjunct2, THEN conjunct2, THEN conjunct2, rule_format]
  show "json_at vw j h = Some (JStr s) \<Longrightarrow> \<exists>j'. get_string api h j = (Some s, j') \<and> keeps vw (depth_of vw h) j j'"
    using r1 [of j h s] by (cases "get_string api h j") simp
  show "json_at vw j h = Some (JArr xs) \<Longrightarrow> \<exists>a j'. get_array api h j = (Some a, j') \<and> depth_of vw a = depth_of vw h \<and> json_at vw j' a = Some (JArr xs) \<and>
       keeps vw (depth_of vw h) j j'"
    using r2 [of j h xs] by (cases "get_array api h j") simp
  show "json_at vw j h = Some (JObj fs) \<Longrightarrow> \<exists>obj j'. get_object api h j = (Some obj, j') \<and> depth_of vw obj = depth_of vw h \<and> json_at vw j' obj = Some (JObj fs) \<and>
       keeps vw (depth_of vw h) j j'"
    using r3 [of j h fs] by (cases "get_object api h j") simp
  show "json_at vw j h = Some (JObj fs) \<Longrightarrow> map_of fs f = Some x \<Longrightarrow> \<exists>v j'. find_field_unordered api h f j = (Found v, j') \<and>
       depth_of vw v = Suc (depth_of vw h) \<and> json_at vw j' v = Some x \<and> keeps vw (Suc (depth_of vw h)) j j'"
    using r4 [of j h fs f] by (cases "find_field_unordered api h f j") auto
  show "json_at vw j h = Some (JObj fs) \<Longrightarrow> map_of fs f = None \<Longrightarrow> \<exists>j'. find_field_unordered api h f j = (No_such_field, j') \<and>
       keeps vw (Suc (depth_of vw h)) j j'"
    using r4 [of j h fs f] by (cases "find_field_unordered api h f j") auto
  show "json_at vw j h = Some (JArr xs) \<Longrightarrow> \<exists>it j'. arr_begin api h j = (it, j') \<and> depth_of vw it = depth_of vw h \<and> items_left vw j' it = Some xs \<and>
       keeps vw (depth_of vw h) j j'"
    using r5 [of j h xs] by (cases "arr_begin api h j") simp
  show "items_left vw j it = Some xs \<Longrightarrow> \<exists>j'. arr_not_end api it j = (xs \<noteq> [], j') \<and> items_left vw j' it = Some xs \<and> keeps vw (Suc (depth_of vw it)) j j'"
  proof -
    assume r: "items_left vw j it = Some xs"
    obtain b j' where c: "arr_not_end api it j = (b, j')" by fastforce
    have k: "b = (xs \<noteq> [])" "keeps vw (Suc (depth_of vw it)) j j'" using r6 [OF r] by (simp_all add: c)
    then show ?thesis using keeps_view [OF k(2), of it] r c by simp
  qed
  show "items_left vw j it = Some (x # xs) \<Longrightarrow> \<exists>v j'. arr_deref api it j = (Some v, j') \<and> depth_of vw v = Suc (depth_of vw it) \<and> json_at vw j' v = Some x \<and>
       items_left vw j' it = Some (x # xs) \<and> keeps vw (Suc (depth_of vw it)) j j'"
  proof -
    assume r: "items_left vw j it = Some (x # xs)"
    obtain a j' where c: "arr_deref api it j = (a, j')" by fastforce
    obtain v where k: "a = Some v" "depth_of vw v = Suc (depth_of vw it)" "json_at vw j' v = Some x" "keeps vw (Suc (depth_of vw it)) j j'"
      using r7 [OF r] by (auto simp: c)
    then show ?thesis using keeps_view [OF k(4), of it] r c by simp
  qed
  show "items_left vw j it = Some (x # xs) \<Longrightarrow> \<exists>it' j'. arr_next api it j = (it', j') \<and> depth_of vw it' = depth_of vw it \<and> items_left vw j' it' = Some xs \<and>
       keeps vw (depth_of vw it) j j'"
    using r8 [of j it x xs] by (cases "arr_next api it j") simp
qed

lemma string_field_reads:
  assumes "reads api vw" "json_at vw j h = Some (JObj fs)" "map_of fs f = Some (JStr s)"
  shows "\<exists>j'. string_field api h f j = (Some s, j') \<and> json_at vw j' h = Some (JObj fs) \<and> keeps vw (Suc (depth_of vw h)) j j'"
proof -
  obtain v j1 where 1: "find_field_unordered api h f j = (Found v, j1)" "depth_of vw v = Suc (depth_of vw h)" "json_at vw j1 v = Some (JStr s)"
    "keeps vw (Suc (depth_of vw h)) j j1"
    using reads_rules(4) [OF assms] by blast
  obtain j2 where 2: "get_string api v j1 = (Some s, j2)" "keeps vw (Suc (depth_of vw h)) j1 j2"
    using reads_rules(1) [OF assms(1) 1(3)] unfolding 1(2) by blast
  have k: "keeps vw (Suc (depth_of vw h)) j j2" by (rule keeps_trans [OF 1(4) 2(2)])
  then show ?thesis using keeps_view [OF k, of h] 1 2 assms(2) by (simp add: string_field_def)
qed

lemma string_field_missing:
  assumes "reads api vw" "json_at vw j h = Some (JObj fs)" "map_of fs f = None"
  shows "\<exists>j'. string_field api h f j = (None, j') \<and> json_at vw j' h = Some (JObj fs) \<and> keeps vw (Suc (depth_of vw h)) j j'"
proof -
  obtain j1 where 1: "find_field_unordered api h f j = (No_such_field, j1)" "keeps vw (Suc (depth_of vw h)) j j1"
    using reads_rules(5) [OF assms] by blast
  then show ?thesis using keeps_view [OF 1(2), of h] assms(2) by (simp add: string_field_def)
qed

lemma string_at_reads:
  assumes "reads api vw" "items_left vw j it = Some (JStr s # xs)"
  shows "\<exists>j'. string_at api it j = (Some s, j') \<and> items_left vw j' it = Some (JStr s # xs) \<and> keeps vw (Suc (depth_of vw it)) j j'"
proof -
  obtain v j1 where 1: "arr_deref api it j = (Some v, j1)" "depth_of vw v = Suc (depth_of vw it)" "json_at vw j1 v = Some (JStr s)"
    "keeps vw (Suc (depth_of vw it)) j j1"
    using reads_rules(8) [OF assms] by blast
  obtain j2 where 2: "get_string api v j1 = (Some s, j2)" "keeps vw (Suc (depth_of vw it)) j1 j2"
    using reads_rules(1) [OF assms(1) 1(3)] unfolding 1(2) by blast
  have k: "keeps vw (Suc (depth_of vw it)) j j2" by (rule keeps_trans [OF 1(4) 2(2)])
  then show ?thesis using keeps_view [OF k, of it] 1 2 assms(2) by (simp add: string_at_def)
qed

text \<open>A loop whose body turns every element into an update of the ring.\<close>

lemma range_for_reads:
  assumes api: "reads api vw"
    and body: "\<And>x v j q. x \<in> set xs \<Longrightarrow> json_at vw j v = Some (enc x) \<Longrightarrow>
      \<exists>j'. body v (j, q) = Done (Continue, (j', g x q)) \<and> keeps vw (depth_of vw v) j j'"
  shows "items_left vw j it = Some (map enc xs) \<Longrightarrow> length xs < fuel \<Longrightarrow>
    \<exists>j'. range_for api body fuel it (j, q) = Done (True, (j', fold g xs q)) \<and> keeps vw (depth_of vw it) j j'"
  using body
proof (induction xs arbitrary: it j q fuel)
  case Nil
  obtain f where f: "fuel = Suc f" using Nil.prems(2) by (cases fuel) auto
  obtain j1 where 1: "arr_not_end api it j = (False, j1)" "keeps vw (Suc (depth_of vw it)) j j1"
    using reads_rules(7) [OF api Nil.prems(1)] by auto
  have "keeps vw (depth_of vw it) j j1" by (rule keeps_mono [OF 1(2)]) simp
  then show ?case by (simp add: f 1(1))
next
  case (Cons x xs)
  let ?d = "depth_of vw it"
  obtain f where f: "fuel = Suc f" "length xs < f" using Cons.prems(2) by (cases fuel) auto
  have r0: "items_left vw j it = Some (enc x # map enc xs)" using Cons.prems(1) by simp
  obtain j1 where 1: "arr_not_end api it j = (True, j1)" "items_left vw j1 it = Some (enc x # map enc xs)" "keeps vw (Suc ?d) j j1"
    using reads_rules(7) [OF api r0] by auto
  obtain v j2 where 2: "arr_deref api it j1 = (Some v, j2)" "depth_of vw v = Suc ?d" "json_at vw j2 v = Some (enc x)"
    "items_left vw j2 it = Some (enc x # map enc xs)" "keeps vw (Suc ?d) j1 j2"
    using reads_rules(8) [OF api 1(2)] by blast
  obtain j3 where 3: "body v (j2, q) = Done (Continue, (j3, g x q))" "keeps vw (Suc ?d) j2 j3"
    using Cons.prems(3) [of x j2 v q] 2(2,3) by auto
  have r3: "items_left vw j3 it = Some (enc x # map enc xs)" using keeps_view [OF 3(2), of it] 2(4) by simp
  obtain it' j4 where 4: "arr_next api it j3 = (it', j4)" "depth_of vw it' = ?d" "items_left vw j4 it' = Some (map enc xs)" "keeps vw ?d j3 j4"
    using reads_rules(9) [OF api r3] by blast
  obtain j5 where 5: "range_for api body f it' (j4, g x q) = Done (True, (j5, fold g xs (g x q)))" "keeps vw ?d j4 j5"
    using Cons.IH [OF 4(3) f(2), of "g x q"] Cons.prems(3) 4(2) by auto
  have "keeps vw ?d j j3"
    by (rule keeps_mono [OF keeps_trans [OF 1(3) keeps_trans [OF 2(5) 3(2)]]]) simp
  then have "keeps vw ?d j j5" by (rule keeps_trans [OF _ keeps_trans [OF 4(4) 5(2)]])
  then show ?case by (simp add: f 1(1) 2(1) 3(1) 4(1) 5(1))
qed

lemma parse_array_field_reads:
  assumes api: "reads api vw" and obj: "json_at vw j obj = Some (JObj fs)" "map_of fs field = Some (JArr (map enc xs))"
    and body: "\<And>x v j q. x \<in> set xs \<Longrightarrow> json_at vw j v = Some (enc x) \<Longrightarrow>
      \<exists>j'. body v (j, q) = Done (Continue, (j', g x q)) \<and> keeps vw (depth_of vw v) j j'"
    and fuel: "length xs < fuel"
  shows "\<exists>j'. parse_array_field api body fuel obj field (j, q) = Done (True, (j', fold g xs q)) \<and> json_at vw j' obj = Some (JObj fs) \<and>
    keeps vw (Suc (depth_of vw obj)) j j'"
proof -
  let ?d = "Suc (depth_of vw obj)"
  obtain v j1 where 1: "find_field_unordered api obj field j = (Found v, j1)" "depth_of vw v = ?d" "json_at vw j1 v = Some (JArr (map enc xs))" "keeps vw ?d j j1"
    using reads_rules(4) [OF api obj] by blast
  obtain a j2 where 2: "get_array api v j1 = (Some a, j2)" "depth_of vw a = ?d" "json_at vw j2 a = Some (JArr (map enc xs))" "keeps vw ?d j1 j2"
    using reads_rules(2) [OF api 1(3)] unfolding 1(2) by blast
  obtain it j3 where 3: "arr_begin api a j2 = (it, j3)" "depth_of vw it = ?d" "items_left vw j3 it = Some (map enc xs)" "keeps vw ?d j2 j3"
    using reads_rules(6) [OF api 2(3)] unfolding 2(2) by blast
  have "\<exists>j'. range_for api body fuel it (j3, q) = Done (True, (j', fold g xs q)) \<and> keeps vw (depth_of vw it) j3 j'"
    by (rule range_for_reads [where xs = xs and enc = enc and g = g and body = body, OF api _ 3(3) fuel]) (rule body)
  then obtain j4 where 4: "range_for api body fuel it (j3, q) = Done (True, (j4, fold g xs q))" "keeps vw ?d j3 j4"
    unfolding 3(2) by blast
  have "keeps vw ?d j j4" by (rule keeps_trans [OF 1(4) keeps_trans [OF 2(4) keeps_trans [OF 3(4) 4(2)]]])
  moreover from this have "json_at vw j4 obj = Some (JObj fs)" using keeps_view [of vw ?d j j4 obj] obj(1) by simp
  ultimately show ?thesis by (simp add: parse_array_field_def 1(1) 2(1) 3(1) 4(1))
qed

text \<open>The texts of one level, in the two book schemas, and of one change with its optional hints.\<close>

definition level_object :: "nat \<times> nat \<Rightarrow> json" where
  "level_object = (\<lambda>(cents, n). JObj [(''price'', JStr (price_text cents)), (''size'', JStr (decimal n))])"

definition level_pair :: "nat \<times> nat \<Rightarrow> json" where
  "level_pair = (\<lambda>(cents, n). JArr [JStr (price_text cents), JStr (decimal n)])"

definition hint_field :: "string \<Rightarrow> nat option \<Rightarrow> (string \<times> json) list" where
  "hint_field f c = (case c of None \<Rightarrow> [] | Some cents \<Rightarrow> [(f, JStr (price_text cents))])"

type_synonym change = "bool \<times> nat \<times> nat \<times> nat option \<times> nat option"

definition change_object :: "change \<Rightarrow> json" where
  "change_object = (\<lambda>(bid, cents, n, bb, ba).
     JObj ([(''price'', JStr (price_text cents)), (''size'', JStr (decimal n)),
        (''side'', JStr (if bid then ''BUY'' else ''SELL''))] @ hint_field ''best_bid'' bb @ hint_field ''best_ask'' ba))"

definition tick_of :: "bool \<Rightarrow> nat \<times> nat \<Rightarrow> market_tick" where
  "tick_of bid = (\<lambda>(cents, n). \<lparr>price = word_of_nat cents, tsize = word_of_nat n, is_bid = bid\<rparr>)"

definition hint_ticks :: "bool \<Rightarrow> nat option \<Rightarrow> market_tick list" where
  "hint_ticks bid c = (case c of None \<Rightarrow> [] | Some cents \<Rightarrow> if cents = 0 then [] else [tick_of bid (cents, 1)])"

definition change_ticks :: "change \<Rightarrow> market_tick list" where
  "change_ticks = (\<lambda>(bid, cents, n, bb, ba). tick_of bid (cents, n) # hint_ticks True bb @ hint_ticks False ba)"

definition valid_level :: "nat \<times> nat \<Rightarrow> bool" where
  "valid_level = (\<lambda>(cents, n). cents \<le> 100 \<and> n < 2 ^ 32)"

definition valid_change :: "change \<Rightarrow> bool" where
  "valid_change = (\<lambda>(bid, cents, n, bb, ba). valid_level (cents, n) \<and> pred_option (\<lambda>c. c \<le> 100) bb \<and> pred_option (\<lambda>c. c \<le> 100) ba)"

lemma small_price:
  assumes "cents \<le> 100"
  shows "parse_price_cents (price_text cents) = Some (word_of_nat cents)" "in_price_range (word_of_nat cents)"
    "(ucast (word_of_nat cents :: u32) :: u8) = word_of_nat cents" "(word_of_nat cents :: u32) = 0 \<longleftrightarrow> cents = 0"
proof -
  have u: "unat (word_of_nat cents :: u32) = cents" using assms by (simp add: unat_of_nat)
  show "parse_price_cents (price_text cents) = Some (word_of_nat cents)" using assms by (intro price_text_parses) simp
  show "in_price_range (word_of_nat cents)" using assms by (simp add: in_price_range_def word_le_nat_alt u)
  have "unat (ucast (word_of_nat cents :: u32) :: u8) = unat (word_of_nat cents :: u8)"
    using assms by (simp add: unsigned_ucast_eq u unat_of_nat take_bit_nat_eq_self)
  then show "(ucast (word_of_nat cents :: u32) :: u8) = word_of_nat cents" by (rule unsigned_word_eqI)
  show "(word_of_nat cents :: u32) = 0 \<longleftrightarrow> cents = 0"
  proof
    assume "(word_of_nat cents :: u32) = 0"
    then show "cents = 0" using u by (simp only: unsigned_0)
  qed simp
qed

lemma level_tick_text:
  "valid_level (cents, n) \<Longrightarrow> level_tick bid (price_text cents) (decimal n) = Some (tick_of bid (cents, n))"
  by (simp add: valid_level_def level_tick_def tick_of_def small_price decimal_parses)

lemma hint_tick_text:
  "cents \<le> 100 \<Longrightarrow> hint_tick bid (price_text cents) = (if cents = 0 then None else Some (tick_of bid (cents, 1)))"
  by (simp add: hint_tick_def tick_of_def small_price)

lemma object_levels_body_reads:
  assumes api: "reads api vw" and x: "valid_level x" "json_at vw j v = Some (level_object x)"
  shows "\<exists>j'. object_levels_body api sz bid v (j, q) = Done (Continue, (j', push_tick sz (tick_of bid x) q)) \<and> keeps vw (depth_of vw v) j j'"
proof -
  obtain cents n where p: "x = (cents, n)" by fastforce
  let ?fs = "[(''price'', JStr (price_text cents)), (''size'', JStr (decimal n))]"
  let ?d = "depth_of vw v"
  have v: "json_at vw j v = Some (JObj ?fs)" using x(2) by (simp add: p level_object_def)
  obtain obj j1 where 1: "get_object api v j = (Some obj, j1)" "depth_of vw obj = ?d" "json_at vw j1 obj = Some (JObj ?fs)" "keeps vw ?d j j1"
    using reads_rules(3) [OF api v] by blast
  obtain j2 where 2: "string_field api obj ''price'' j1 = (Some (price_text cents), j2)" "json_at vw j2 obj = Some (JObj ?fs)" "keeps vw (Suc ?d) j1 j2"
    using string_field_reads [OF api 1(3), of "''price''" "price_text cents"] 1(2) by auto
  obtain j3 where 3: "string_field api obj ''size'' j2 = (Some (decimal n), j3)" "keeps vw (Suc ?d) j2 j3"
    using string_field_reads [OF api 2(2), of "''size''" "decimal n"] 1(2) by auto
  have "keeps vw ?d j1 j3" by (rule keeps_mono [OF keeps_trans [OF 2(3) 3(2)]]) simp
  then have "keeps vw ?d j j3" by (rule keeps_trans [OF 1(4)])
  then show ?thesis using x(1) by (simp add: object_levels_body_def 1(1) 2(1) 3(1) p level_tick_text emit_def)
qed

lemma levels_body_reads:
  assumes api: "reads api vw" and x: "valid_level x" "json_at vw j v = Some (level_pair x)"
  shows "\<exists>j'. levels_body api sz bid v (j, q) = Done (Continue, (j', push_tick sz (tick_of bid x) q)) \<and> keeps vw (depth_of vw v) j j'"
proof -
  obtain cents n where p: "x = (cents, n)" by fastforce
  let ?xs = "[JStr (price_text cents), JStr (decimal n)]"
  let ?d = "depth_of vw v"
  have weak: "keeps vw ?d i i'" if "keeps vw (Suc ?d) i i'" for i i' using that by (rule keeps_mono) simp
  have v: "json_at vw j v = Some (JArr ?xs)" using x(2) by (simp add: p level_pair_def)
  obtain a j1 where 1: "get_array api v j = (Some a, j1)" "depth_of vw a = ?d" "json_at vw j1 a = Some (JArr ?xs)" "keeps vw ?d j j1"
    using reads_rules(2) [OF api v] by blast
  obtain i1 j2 where 2: "arr_begin api a j1 = (i1, j2)" "depth_of vw i1 = ?d" "items_left vw j2 i1 = Some ?xs" "keeps vw ?d j1 j2"
    using reads_rules(6) [OF api 1(3)] unfolding 1(2) by blast
  obtain j3 where 3: "arr_not_end api i1 j2 = (True, j3)" "items_left vw j3 i1 = Some ?xs" "keeps vw ?d j2 j3"
    using reads_rules(7) [OF api 2(3)] weak unfolding 2(2) by auto
  obtain j4 where 4: "string_at api i1 j3 = (Some (price_text cents), j4)" "items_left vw j4 i1 = Some ?xs" "keeps vw ?d j3 j4"
    using string_at_reads [OF api 3(2)] weak unfolding 2(2) by blast
  obtain i2 j5 where 5: "arr_next api i1 j4 = (i2, j5)" "depth_of vw i2 = ?d" "items_left vw j5 i2 = Some [JStr (decimal n)]" "keeps vw ?d j4 j5"
    using reads_rules(9) [OF api 4(2)] unfolding 2(2) by blast
  obtain j6 where 6: "arr_not_end api i2 j5 = (True, j6)" "items_left vw j6 i2 = Some [JStr (decimal n)]" "keeps vw ?d j5 j6"
    using reads_rules(7) [OF api 5(3)] weak unfolding 5(2) by auto
  obtain j7 where 7: "string_at api i2 j6 = (Some (decimal n), j7)" "items_left vw j7 i2 = Some [JStr (decimal n)]" "keeps vw ?d j6 j7"
    using string_at_reads [OF api 6(2)] weak unfolding 5(2) by blast
  obtain i3 j8 where 8: "arr_next api i2 j7 = (i3, j8)" "depth_of vw i3 = ?d" "items_left vw j8 i3 = Some []" "keeps vw ?d j7 j8"
    using reads_rules(9) [OF api 7(2)] unfolding 5(2) by blast
  obtain j9 where 9: "arr_not_end api i3 j8 = (False, j9)" "keeps vw ?d j8 j9"
    using reads_rules(7) [OF api 8(3)] weak unfolding 8(2) by auto
  have "keeps vw ?d j j9"
    by (rule keeps_trans [OF 1(4) keeps_trans [OF 2(4) keeps_trans [OF 3(3) keeps_trans [OF 4(3) keeps_trans [OF 5(4)
            keeps_trans [OF 6(3) keeps_trans [OF 7(3) keeps_trans [OF 8(4) 9(2)]]]]]]]])
  then show ?thesis using x(1)
    by (simp add: levels_body_def 1(1) 2(1) 3(1) 4(1) 5(1) 6(1) 7(1) 8(1) 9(1) p level_tick_text emit_def)
qed

lemma hint_reads:
  assumes api: "reads api vw" and obj: "json_at vw j obj = Some (JObj fs)" and c: "pred_option (\<lambda>c. c \<le> 100) c"
    and f: "map_of fs f = map_of (hint_field f c) f"
  shows "\<exists>j'. hint api sz obj f bid (j, q) = (j', fold (push_tick sz) (hint_ticks bid c) q) \<and> json_at vw j' obj = Some (JObj fs) \<and>
    keeps vw (Suc (depth_of vw obj)) j j'"
proof (cases c)
  case None
  then have "map_of fs f = None" using f by (simp add: hint_field_def)
  then obtain j' where "string_field api obj f j = (None, j')" "json_at vw j' obj = Some (JObj fs)" "keeps vw (Suc (depth_of vw obj)) j j'"
    using string_field_missing [OF api obj] by blast
  then show ?thesis by (simp add: hint_def hint_ticks_def None)
next
  case (Some cents)
  then have "map_of fs f = Some (JStr (price_text cents))" using f by (simp add: hint_field_def)
  then obtain j' where "string_field api obj f j = (Some (price_text cents), j')" "json_at vw j' obj = Some (JObj fs)" "keeps vw (Suc (depth_of vw obj)) j j'"
    using string_field_reads [OF api obj] by blast
  then show ?thesis using c by (simp add: hint_def hint_ticks_def Some hint_tick_text emit_def)
qed

lemma price_change_body_reads:
  assumes api: "reads api vw" and x: "valid_change x" "json_at vw j v = Some (change_object x)"
  shows "\<exists>j'. price_change_body api sz v (j, q) = Done (Continue, (j', fold (push_tick sz) (change_ticks x) q)) \<and> keeps vw (depth_of vw v) j j'"
proof -
  obtain bid cents n bb ba where p: "x = (bid, cents, n, bb, ba)" by (cases x) auto
  let ?side = "if bid then ''BUY'' else ''SELL''"
  define fs where "fs = [(''price'', JStr (price_text cents)), (''size'', JStr (decimal n)),
        (''side'', JStr ?side)] @ hint_field ''best_bid'' bb @ hint_field ''best_ask'' ba"
  have ok: "valid_level (cents, n)" "pred_option (\<lambda>c. c \<le> 100) bb" "pred_option (\<lambda>c. c \<le> 100) ba"
    using x(1) by (simp_all add: p valid_change_def)
  have v: "json_at vw j v = Some (JObj fs)" using x(2) by (simp add: p change_object_def fs_def)
  have look: "map_of fs ''price'' = Some (JStr (price_text cents))" "map_of fs ''size'' = Some (JStr (decimal n))"
    "map_of fs ''side'' = Some (JStr ?side)"
    by (simp_all add: fs_def)
  have hints: "map_of fs ''best_bid'' = map_of (hint_field ''best_bid'' bb) ''best_bid''"
    "map_of fs ''best_ask'' = map_of (hint_field ''best_ask'' ba) ''best_ask''"
    by (cases bb; cases ba; simp add: fs_def hint_field_def)+
  let ?d = "depth_of vw v"
  obtain obj j1 where 1: "get_object api v j = (Some obj, j1)" "depth_of vw obj = ?d" "json_at vw j1 obj = Some (JObj fs)" "keeps vw ?d j j1"
    using reads_rules(3) [OF api v] by blast
  obtain j2 where 2: "string_field api obj ''price'' j1 = (Some (price_text cents), j2)" "json_at vw j2 obj = Some (JObj fs)" "keeps vw (Suc ?d) j1 j2"
    using string_field_reads [OF api 1(3) look(1)] unfolding 1(2) by blast
  obtain j3 where 3: "string_field api obj ''size'' j2 = (Some (decimal n), j3)" "json_at vw j3 obj = Some (JObj fs)" "keeps vw (Suc ?d) j2 j3"
    using string_field_reads [OF api 2(2) look(2)] unfolding 1(2) by blast
  obtain j4 where 4: "string_field api obj ''side'' j3 = (Some ?side, j4)" "json_at vw j4 obj = Some (JObj fs)" "keeps vw (Suc ?d) j3 j4"
    using string_field_reads [OF api 3(2) look(3)] unfolding 1(2) by blast
  let ?q1 = "push_tick sz (tick_of bid (cents, n)) q"
  let ?q2 = "fold (push_tick sz) (hint_ticks True bb) ?q1"
  obtain j5 where 5: "hint api sz obj ''best_bid'' True (j4, ?q1) = (j5, ?q2)" "json_at vw j5 obj = Some (JObj fs)" "keeps vw (Suc ?d) j4 j5"
    using hint_reads [OF api 4(2) ok(2) hints(1)] unfolding 1(2) by blast
  obtain j6 where 6: "hint api sz obj ''best_ask'' False (j5, ?q2) = (j6, fold (push_tick sz) (hint_ticks False ba) ?q2)" "keeps vw (Suc ?d) j5 j6"
    using hint_reads [OF api 5(2) ok(3) hints(2)] unfolding 1(2) by blast
  have "keeps vw ?d j1 j6"
    by (rule keeps_mono [OF keeps_trans [OF 2(3) keeps_trans [OF 3(3) keeps_trans [OF 4(3) keeps_trans [OF 5(3) 6(2)]]]]]) simp
  then have "keeps vw ?d j j6" by (rule keeps_trans [OF 1(4)])
  moreover have "price_change_body api sz v (j, q) = Done (Continue, (j6, fold (push_tick sz) (change_ticks x) q))"
    using 5(1) 6(1) by (cases bid) (simp_all add: price_change_body_def 1(1) 2(1) 3(1) 4(1) level_tick_text [OF ok(1)] p change_ticks_def)
  ultimately show ?thesis by blast
qed

lemma fold_concat_map: "fold f (concat (map g xs)) q = fold (\<lambda>x. fold f (g x)) xs q"
  by (induction xs arbitrary: q) simp_all

lemma parse_levels_reads:
  assumes "reads api vw" "json_at vw j obj = Some (JObj fs)" "map_of fs field = Some (JArr (map level_pair xs))"
    "list_all valid_level xs" "length xs < fuel"
  shows "\<exists>j'. parse_levels api sz fuel obj field bid (j, q) = Done (True, (j', fold (push_tick sz) (map (tick_of bid) xs) q)) \<and>
    json_at vw j' obj = Some (JObj fs) \<and> keeps vw (Suc (depth_of vw obj)) j j'"
  unfolding parse_levels_def fold_map comp_def
  by (rule parse_array_field_reads [OF assms(1-3) _ assms(5)], rule levels_body_reads [OF assms(1)])
    (use assms(4) in \<open>auto simp: list_all_iff\<close>)

lemma parse_object_levels_reads:
  assumes "reads api vw" "json_at vw j obj = Some (JObj fs)" "map_of fs field = Some (JArr (map level_object xs))"
    "list_all valid_level xs" "length xs < fuel"
  shows "\<exists>j'. parse_object_levels api sz fuel obj field bid (j, q) = Done (True, (j', fold (push_tick sz) (map (tick_of bid) xs) q)) \<and>
    json_at vw j' obj = Some (JObj fs) \<and> keeps vw (Suc (depth_of vw obj)) j j'"
  unfolding parse_object_levels_def fold_map comp_def
  by (rule parse_array_field_reads [OF assms(1-3) _ assms(5)], rule object_levels_body_reads [OF assms(1)])
    (use assms(4) in \<open>auto simp: list_all_iff\<close>)

lemma parse_price_change_reads:
  assumes "reads api vw" "json_at vw j obj = Some (JObj fs)" "map_of fs ''price_changes'' = Some (JArr (map change_object xs))"
    "list_all valid_change xs" "length xs < fuel"
  shows "\<exists>j'. parse_price_change api sz fuel obj (j, q) = Done (True, (j', fold (push_tick sz) (concat (map change_ticks xs)) q)) \<and>
    json_at vw j' obj = Some (JObj fs) \<and> keeps vw (Suc (depth_of vw obj)) j j'"
  unfolding parse_price_change_def fold_concat_map
  by (rule parse_array_field_reads [OF assms(1-3) _ assms(5)], rule price_change_body_reads [OF assms(1)])
    (use assms(4) in \<open>auto simp: list_all_iff\<close>)

text \<open>A message of one of the three schemas, the object that carries it (other fields are allowed), and its ticks.\<close>

datatype message =
    Mock "(nat \<times> nat) list" "(nat \<times> nat) list"
  | Book "(nat \<times> nat) list" "(nat \<times> nat) list"
  | Delta "change list"

fun carries :: "(string \<times> json) list \<Rightarrow> message \<Rightarrow> bool" where
  "carries fs (Mock bl al) \<longleftrightarrow> map_of fs ''event_type'' = None \<and>
     map_of fs ''bids'' = Some (JArr (map level_pair bl)) \<and> map_of fs ''asks'' = Some (JArr (map level_pair al))"
| "carries fs (Book bl al) \<longleftrightarrow> map_of fs ''event_type'' = Some (JStr ''book'') \<and>
     map_of fs ''bids'' = Some (JArr (map level_object bl)) \<and> map_of fs ''asks'' = Some (JArr (map level_object al))"
| "carries fs (Delta changes) \<longleftrightarrow> map_of fs ''event_type'' = Some (JStr ''price_change'') \<and>
     map_of fs ''price_changes'' = Some (JArr (map change_object changes))"

fun valid_message :: "nat \<Rightarrow> message \<Rightarrow> bool" where
  "valid_message fuel (Delta changes) \<longleftrightarrow> list_all valid_change changes \<and> length changes < fuel"
| "valid_message fuel (Mock bl al) \<longleftrightarrow> list_all valid_level bl \<and> list_all valid_level al \<and> length bl < fuel \<and> length al < fuel"
| "valid_message fuel (Book bl al) \<longleftrightarrow> list_all valid_level bl \<and> list_all valid_level al \<and> length bl < fuel \<and> length al < fuel"

fun message_ticks :: "message \<Rightarrow> market_tick list" where
  "message_ticks (Delta changes) = concat (map change_ticks changes)"
| "message_ticks (Mock bl al) = map (tick_of True) bl @ map (tick_of False) al"
| "message_ticks (Book bl al) = map (tick_of True) bl @ map (tick_of False) al"

lemma parse_message_object_reads:
  assumes api: "reads api vw" and obj: "json_at vw j obj = Some (JObj fs)" "carries fs m" "valid_message fuel m"
  shows "\<exists>j'. parse_message_object api sz fuel obj (j, q) = Done (True, (j', fold (push_tick sz) (message_ticks m) q)) \<and>
    keeps vw (Suc (depth_of vw obj)) j j'"
proof (cases m)
  case (Mock bl al)
  let ?d = "Suc (depth_of vw obj)"
  have f: "map_of fs ''event_type'' = None" "map_of fs ''bids'' = Some (JArr (map level_pair bl))"
    "map_of fs ''asks'' = Some (JArr (map level_pair al))" using obj(2) by (simp_all add: Mock)
  have v: "list_all valid_level bl" "list_all valid_level al" "length bl < fuel" "length al < fuel"
    using obj(3) by (simp_all add: Mock)
  obtain j1 where 1: "find_field_unordered api obj ''event_type'' j = (No_such_field, j1)" "keeps vw ?d j j1"
    using reads_rules(5) [OF api obj(1) f(1)] by blast
  have o1: "json_at vw j1 obj = Some (JObj fs)" using keeps_view [OF 1(2), of obj] obj(1) by simp
  obtain j2 where 2: "parse_levels api sz fuel obj ''bids'' True (j1, q) = Done (True, (j2, fold (push_tick sz) (map (tick_of True) bl) q))"
    "json_at vw j2 obj = Some (JObj fs)" "keeps vw ?d j1 j2"
    using parse_levels_reads [OF api o1 f(2) v(1,3)] by blast
  obtain j3 where 3: "parse_levels api sz fuel obj ''asks'' False (j2, fold (push_tick sz) (map (tick_of True) bl) q) =
      Done (True, (j3, fold (push_tick sz) (map (tick_of False) al) (fold (push_tick sz) (map (tick_of True) bl) q)))" "keeps vw ?d j2 j3"
    using parse_levels_reads [OF api 2(2) f(3) v(2,4)] by blast
  have "keeps vw ?d j j3" by (rule keeps_trans [OF 1(2) keeps_trans [OF 2(3) 3(2)]])
  then show ?thesis using 2(1) 3(1) by (simp add: parse_message_object_def Let_def 1(1) and_then_def Mock)
next
  case (Book bl al)
  let ?d = "Suc (depth_of vw obj)"
  have f: "map_of fs ''event_type'' = Some (JStr ''book'')" "map_of fs ''bids'' = Some (JArr (map level_object bl))"
    "map_of fs ''asks'' = Some (JArr (map level_object al))" using obj(2) by (simp_all add: Book)
  have v: "list_all valid_level bl" "list_all valid_level al" "length bl < fuel" "length al < fuel"
    using obj(3) by (simp_all add: Book)
  obtain h j0 where 0: "find_field_unordered api obj ''event_type'' j = (Found h, j0)" "depth_of vw h = ?d" "json_at vw j0 h = Some (JStr ''book'')" "keeps vw ?d j j0"
    using reads_rules(4) [OF api obj(1) f(1)] by blast
  obtain j1 where 1: "get_string api h j0 = (Some ''book'', j1)" "keeps vw ?d j0 j1" using reads_rules(1) [OF api 0(3)] unfolding 0(2) by blast
  have o1: "json_at vw j1 obj = Some (JObj fs)" using keeps_view [OF keeps_trans [OF 0(4) 1(2)], of obj] obj(1) by simp
  obtain j2 where 2: "parse_object_levels api sz fuel obj ''bids'' True (j1, q) = Done (True, (j2, fold (push_tick sz) (map (tick_of True) bl) q))"
    "json_at vw j2 obj = Some (JObj fs)" "keeps vw ?d j1 j2"
    using parse_object_levels_reads [OF api o1 f(2) v(1,3)] by blast
  obtain j3 where 3: "parse_object_levels api sz fuel obj ''asks'' False (j2, fold (push_tick sz) (map (tick_of True) bl) q) =
      Done (True, (j3, fold (push_tick sz) (map (tick_of False) al) (fold (push_tick sz) (map (tick_of True) bl) q)))" "keeps vw ?d j2 j3"
    using parse_object_levels_reads [OF api 2(2) f(3) v(2,4)] by blast
  have "keeps vw ?d j j3" by (rule keeps_trans [OF 0(4) keeps_trans [OF 1(2) keeps_trans [OF 2(3) 3(2)]]])
  then show ?thesis using 2(1) 3(1) by (simp add: parse_message_object_def Let_def 0(1) 1(1) and_then_def Book)
next
  case (Delta changes)
  let ?d = "Suc (depth_of vw obj)"
  have f: "map_of fs ''event_type'' = Some (JStr ''price_change'')" "map_of fs ''price_changes'' = Some (JArr (map change_object changes))"
    using obj(2) by (simp_all add: Delta)
  have v: "list_all valid_change changes" "length changes < fuel" using obj(3) by (simp_all add: Delta)
  obtain h j0 where 0: "find_field_unordered api obj ''event_type'' j = (Found h, j0)" "depth_of vw h = ?d" "json_at vw j0 h = Some (JStr ''price_change'')" "keeps vw ?d j j0"
    using reads_rules(4) [OF api obj(1) f(1)] by blast
  obtain j1 where 1: "get_string api h j0 = (Some ''price_change'', j1)" "keeps vw ?d j0 j1" using reads_rules(1) [OF api 0(3)] unfolding 0(2) by blast
  have o1: "json_at vw j1 obj = Some (JObj fs)" using keeps_view [OF keeps_trans [OF 0(4) 1(2)], of obj] obj(1) by simp
  obtain j2 where 2: "parse_price_change api sz fuel obj (j1, q) = Done (True, (j2, fold (push_tick sz) (concat (map change_ticks changes)) q))" "keeps vw ?d j1 j2"
    using parse_price_change_reads [OF api o1 f(2) v] by blast
  have "keeps vw ?d j j2" by (rule keeps_trans [OF 0(4) keeps_trans [OF 1(2) 2(2)]])
  then show ?thesis using 2(1) by (simp add: parse_message_object_def Let_def 0(1) 1(1) Delta)
qed

lemma push_ticks:
  assumes "spsc_inv sz q"
  shows "spsc_inv sz (fold (push_tick sz) ts q)"
    "spsc_contents sz (fold (push_tick sz) ts q) = take (unat sz) (spsc_contents sz q @ ts)"
proof -
  have v: "valid_size sz" using assms by (simp add: spsc_inv_def)
  have "fold (push_tick sz) ts q = push_all (spsc_push sz) ts q"
    by (induction ts arbitrary: q) (simp_all add: push_tick_def)
  then show "spsc_inv sz (fold (push_tick sz) ts q)"
    "spsc_contents sz (fold (push_tick sz) ts q) = take (unat sz) (spsc_contents sz q @ ts)"
    using bounded_fifo.contents_push_all [OF spsc_bounded_fifo [OF v] assms, of ts] by simp_all
qed

lemma load_payload_exact:
  assumes "length (parser_buffer p) = kMaxPayloadBytes + padding api" "length payload \<le> kMaxPayloadBytes"
  shows "\<exists>p'. load_payload api payload p = Some p' \<and> parser_initialized p' = parser_initialized p \<and>
      length (parser_buffer p') = length (parser_buffer p) \<and>
      take (length payload + padding api) (parser_buffer p') = payload @ replicate (padding api) (CHR 0x00)"
  using assms by (simp add: load_payload_def write_bytes_def)

text \<open>A payload whose document is one message, or an array of messages.\<close>

definition shown :: "('j, 'h) simdjson \<Rightarrow> ('j, 'h) view \<Rightarrow> 'j \<Rightarrow> json \<Rightarrow> bool" where
  "shown api vw j jdoc \<longleftrightarrow>
     (case jdoc of
        JObj _ \<Rightarrow> \<exists>obj j2. doc_get_object api j = (Some obj, j2) \<and> json_at vw j2 obj = Some jdoc
      | JArr _ \<Rightarrow> \<exists>arr j2 j3. doc_get_object api j = (None, j2) \<and> doc_get_array api j2 = (Some arr, j3) \<and> json_at vw j3 arr = Some jdoc
      | _ \<Rightarrow> False)"

definition delivers :: "('j, 'h) simdjson \<Rightarrow> ('j, 'h) view \<Rightarrow> string \<Rightarrow> json \<Rightarrow> bool" where
  "delivers api vw payload jdoc \<longleftrightarrow>
     (\<forall>buf j. take (length payload) buf = payload \<longrightarrow>
        (\<exists>j1. api_iterate api buf (length payload) j = (True, j1) \<and> shown api vw j1 jdoc))"

definition root_of :: "json \<Rightarrow> ((string \<times> json) list \<times> message) list \<Rightarrow> bool" where
  "root_of jdoc ms \<longleftrightarrow> jdoc = JArr (map (JObj \<circ> fst) ms) \<or> (\<exists>fs m. jdoc = JObj fs \<and> ms = [(fs, m)])"

lemma element_body_reads:
  assumes api: "reads api vw" and m: "carries (fst x) (snd x)" "valid_message fuel (snd x)" "json_at vw j v = Some (JObj (fst x))"
  shows "\<exists>j'. element_body api sz fuel v (j, q) = Done (Continue, (j', fold (push_tick sz) (message_ticks (snd x)) q)) \<and>
    keeps vw (depth_of vw v) j j'"
proof -
  let ?d = "depth_of vw v"
  obtain obj j1 where 1: "get_object api v j = (Some obj, j1)" "depth_of vw obj = ?d" "json_at vw j1 obj = Some (JObj (fst x))" "keeps vw ?d j j1"
    using reads_rules(3) [OF api m(3)] by blast
  obtain j2 where 2: "parse_message_object api sz fuel obj (j1, q) = Done (True, (j2, fold (push_tick sz) (message_ticks (snd x)) q))"
    "keeps vw (Suc ?d) j1 j2"
    using parse_message_object_reads [OF api 1(3) m(1,2)] unfolding 1(2) by blast
  have "keeps vw ?d j1 j2" by (rule keeps_mono [OF 2(2)]) simp
  then have "keeps vw ?d j j2" by (rule keeps_trans [OF 1(4)])
  then show ?thesis by (simp add: element_body_def 1(1) 2(1))
qed

lemma parse_document_reads:
  assumes api: "reads api vw" and root: "root_of jdoc ms"
    and ms: "list_all (\<lambda>(fs, m). carries fs m \<and> valid_message fuel m) ms" "length ms < fuel"
    and doc: "shown api vw j jdoc"
  shows "\<exists>j'. parse_document api sz fuel (j, q) =
      Done (True, (j', fold (push_tick sz) (concat (map (message_ticks \<circ> snd) ms)) q))"
  using root unfolding root_of_def
proof
  assume r: "jdoc = JArr (map (JObj \<circ> fst) ms)"
  obtain arr j2 j3 where 1: "doc_get_object api j = (None, j2)" "doc_get_array api j2 = (Some arr, j3)"
    "json_at vw j3 arr = Some (JArr (map (JObj \<circ> fst) ms))" using doc by (auto simp: r shown_def)
  obtain it j4 where 2: "arr_begin api arr j3 = (it, j4)" "items_left vw j4 it = Some (map (JObj \<circ> fst) ms)" using reads_rules(6) [OF api 1(3)] by blast
  have "\<exists>j'. range_for api (element_body api sz fuel) fuel it (j4, q) =
      Done (True, (j', fold (\<lambda>x. fold (push_tick sz) (message_ticks (snd x))) ms q)) \<and> keeps vw (depth_of vw it) j4 j'"
    by (rule range_for_reads [OF api _ 2(2) ms(2)], rule element_body_reads [OF api])
      (use ms(1) in \<open>auto simp: list_all_iff\<close>)
  then show ?thesis by (auto simp: parse_document_def 1 2 fold_concat_map)
next
  assume "\<exists>fs m. jdoc = JObj fs \<and> ms = [(fs, m)]"
  then obtain fs m where r: "jdoc = JObj fs" "ms = [(fs, m)]" by blast
  obtain obj j2 where 1: "doc_get_object api j = (Some obj, j2)" "json_at vw j2 obj = Some (JObj fs)" using doc by (auto simp: r shown_def)
  show ?thesis
    using parse_message_object_reads [OF api 1(2), of m fuel sz q] ms(1) by (auto simp: parse_document_def 1 r)
qed

section \<open>Unexpected termination\<close>

definition survives :: "'a outcome \<Rightarrow> bool" where
  "survives r \<longleftrightarrow> r \<noteq> Terminated"

lemma survives_simps [simp]: "survives (Done x)" "survives No_fuel" "\<not> survives Terminated"
  by (simp_all add: survives_def)

lemma range_for_survives:
  assumes "\<And>it j. fst (arr_deref api it j) \<noteq> None" "\<And>v s. survives (body v s)"
  shows "survives (range_for api body fuel it s)"
proof (induction fuel arbitrary: it s)
  case (Suc fuel)
  obtain j q where s: "s = (j, q)" by fastforce
  obtain more j1 where more: "arr_not_end api it j = (more, j1)" by fastforce
  obtain v j2 where v: "arr_deref api it j1 = (Some v, j2)" using assms(1) [of it j1] by (cases "arr_deref api it j1") auto
  have "survives (body v (j2, q))" by (rule assms(2))
  then show ?case using Suc.IH
    by (cases "body v (j2, q)") (auto simp: s more v split: flow.split prod.split)
qed simp

lemma bodies_survive [simp]:
  "survives (levels_body api sz bid v s)" "survives (object_levels_body api sz bid v s)" "survives (price_change_body api sz v s)"
  by (auto simp: levels_body_def object_levels_body_def price_change_body_def Let_def split: prod.split option.split)

lemma and_then_survives: "survives r \<Longrightarrow> (\<And>s. survives (k s)) \<Longrightarrow> survives (and_then r k)"
  by (cases r) (auto simp: and_then_def split: bool.split)

lemma parse_array_field_survives:
  assumes "\<And>it j. fst (arr_deref api it j) \<noteq> None" "\<And>v s. survives (body v s)"
  shows "survives (parse_array_field api body fuel obj field s)"
  using range_for_survives [OF assms]
  by (auto simp: parse_array_field_def Let_def split: prod.split option.split field_result.split)

lemma parse_message_object_survives:
  assumes "\<And>it j. fst (arr_deref api it j) \<noteq> None"
  shows "survives (parse_message_object api sz fuel obj s)"
proof -
  note f = parse_array_field_survives [OF assms]
  have "survives (and_then (parse_levels api sz fuel obj ''bids'' True s') (parse_levels api sz fuel obj ''asks'' False))"
    "survives (and_then (parse_object_levels api sz fuel obj ''bids'' True s') (parse_object_levels api sz fuel obj ''asks'' False))"
    "survives (parse_price_change api sz fuel obj s')" for s'
    unfolding parse_levels_def parse_object_levels_def parse_price_change_def by (intro and_then_survives f bodies_survive)+
  then show ?thesis by (auto simp: parse_message_object_def Let_def split: prod.split option.split field_result.split)
qed

lemma parse_document_survives:
  assumes "\<And>it j. fst (arr_deref api it j) \<noteq> None"
  shows "survives (parse_document api sz fuel s)"
proof -
  note message = parse_message_object_survives [OF assms]
  have "survives (element_body api sz fuel v s')" for v s'
  proof -
    have "survives (case parse_message_object api sz fuel elem s'' of
        Done (_, s) \<Rightarrow> Done (Continue, s) | Terminated \<Rightarrow> Terminated | No_fuel \<Rightarrow> No_fuel)" for elem s''
      using message [of sz fuel elem s''] by (cases "parse_message_object api sz fuel elem s''") (auto split: prod.split)
    then show ?thesis by (auto simp: element_body_def split: prod.split option.split)
  qed
  then show ?thesis using message range_for_survives [OF assms]
    by (auto simp: parse_document_def Let_def split: prod.split option.split)
qed

lemma parse_tick_buffer:
  assumes "length (parser_buffer p) = kMaxPayloadBytes + padding api"
  shows "\<exists>p' r. parse_tick api sz fuel payload p s = Some (p', r) \<and> length (parser_buffer p') = kMaxPayloadBytes + padding api"
proof (cases "parser_initialized p \<and> payload \<noteq> [] \<and> length payload \<le> kMaxPayloadBytes")
  case False
  then show ?thesis using assms by (cases s) (auto simp: parse_tick_def)
next
  case True
  then obtain p' where "load_payload api payload p = Some p'" "length (parser_buffer p') = length (parser_buffer p)"
    using load_payload_exact [OF assms] by blast
  then show ?thesis using True assms
    by (cases s; cases "api_iterate api (parser_buffer p') (length payload) (fst s)") (simp add: parse_tick_def)
qed

lemma parse_tick_emits:
  assumes "spsc_inv sz q" "parse_tick api sz fuel payload p (j, q) = Some (p', Done (b, (j', q')))"
  shows "emits sz q q'"
  using assms(2) emits_refl [OF assms(1)] parse_document_emits [OF assms(1), of api fuel]
  by (auto simp: parse_tick_def Let_def split: if_splits bind_splits prod.splits)
    (metis emits_only_simps(1))+

lemma parse_tick_fuel:
  assumes "forward_only api rank n" "n < fuel"
  shows "parse_tick api sz fuel payload p s \<noteq> Some (p', No_fuel)"
  using parse_document_fuel [OF assms, of sz]
  by (auto simp: parse_tick_def Let_def split: bind_splits prod.splits)

lemma parse_tick_survives:
  assumes "\<And>it j. fst (arr_deref api it j) \<noteq> None"
  shows "parse_tick api sz fuel payload p s \<noteq> Some (p', Terminated)"
  using parse_document_survives [OF assms]
  by (auto simp: parse_tick_def survives_def Let_def split: bind_splits prod.splits)

section \<open>A JSON tree as the library\<close>

text \<open>An instance of the parameter, over a JSON tree.\<close>

datatype handle = HVal nat json | HIter nat "json list"

fun tree_val :: "handle \<Rightarrow> json option" where
  "tree_val (HVal d v) = Some v"
| "tree_val (HIter d xs) = None"

fun tree_rest :: "handle \<Rightarrow> json list option" where
  "tree_rest (HIter d xs) = Some xs"
| "tree_rest (HVal d v) = None"

fun tree_depth :: "handle \<Rightarrow> nat" where
  "tree_depth (HVal d v) = d"
| "tree_depth (HIter d xs) = d"

definition tree_items :: "handle \<Rightarrow> json list" where
  "tree_items h = (case tree_rest h of None \<Rightarrow> [] | Some xs \<Rightarrow> xs)"

definition tree_view :: "(unit, handle) view" where
  "tree_view = \<lparr>json_at = (\<lambda>_. tree_val), items_left = (\<lambda>_. tree_rest), depth_of = tree_depth\<rparr>"

definition tree_api :: "json \<Rightarrow> (unit, handle) simdjson" where
  "tree_api jdoc =
     \<lparr>padding = 64,
      api_iterate = (\<lambda>_ _ j. (True, j)),
      doc_get_object = (\<lambda>j. (case jdoc of JObj _ \<Rightarrow> Some (HVal 0 jdoc) | _ \<Rightarrow> None, j)),
      doc_get_array = (\<lambda>j. (case jdoc of JArr _ \<Rightarrow> Some (HVal 0 jdoc) | _ \<Rightarrow> None, j)),
      find_field_unordered = (\<lambda>h f j. (case tree_val h of
          Some (JObj fs) \<Rightarrow> (case map_of fs f of None \<Rightarrow> No_such_field | Some v \<Rightarrow> Found (HVal (Suc (tree_depth h)) v)) | _ \<Rightarrow> Field_error, j)),
      get_string = (\<lambda>h j. (case tree_val h of Some (JStr s) \<Rightarrow> Some s | _ \<Rightarrow> None, j)),
      get_array = (\<lambda>h j. (case tree_val h of Some (JArr _) \<Rightarrow> Some h | _ \<Rightarrow> None, j)),
      get_object = (\<lambda>h j. (case tree_val h of Some (JObj _) \<Rightarrow> Some h | _ \<Rightarrow> None, j)),
      arr_begin = (\<lambda>h j. (HIter (tree_depth h) (case tree_val h of Some (JArr xs) \<Rightarrow> xs | _ \<Rightarrow> []), j)),
      arr_not_end = (\<lambda>h j. (tree_items h \<noteq> [], j)),
      arr_deref = (\<lambda>h j. (case tree_items h of [] \<Rightarrow> None | x # _ \<Rightarrow> Some (HVal (Suc (tree_depth h)) x), j)),
      arr_next = (\<lambda>h j. (HIter (tree_depth h) (tl (tree_items h)), j))\<rparr>"

lemma tree_reads: "reads (tree_api jdoc) tree_view"
  by (auto simp: reads_def tree_api_def tree_view_def tree_items_def split: json.split option.split)

definition limited :: "nat \<Rightarrow> (unit, handle) simdjson \<Rightarrow> (unit, handle) simdjson" where
  "limited n api = api\<lparr>arr_begin := (\<lambda>h j. (HIter (tree_depth h) (take n (tree_items (fst (arr_begin api h j)))), j))\<rparr>"

text \<open>With arrays cut off after \<open>n\<close> elements, every iterator is forward only.\<close>

lemma limited_forward: "forward_only (limited n (tree_api jdoc)) (\<lambda>h _. length (tree_items h)) n"
  by (simp add: forward_only_def keeps_rank_def limited_def tree_api_def tree_items_def)

lemma tree_delivers: "(case jdoc of JObj _ \<Rightarrow> True | JArr _ \<Rightarrow> True | _ \<Rightarrow> False) \<Longrightarrow> delivers (tree_api jdoc) tree_view payload jdoc"
  by (cases jdoc) (simp_all add: delivers_def shown_def tree_api_def tree_view_def)

lemma parser_init_simps [simp]:
  "parser_initialized (parser_init api ok) = ok" "length (parser_buffer (parser_init api ok)) = kMaxPayloadBytes + padding api"
  by (simp_all add: parser_init_def)

lemma parse_tick_reads:
  assumes "reads api vw" "delivers api vw payload jdoc" "root_of jdoc ms"
    and "list_all (\<lambda>(fs, m). carries fs m \<and> valid_message fuel m) ms" "length ms < fuel"
    and "parser_initialized p" "length (parser_buffer p) = kMaxPayloadBytes + padding api"
    and "payload \<noteq> []" "length payload \<le> kMaxPayloadBytes" "spsc_inv sz q"
  shows "\<exists>p' j' q'. parse_tick api sz fuel payload p (j, q) = Some (p', Done (True, (j', q'))) \<and> spsc_inv sz q' \<and>
    spsc_contents sz q' = take (unat sz) (spsc_contents sz q @ concat (map (message_ticks \<circ> snd) ms))"
proof -
  obtain p' where p': "load_payload api payload p = Some p'"
    "take (length payload + padding api) (parser_buffer p') = payload @ replicate (padding api) (CHR 0x00)"
    using load_payload_exact [OF assms(7,9)] by blast
  have "take (length payload) (take (length payload + padding api) (parser_buffer p')) = payload" unfolding p'(2) by simp
  then have buf: "take (length payload) (parser_buffer p') = payload" by simp
  obtain j1 where it: "api_iterate api (parser_buffer p') (length payload) j = (True, j1)" "shown api vw j1 jdoc"
    using assms(2) buf unfolding delivers_def by blast
  obtain j' where run: "parse_document api sz fuel (j1, q) =
      Done (True, (j', fold (push_tick sz) (concat (map (message_ticks \<circ> snd) ms)) q))"
    using parse_document_reads [OF assms(1,3,4,5) it(2)] by blast
  have "parse_tick api sz fuel payload p (j, q) =
      Some (p', Done (True, (j', fold (push_tick sz) (concat (map (message_ticks \<circ> snd) ms)) q)))"
    using assms(6,8,9) by (simp add: parse_tick_def p'(1) it(1) run)
  then show ?thesis using push_ticks [OF assms(10)] by blast
qed

definition sample_message :: message where
  "sample_message = Delta [(True, 50, 200, Some 50, None)]"

definition sample_fields :: "(string \<times> json) list" where
  "sample_fields = [(''event_type'', JStr ''price_change''), (''price_changes'', JArr [change_object (True, 50, 200, Some 50, None)])]"

lemma sample_ok: "list_all (\<lambda>(fs, m). carries fs m \<and> valid_message 9 m) [(sample_fields, sample_message)]"
  by (simp add: sample_fields_def sample_message_def valid_change_def valid_level_def)

abbreviation sample_api :: "(unit, handle) simdjson" where
  "sample_api \<equiv> tree_api (JObj sample_fields)"

lemma sample_root: "root_of (JObj sample_fields) [(sample_fields, sample_message)]"
  by (simp add: root_of_def)

lemma sample_delivers: "delivers sample_api tree_view payload (JObj sample_fields)"
  by (simp add: tree_delivers)

lemma sample_run:
  "\<exists>p' j' q'. parse_tick sample_api 4 9 ''{}'' (parser_init sample_api True) ((), spsc_init 4) = Some (p', Done (True, (j', q'))) \<and>
    spsc_contents 4 q' = [\<lparr>price = 50, tsize = 200, is_bid = True\<rparr>, \<lparr>price = 50, tsize = 1, is_bid = True\<rparr>]"
  using parse_tick_reads [OF tree_reads sample_delivers sample_root sample_ok, of "parser_init sample_api True" "''{}''" 4 "spsc_init 4" "()"] inv_init_4
  by (auto simp: kMaxPayloadBytes_def spsc_contents_init sample_message_def change_ticks_def hint_ticks_def tick_of_def)

text \<open>The same library with an error in place of every array element.\<close>

abbreviation bad_api :: "(unit, handle) simdjson" where
  "bad_api \<equiv> sample_api\<lparr>arr_deref := (\<lambda>_ j. (None, j))\<rparr>"

lemma bad_element_terminates:
  assumes "parser_initialized p" "length (parser_buffer p) = kMaxPayloadBytes + padding bad_api"
  shows "\<exists>p'. parse_tick bad_api sz 9 ''{}'' p ((), q) = Some (p', Terminated)"
proof -
  obtain p' where p: "load_payload bad_api ''{}'' p = Some p'"
    using load_payload_exact [OF assms(2), of "''{}''"] by (auto simp: kMaxPayloadBytes_def)
  have "parse_document bad_api sz 9 ((), q) = Terminated"
    by (simp add: parse_document_def parse_message_object_def parse_price_change_def parse_array_field_def tree_api_def
        tree_items_def sample_fields_def numeral_eq_Suc)
  then show ?thesis using p assms(1) by (simp add: parse_tick_def kMaxPayloadBytes_def tree_api_def)
qed

section \<open>Properties\<close>

text \<open>
  C5: if the library reads the payload as its JSON, one message of a supported schema or an array of messages, with prices of at most a hundred cents
  printed in dollars and sizes printed in decimal, then \<open>parse_tick\<close> returns true and the ring then holds its old contents
  followed by exactly the ticks of the message, in order, bids before asks and hints after their change, cut off at the capacity of the ring.
\<close>
theorem messages_become_ticks:
  assumes "reads api vw" "delivers api vw payload jdoc" "root_of jdoc ms"
    and "list_all (\<lambda>(fs, m). carries fs m \<and> valid_message fuel m) ms" "length ms < fuel"
    and "parser_initialized p" "length (parser_buffer p) = kMaxPayloadBytes + padding api"
    and "payload \<noteq> []" "length payload \<le> kMaxPayloadBytes" "spsc_inv sz q"
  shows "\<exists>p' j' q'. parse_tick api sz fuel payload p (j, q) = Some (p', Done (True, (j', q'))) \<and> spsc_inv sz q' \<and>
    spsc_contents sz q' = take (unat sz) (spsc_contents sz q @ concat (map (message_ticks \<circ> snd) ms))"
  using parse_tick_reads [OF assms] .

theorem messages_become_ticks_witness:
  "\<exists>p' j' q'. parse_tick sample_api 4 9 ''{}'' (parser_init sample_api True) ((), spsc_init 4) = Some (p', Done (True, (j', q'))) \<and>
    spsc_contents 4 q' = [\<lparr>price = 50, tsize = 200, is_bid = True\<rparr>, \<lparr>price = 50, tsize = 1, is_bid = True\<rparr>]"
  using messages_become_ticks [OF tree_reads sample_delivers sample_root sample_ok, of "parser_init sample_api True" "''{}''" 4 "spsc_init 4" "()"] inv_init_4
  by (auto simp: kMaxPayloadBytes_def spsc_contents_init sample_message_def change_ticks_def hint_ticks_def tick_of_def)

text \<open>
  Whatever the JSON library answers, a call of \<open>parse_tick\<close> that returns has only appended to the ring, keeps its
  invariant, and every tick it appended has a price on the ladder of the book.
\<close>
theorem only_ladder_ticks_are_queued:
  assumes "spsc_inv sz q" "parse_tick api sz fuel payload p (j, q) = Some (p', Done (b, (j', q')))"
  shows "spsc_inv sz q' \<and> (\<exists>ts. spsc_contents sz q' = spsc_contents sz q @ ts \<and> (\<forall>t \<in> set ts. price t \<le> kMaxPrice))"
  using parse_tick_emits [OF assms] by (simp add: emits_def list_all_iff)

theorem only_ladder_ticks_are_queued_witness:
  "\<exists>p' j' q'. parse_tick sample_api 4 9 ''{}'' (parser_init sample_api True) ((), spsc_init 4) = Some (p', Done (True, (j', q'))) \<and>
    length (spsc_contents 4 q') = 2 \<and> spsc_inv 4 q' \<and> (\<forall>t \<in> set (spsc_contents 4 q'). price t \<le> kMaxPrice)"
proof -
  obtain p' j' q' where run: "parse_tick sample_api 4 9 ''{}'' (parser_init sample_api True) ((), spsc_init 4) = Some (p', Done (True, (j', q')))"
    "length (spsc_contents 4 q') = 2" using sample_run by fastforce
  show ?thesis using only_ladder_ticks_are_queued [OF inv_init_4 run(1)] run by (auto simp: spsc_contents_init)
qed

text \<open>
  C27: the payload buffer is never overrun and keeps its size; a message that is empty or longer than \<open>kMaxPayloadBytes\<close>, and every message
  of a parser that failed to allocate, is rejected with nothing changed; every other one is handed to the library as the payload with all its padding zero.
\<close>
theorem payload_limits:
  assumes "length (parser_buffer p) = kMaxPayloadBytes + padding api"
  shows "\<exists>p' r. parse_tick api sz fuel payload p (j, q) = Some (p', r) \<and> length (parser_buffer p') = length (parser_buffer p) \<and>
    (if \<not> parser_initialized p \<or> payload = [] \<or> kMaxPayloadBytes < length payload then p' = p \<and> r = Done (False, (j, q))
     else take (length payload + padding api) (parser_buffer p') = payload @ replicate (padding api) (CHR 0x00) \<and>
       (\<forall>ok j'. api_iterate api (parser_buffer p') (length payload) j = (ok, j') \<longrightarrow>
          r = (if ok then parse_document api sz fuel (j', q) else Done (False, (j', q)))))"
proof (cases "\<not> parser_initialized p \<or> payload = [] \<or> kMaxPayloadBytes < length payload")
  case True
  then show ?thesis by (auto simp: parse_tick_def)
next
  case False
  then have ok: "parser_initialized p" "payload \<noteq> []" "length payload \<le> kMaxPayloadBytes" by auto
  obtain p' where p': "load_payload api payload p = Some p'" "length (parser_buffer p') = length (parser_buffer p)"
    "take (length payload + padding api) (parser_buffer p') = payload @ replicate (padding api) (CHR 0x00)"
    using load_payload_exact [OF assms ok(3)] by blast
  show ?thesis using ok p' by (cases "api_iterate api (parser_buffer p') (length payload) j") (simp add: parse_tick_def)
qed

theorem payload_limits_witness:
  "parse_tick sample_api 4 9 [] (parser_init sample_api True) ((), spsc_init 4) =
    Some (parser_init sample_api True, Done (False, ((), spsc_init 4)))"
proof -
  have "length (parser_buffer (parser_init sample_api True)) = kMaxPayloadBytes + padding sample_api" by simp
  from payload_limits [OF this, of 4 9 "[]" "()" "spsc_init 4"] show ?thesis by auto
qed

text \<open>
  C36: a price change of a bid that is also reported as the best bid leaves its level with size 1: the hint, pushed after
  the change, overwrites the size the message gave.
\<close>
theorem hint_replaces_size:
  assumes "reads api vw" "json_at vw j obj = Some (JObj fs)" "carries fs (Delta [(True, cents, n, Some cents, None)])"
    and "0 < cents" "cents \<le> 100" "n < 2 ^ 32" "1 < fuel" "valid_size sz" "1 < sz"
  shows "\<exists>j' q'. parse_message_object api sz fuel obj (j, spsc_init sz) = Done (True, (j', q')) \<and>
    get_bid_size (fold apply_tick (spsc_contents sz q') empty_book) (word_of_nat cents) = 1"
proof -
  let ?ts = "[tick_of True (cents, n), tick_of True (cents, 1)]"
  have v: "valid_message fuel (Delta [(True, cents, n, Some cents, None)])"
    using assms(5-7) by (simp add: valid_change_def valid_level_def)
  have two: "2 \<le> unat sz" using assms(9) by (simp add: word_less_nat_alt)
  obtain j' where run: "parse_message_object api sz fuel obj (j, spsc_init sz) = Done (True, (j', fold (push_tick sz) ?ts (spsc_init sz)))"
    using parse_message_object_reads [OF assms(1,2,3) v, of sz "spsc_init sz"] assms(4)
    by (auto simp: change_ticks_def hint_ticks_def)
  have "spsc_contents sz (fold (push_tick sz) ?ts (spsc_init sz)) = ?ts"
    using push_ticks(2) [OF spsc_inv_init [OF assms(8)], of ?ts] two by (simp add: spsc_contents_init del: fold.simps)
  moreover have "get_bid_size (fold apply_tick ?ts empty_book) (word_of_nat cents) = 1"
  proof -
    have p: "(word_of_nat cents :: u8) \<le> kMaxPrice" using assms(5) by (simp add: kMaxPrice_def word_le_nat_alt unat_of_nat)
    have "get_bid_size book p = depth book True p" for book p by (simp add: depth_def)
    then show ?thesis using p by (simp add: tick_of_def depth_apply_tick)
  qed
  ultimately show ?thesis using run by (metis)
qed

theorem hint_replaces_size_witness:
  "\<exists>j' q'. parse_message_object sample_api 4 9 (HVal 0 (JObj sample_fields)) ((), spsc_init 4) = Done (True, (j', q')) \<and>
    get_bid_size (fold apply_tick (spsc_contents 4 q') empty_book) 50 = 1"
proof -
  have "carries sample_fields (Delta [(True, 50, 200, Some 50, None)])" by (simp add: sample_fields_def)
  from hint_replaces_size [OF tree_reads [of "JObj sample_fields"] _ this, where j = "()" and obj = "HVal 0 (JObj sample_fields)" and fuel = 9 and sz = 4] valid_size_4
  show ?thesis by (simp add: tree_view_def)
qed

text \<open>
  C35: the one way in which \<open>parse_tick\<close>, declared \<open>noexcept\<close>, ends the process is an array element that the library reports as an
  error to a range-\<open>for\<close> loop; a library that never does so never ends it, and a single such element does.
\<close>
theorem only_bad_elements_terminate:
  "((\<forall>it j. fst (arr_deref api it j) \<noteq> None) \<longrightarrow> parse_tick api sz fuel payload p s \<noteq> Some (p', Terminated)) \<and>
   (\<exists>p''. parse_tick (sample_api\<lparr>arr_deref := (\<lambda>_ j. (None, j))\<rparr>) 4 9 ''{}'' (parser_init sample_api True) ((), spsc_init 4) =
      Some (p'', Terminated))"
  using parse_tick_survives [of api] bad_element_terminates [of "parser_init sample_api True" 4 "spsc_init 4"]
  by (auto simp: tree_api_def kMaxPayloadBytes_def)

theorem only_bad_elements_terminate_witness:
  "parse_tick (sample_api\<lparr>arr_deref := (\<lambda>_ j. (Some (HIter 0 []), j))\<rparr>) 4 9 ''{}'' (parser_init sample_api True) ((), spsc_init 4) \<noteq>
    Some (parser_init sample_api True, Terminated)"
  using only_bad_elements_terminate [of "sample_api\<lparr>arr_deref := (\<lambda>_ j. (Some (HIter 0 []), j))\<rparr>"] by simp

end
