(* ===== verification/WebSocketClient.thy ===== *)
theory WebSocketClient
  imports MarketParser EngineConfig
begin

text \<open>
  The network side, \<open>include/websocket_client.hpp\<close> and \<open>src/websocket_client.cpp\<close>: a chain of asynchronous operations
  (resolve, connect, TLS handshake, WebSocket handshake, subscription, reads), each started by the handler of the one
  before. Boost.Asio, Beast and OpenSSL are not part of the repository: what they do is the event that completes an operation, with
  an error code \<open>'e option\<close> (\<open>None\<close> is success) and, for a read, the bytes of the message. The state has the operations that
  were started and have not completed, the timeout of the TCP stream, and what \<open>fail\<close> has printed.
\<close>

datatype operation =
    Resolve string string
  | Connect
  | Tls_handshake
  | Ws_handshake string string
  | Write string
  | Read
  | Close_frame

record 'e ws_client =
  client_host :: string
  client_port :: string
  client_target :: string
  host_header :: string
  read_buffer :: string
  client_parser :: market_parser
  suggested_timeouts :: bool
  user_agent :: "string option"
  expires_after :: "nat option"
  text_frames :: bool
  pending :: "operation list"
  failures :: "(string \<times> 'e) list"

definition kReadBufferBytes :: nat where
  "kReadBufferBytes = 16384"

definition kSubscriptionPayload :: string where
  "kSubscriptionPayload =
     ''{'' @ [CHR 0x22] @ ''assets'' @ [CHR 0x22] @ '':['' @ [CHR 0x22] @ ''0x'' @ replicate 40 (CHR ''0'') @ [CHR 0x22] @ ''],'' @
     [CHR 0x22] @ ''type'' @ [CHR 0x22] @ '':'' @ [CHR 0x22] @ ''market'' @ [CHR 0x22] @ ''}''"

definition ws_client_init :: "market_parser \<Rightarrow> 'e ws_client" where
  "ws_client_init p =
     \<lparr>client_host = [], client_port = [], client_target = [], host_header = [], read_buffer = [], client_parser = p,
      suggested_timeouts = False, user_agent = None, expires_after = None, text_frames = False, pending = [], failures = []\<rparr>"

section \<open>The handlers\<close>

definition start :: "operation \<Rightarrow> 'e ws_client \<Rightarrow> 'e ws_client" where
  "start op c = c\<lparr>pending := pending c @ [op]\<rparr>"

definition fail :: "string \<Rightarrow> 'e \<Rightarrow> 'e ws_client \<Rightarrow> 'e ws_client" where
  "fail what ec c = c\<lparr>failures := failures c @ [(what, ec)]\<rparr>"

definition ws_run :: "string \<Rightarrow> string \<Rightarrow> string \<Rightarrow> 'e ws_client \<Rightarrow> 'e ws_client" where
  "ws_run host port target c =
     (let c = c\<lparr>client_host := host, client_port := port, client_target := target\<rparr>;
          c = c\<lparr>host_header := client_host c @ '':'' @ client_port c\<rparr>;
          c = c\<lparr>suggested_timeouts := True, user_agent := Some ''llpme-ws-client''\<rparr>
      in start (Resolve (client_host c) (client_port c)) c)"

definition ws_close :: "'e ws_client \<Rightarrow> 'e ws_client" where
  "ws_close c = start Close_frame c"

definition on_resolve :: "'e option \<Rightarrow> 'e ws_client \<Rightarrow> 'e ws_client" where
  "on_resolve ec c =
     (case ec of Some e \<Rightarrow> fail ''resolve'' e c | None \<Rightarrow> start Connect (c\<lparr>expires_after := Some 30\<rparr>))"

text \<open>\<open>sni\<close> is the error that \<open>SSL_set_tlsext_host_name\<close> left, or \<open>None\<close> if it succeeded.\<close>

definition on_connect :: "'e option \<Rightarrow> 'e option \<Rightarrow> 'e ws_client \<Rightarrow> 'e ws_client" where
  "on_connect ec sni c =
     (case ec of Some e \<Rightarrow> fail ''connect'' e c
      | None \<Rightarrow> (case sni of Some e \<Rightarrow> fail ''sni'' e c | None \<Rightarrow> start Tls_handshake c))"

definition on_ssl_handshake :: "'e option \<Rightarrow> 'e ws_client \<Rightarrow> 'e ws_client" where
  "on_ssl_handshake ec c =
     (case ec of Some e \<Rightarrow> fail ''ssl_handshake'' e c
      | None \<Rightarrow> let c = c\<lparr>expires_after := None\<rparr> in start (Ws_handshake (host_header c) (client_target c)) c)"

definition do_subscribe :: "'e ws_client \<Rightarrow> 'e ws_client" where
  "do_subscribe c = start (Write kSubscriptionPayload) (c\<lparr>text_frames := True\<rparr>)"

definition on_ws_handshake :: "'e option \<Rightarrow> 'e ws_client \<Rightarrow> 'e ws_client" where
  "on_ws_handshake ec c = (case ec of Some e \<Rightarrow> fail ''ws_handshake'' e c | None \<Rightarrow> do_subscribe c)"

definition do_read :: "'e ws_client \<Rightarrow> 'e ws_client" where
  "do_read c = start Read c"

definition on_written :: "'e option \<Rightarrow> 'e ws_client \<Rightarrow> 'e ws_client" where
  "on_written ec c = (case ec of Some e \<Rightarrow> fail ''subscribe_write'' e c | None \<Rightarrow> do_read c)"

text \<open>The result is \<open>None\<close> where \<open>parse_tick\<close> overruns its buffer.\<close>

definition on_read :: "('j, 'h) simdjson \<Rightarrow> nat \<Rightarrow> 'e option \<Rightarrow> nat \<Rightarrow> 'e ws_client \<times> 'j pstate \<Rightarrow>
    ('e ws_client \<times> 'j pstate) outcome option" where
  "on_read api fuel ec bytes_transferred = (\<lambda>(c, s).
     case ec of
       Some e \<Rightarrow> Some (Done (fail ''read'' e c, s))
     | None \<Rightarrow>
         do {
           (p, r) \<leftarrow> (if bytes_transferred \<noteq> 0
             then parse_tick api kTickQueueSize fuel (take bytes_transferred (read_buffer c)) (client_parser c) s
             else Some (client_parser c, Done (True, s)));
           Some (case r of
               Done (_, s) \<Rightarrow> Done (do_read (c\<lparr>client_parser := p, read_buffer := []\<rparr>), s)
             | Terminated \<Rightarrow> Terminated
             | No_fuel \<Rightarrow> No_fuel)
         })"

definition on_close :: "'e option \<Rightarrow> 'e ws_client \<Rightarrow> 'e ws_client" where
  "on_close ec c = (case ec of Some e \<Rightarrow> fail ''close'' e c | None \<Rightarrow> c)"

section \<open>Events\<close>

datatype 'e event =
    Resolved "'e option"
  | Connected "'e option" "'e option"
  | Tls_done "'e option"
  | Ws_done "'e option"
  | Written "'e option"
  | Received "'e option" string
  | Close_called
  | Closed "'e option"

definition finish :: "operation \<Rightarrow> 'e ws_client \<Rightarrow> 'e ws_client" where
  "finish op c = c\<lparr>pending := remove1 op (pending c)\<rparr>"

text \<open>
  An operation that is pending completes and its handler runs. A read appends a whole message to the buffer; one that
  does not fit is an error (\<open>buffer_overflow\<close> in Beast), as is any other reason, with some bytes already appended.
\<close>

inductive ws_step :: "('j, 'h) simdjson \<Rightarrow> nat \<Rightarrow> 'e ws_client \<times> 'j pstate \<Rightarrow> 'e event \<Rightarrow> 'e ws_client \<times> 'j pstate \<Rightarrow> bool"
  for api fuel where
  resolved: "Resolve h p \<in> set (pending c) \<Longrightarrow> ws_step api fuel (c, s) (Resolved ec) (on_resolve ec (finish (Resolve h p) c), s)"
| connected: "Connect \<in> set (pending c) \<Longrightarrow> ws_step api fuel (c, s) (Connected ec sni) (on_connect ec sni (finish Connect c), s)"
| tls_done: "Tls_handshake \<in> set (pending c) \<Longrightarrow> ws_step api fuel (c, s) (Tls_done ec) (on_ssl_handshake ec (finish Tls_handshake c), s)"
| ws_done: "Ws_handshake h t \<in> set (pending c) \<Longrightarrow> ws_step api fuel (c, s) (Ws_done ec) (on_ws_handshake ec (finish (Ws_handshake h t) c), s)"
| written: "Write m \<in> set (pending c) \<Longrightarrow> ws_step api fuel (c, s) (Written ec) (on_written ec (finish (Write m) c), s)"
| received: "Read \<in> set (pending c) \<Longrightarrow> length (read_buffer c @ msg) \<le> kReadBufferBytes \<Longrightarrow>
    on_read api fuel ec (length msg) ((finish Read c)\<lparr>read_buffer := read_buffer c @ msg\<rparr>, s) = Some (Done t) \<Longrightarrow>
    ws_step api fuel (c, s) (Received ec msg) t"
| close_called: "ws_step api fuel (c, s) Close_called (ws_close c, s)"
| closed: "Close_frame \<in> set (pending c) \<Longrightarrow> ws_step api fuel (c, s) (Closed ec) (on_close ec (finish Close_frame c), s)"

inductive_cases ws_stepE: "ws_step api fuel (c, s) e t"

text \<open>
  A handler that does not return: \<open>parse_tick\<close> throws out of a \<open>noexcept\<close> function, which ends the process, writes past its
  buffer, or loops for ever. Such an event has no step above; the process has a fault instead.
\<close>

datatype fault =
    Terminate
  | Buffer_overrun
  | Diverges
  | Signed_overflow
  | Dead_cell
  | Bad_read

inductive ws_fault :: "('j, 'h) simdjson \<Rightarrow> nat \<Rightarrow> 'e ws_client \<times> 'j pstate \<Rightarrow> 'e event \<Rightarrow> fault \<Rightarrow> bool" for api fuel where
  aborts: "Read \<in> set (pending c) \<Longrightarrow> length (read_buffer c @ msg) \<le> kReadBufferBytes \<Longrightarrow>
    on_read api fuel ec (length msg) ((finish Read c)\<lparr>read_buffer := read_buffer c @ msg\<rparr>, s) = Some Terminated \<Longrightarrow>
    ws_fault api fuel (c, s) (Received ec msg) Terminate"
| overruns: "Read \<in> set (pending c) \<Longrightarrow> length (read_buffer c @ msg) \<le> kReadBufferBytes \<Longrightarrow>
    on_read api fuel ec (length msg) ((finish Read c)\<lparr>read_buffer := read_buffer c @ msg\<rparr>, s) = None \<Longrightarrow>
    ws_fault api fuel (c, s) (Received ec msg) Buffer_overrun"
| loops: "Read \<in> set (pending c) \<Longrightarrow> length (read_buffer c @ msg) \<le> kReadBufferBytes \<Longrightarrow>
    on_read api fuel ec (length msg) ((finish Read c)\<lparr>read_buffer := read_buffer c @ msg\<rparr>, s) = Some No_fuel \<Longrightarrow>
    ws_fault api fuel (c, s) (Received ec msg) Diverges"

inductive_cases ws_faultE: "ws_fault api fuel (c, s) e f"
inductive_simps received_step_iff: "ws_step api fuel (c, s) (Received ec msg) t"
inductive_simps received_fault_iff: "ws_fault api fuel (c, s) (Received ec msg) f"

inductive ws_trace :: "('j, 'h) simdjson \<Rightarrow> nat \<Rightarrow> 'e ws_client \<times> 'j pstate \<Rightarrow> 'e event list \<Rightarrow> 'e ws_client \<times> 'j pstate \<Rightarrow> bool"
  for api fuel st where
  trace_nil: "ws_trace api fuel st [] st"
| trace_snoc: "ws_trace api fuel st es st' \<Longrightarrow> ws_step api fuel st' e st'' \<Longrightarrow> ws_trace api fuel st (es @ [e]) st''"

section \<open>The chain of operations\<close>

text \<open>The operation that is pending after \<open>k\<close> successful completions, and the names under which its failure is printed.\<close>

definition stage_op :: "string \<Rightarrow> string \<Rightarrow> string \<Rightarrow> nat \<Rightarrow> operation" where
  "stage_op host port target k =
     (if k = 0 then Resolve host port else if k = 1 then Connect else if k = 2 then Tls_handshake
      else if k = 3 then Ws_handshake (host @ '':'' @ port) target else if k = 4 then Write kSubscriptionPayload else Read)"

definition stage_names :: "nat \<Rightarrow> string set" where
  "stage_names k =
     (if k = 0 then {''resolve''} else if k = 1 then {''connect'', ''sni''} else if k = 2 then {''ssl_handshake''}
      else if k = 3 then {''ws_handshake''} else if k = 4 then {''subscribe_write''} else {''read''})"

fun succeeded :: "'e event \<Rightarrow> bool" where
  "succeeded (Resolved ec) \<longleftrightarrow> ec = None"
| "succeeded (Connected ec sni) \<longleftrightarrow> ec = None \<and> sni = None"
| "succeeded (Tls_done ec) \<longleftrightarrow> ec = None"
| "succeeded (Ws_done ec) \<longleftrightarrow> ec = None"
| "succeeded (Written ec) \<longleftrightarrow> ec = None"
| "succeeded (Received ec msg) \<longleftrightarrow> ec = None"
| "succeeded _ \<longleftrightarrow> False"

definition progress :: "'e event list \<Rightarrow> nat" where
  "progress es = length (filter succeeded es)"

definition chain_ops :: "'e ws_client \<Rightarrow> operation list" where
  "chain_ops c = filter (\<lambda>op. op \<noteq> Close_frame) (pending c)"

definition chain_failures :: "'e ws_client \<Rightarrow> (string \<times> 'e) list" where
  "chain_failures c = filter (\<lambda>f. fst f \<noteq> ''close'') (failures c)"

definition chain_inv :: "string \<Rightarrow> string \<Rightarrow> string \<Rightarrow> nat \<Rightarrow> 'e ws_client \<Rightarrow> bool" where
  "chain_inv host port target k c \<longleftrightarrow>
     host_header c = host @ '':'' @ port \<and> client_target c = target \<and>
     (chain_ops c = [stage_op host port target k] \<and> chain_failures c = [] \<and> read_buffer c = [] \<or>
      (\<exists>what e. chain_ops c = [] \<and> chain_failures c = [(what, e)] \<and> what \<in> stage_names k))"

lemma chain_start [simp]:
  "chain_ops (start op c) = chain_ops c @ (if op = Close_frame then [] else [op])" "chain_failures (start op c) = chain_failures c"
  "host_header (start op c) = host_header c" "client_target (start op c) = client_target c" "read_buffer (start op c) = read_buffer c"
  by (simp_all add: chain_ops_def chain_failures_def start_def)

lemma chain_fail [simp]:
  "chain_ops (fail what e c) = chain_ops c"
  "chain_failures (fail what e c) = chain_failures c @ (if what = ''close'' then [] else [(what, e)])"
  "host_header (fail what e c) = host_header c" "client_target (fail what e c) = client_target c" "read_buffer (fail what e c) = read_buffer c"
  by (simp_all add: chain_ops_def chain_failures_def fail_def)

lemma chain_finish [simp]:
  "chain_ops (finish op c) = remove1 op (chain_ops c)" "chain_failures (finish op c) = chain_failures c"
  "host_header (finish op c) = host_header c" "client_target (finish op c) = client_target c" "read_buffer (finish op c) = read_buffer c"
  by (simp_all add: chain_ops_def chain_failures_def finish_def filter_remove1)

lemma chain_updates [simp]:
  "chain_ops (c\<lparr>expires_after := t\<rparr>) = chain_ops c" "chain_failures (c\<lparr>expires_after := t\<rparr>) = chain_failures c"
  "chain_ops (c\<lparr>text_frames := b\<rparr>) = chain_ops c" "chain_failures (c\<lparr>text_frames := b\<rparr>) = chain_failures c"
  "chain_ops (c\<lparr>read_buffer := m\<rparr>) = chain_ops c" "chain_failures (c\<lparr>read_buffer := m\<rparr>) = chain_failures c"
  "chain_ops (c\<lparr>client_parser := p\<rparr>) = chain_ops c" "chain_failures (c\<lparr>client_parser := p\<rparr>) = chain_failures c"
  by (simp_all add: chain_ops_def chain_failures_def)

lemma chain_pending: "op \<noteq> Close_frame \<Longrightarrow> op \<in> set (pending c) \<longleftrightarrow> op \<in> set (chain_ops c)"
  by (simp add: chain_ops_def)

lemma chain_run: "chain_inv host port target 0 (ws_run host port target (ws_client_init p))"
  by (simp add: chain_inv_def ws_run_def ws_client_init_def Let_def stage_op_def)
    (simp add: chain_ops_def chain_failures_def)

lemma stage_op_iff:
  "stage_op host port target k = Resolve h p \<longleftrightarrow> k = 0 \<and> h = host \<and> p = port" "stage_op host port target k = Connect \<longleftrightarrow> k = 1"
  "stage_op host port target k = Tls_handshake \<longleftrightarrow> k = 2"
  "stage_op host port target k = Ws_handshake hh t \<longleftrightarrow> k = 3 \<and> hh = host @ '':'' @ port \<and> t = target"
  "stage_op host port target k = Write m \<longleftrightarrow> k = 4 \<and> m = kSubscriptionPayload" "stage_op host port target k = Read \<longleftrightarrow> 4 < k"
  "stage_op host port target k \<noteq> Close_frame"
  by (auto simp: stage_op_def)

lemma stage_op_values:
  "stage_op host port target (Suc 0) = Connect" "stage_op host port target 2 = Tls_handshake" "stage_op host port target (Suc (Suc 0)) = Tls_handshake"
  "stage_op host port target 3 = Ws_handshake (host @ '':'' @ port) target" "stage_op host port target 4 = Write kSubscriptionPayload"
  "stage_op host port target 5 = Read"
  by (simp_all add: stage_op_def)

lemma chain_current:
  assumes "chain_inv host port target k c" "op \<in> set (pending c)" "op \<noteq> Close_frame"
  shows "stage_op host port target k = op" "chain_ops c = [op]" "chain_failures c = []" "read_buffer c = []"
    "host_header c = host @ '':'' @ port" "client_target c = target"
  using assms by (auto simp: chain_inv_def chain_pending)

lemma chain_frame:
  assumes "chain_inv host port target k c" "chain_ops c' = chain_ops c" "chain_failures c' = chain_failures c"
    "host_header c' = host_header c" "client_target c' = client_target c" "read_buffer c' = read_buffer c"
  shows "chain_inv host port target k c'"
  using assms by (simp add: chain_inv_def)

lemma on_read_cases:
  assumes "on_read api fuel ec n (c, s) = Some (Done (c', s'))"
  obtains e where "ec = Some e" "c' = fail ''read'' e c" "s' = s"
  | "ec = None" "n = 0" "c' = do_read (c\<lparr>read_buffer := []\<rparr>)" "s' = s"
  | p b where "ec = None" "n \<noteq> 0" "parse_tick api kTickQueueSize fuel (take n (read_buffer c)) (client_parser c) s = Some (p, Done (b, s'))"
      "c' = do_read (c\<lparr>client_parser := p, read_buffer := []\<rparr>)"
proof (cases ec)
  case (Some e)
  then show ?thesis using assms that(1) by (simp add: on_read_def)
next
  case None
  show ?thesis
  proof (cases "n = 0")
    case True
    then show ?thesis using assms None that(2) by (simp add: on_read_def do_read_def start_def)
  next
    case False
    then show ?thesis using assms None that(3) by (auto simp: on_read_def split: bind_splits outcome.splits)
  qed
qed

lemma ws_step_chain:
  assumes inv: "chain_inv host port target k c" and step: "ws_step api fuel (c, s) e (c', s')"
  shows "chain_inv host port target (k + (if succeeded e then 1 else 0)) c'"
  using step
proof (rule ws_stepE)
  note cur = chain_current [OF inv]
  fix h p ec
  assume 1: "e = Resolved ec" "(c', s') = (on_resolve ec (finish (Resolve h p) c), s)" "Resolve h p \<in> set (pending c)"
  note c = cur [OF 1(3), simplified]
  show ?thesis using c 1 by (cases ec) (auto simp: chain_inv_def on_resolve_def stage_op_iff stage_op_values stage_names_def)
next
  note cur = chain_current [OF inv]
  fix ec sni
  assume 1: "e = Connected ec sni" "(c', s') = (on_connect ec sni (finish Connect c), s)" "Connect \<in> set (pending c)"
  note c = cur [OF 1(3), simplified]
  show ?thesis using c 1 by (cases ec; cases sni) (auto simp: chain_inv_def on_connect_def stage_op_iff stage_op_values stage_names_def)
next
  note cur = chain_current [OF inv]
  fix ec
  assume 1: "e = Tls_done ec" "(c', s') = (on_ssl_handshake ec (finish Tls_handshake c), s)" "Tls_handshake \<in> set (pending c)"
  note c = cur [OF 1(3), simplified]
  show ?thesis using c 1 by (cases ec) (auto simp: chain_inv_def on_ssl_handshake_def stage_op_iff stage_op_values stage_names_def Let_def)
next
  note cur = chain_current [OF inv]
  fix h t ec
  assume 1: "e = Ws_done ec" "(c', s') = (on_ws_handshake ec (finish (Ws_handshake h t) c), s)" "Ws_handshake h t \<in> set (pending c)"
  note c = cur [OF 1(3), simplified]
  show ?thesis using c 1
    by (cases ec) (auto simp: chain_inv_def on_ws_handshake_def do_subscribe_def stage_op_iff stage_op_values stage_names_def)
next
  note cur = chain_current [OF inv]
  fix m ec
  assume 1: "e = Written ec" "(c', s') = (on_written ec (finish (Write m) c), s)" "Write m \<in> set (pending c)"
  note c = cur [OF 1(3), simplified]
  show ?thesis using c 1 by (cases ec) (auto simp: chain_inv_def on_written_def do_read_def stage_op_iff stage_op_values stage_names_def)
next
  note cur = chain_current [OF inv]
  fix msg ec
  assume 1: "e = Received ec msg" "Read \<in> set (pending c)"
    "on_read api fuel ec (length msg) ((finish Read c)\<lparr>read_buffer := read_buffer c @ msg\<rparr>, s) = Some (Done (c', s'))"
  note c = cur [OF 1(2), simplified]
  have k: "4 < k" "stage_op host port target (Suc k) = Read" using c(1) by (auto simp: stage_op_iff)
  from 1(3) show ?thesis
    by (cases rule: on_read_cases) (use c k 1(1) in \<open>auto simp: chain_inv_def do_read_def stage_names_def\<close>)
next
  assume "e = Close_called" "(c', s') = (ws_close c, s)"
  then show ?thesis using inv by (auto simp: ws_close_def intro: chain_frame)
next
  fix ec
  assume 1: "e = Closed ec" "(c', s') = (on_close ec (finish Close_frame c), s)"
  have "Close_frame \<notin> set (chain_ops c)" by (simp add: chain_ops_def)
  then show ?thesis using inv 1 by (cases ec) (auto simp: on_close_def remove1_idem intro: chain_frame)
qed

lemma ws_trace_chain:
  assumes "chain_inv host port target 0 c0"
  shows "ws_trace api fuel (c0, s0) es st \<Longrightarrow> chain_inv host port target (progress es) (fst st)"
proof (induction rule: ws_trace.induct)
  case (trace_snoc es st' e st'')
  have "chain_inv host port target (progress es + (if succeeded e then 1 else 0)) (fst st'')"
    using trace_snoc.IH trace_snoc.hyps(2) ws_step_chain [of host port target "progress es" "fst st'" api fuel "snd st'" e "fst st''" "snd st''"]
    by simp
  then show ?case by (cases "succeeded e") (simp_all add: progress_def)
qed (use assms in \<open>simp add: progress_def\<close>)

section \<open>Every message is parsed\<close>

fun messages :: "'e event list \<Rightarrow> string list" where
  "messages [] = []"
| "messages (Received None msg # es) = msg # messages es"
| "messages (e # es) = messages es"

lemma messages_append: "messages (es @ es') = messages es @ messages es'"
  by (induction es rule: messages.induct) simp_all

text \<open>The reference: one call of \<open>parse_tick\<close> per message that is not empty.\<close>

fun parse_messages :: "('j, 'h) simdjson \<Rightarrow> nat \<Rightarrow> string list \<Rightarrow> market_parser \<Rightarrow> 'j pstate \<Rightarrow> (market_parser \<times> 'j pstate) option" where
  "parse_messages api fuel [] p s = Some (p, s)"
| "parse_messages api fuel (m # ms) p s =
     (if m = [] then parse_messages api fuel ms p s
      else case parse_tick api kTickQueueSize fuel m p s of
          Some (p', Done (_, s')) \<Rightarrow> parse_messages api fuel ms p' s'
        | _ \<Rightarrow> None)"

lemma parse_messages_append:
  "parse_messages api fuel (ms @ ms') p s =
     parse_messages api fuel ms p s \<bind> (\<lambda>(p', s'). parse_messages api fuel ms' p' s')"
  by (induction ms arbitrary: p s) (auto split: option.splits outcome.splits)

lemma parser_frame [simp]:
  "client_parser (start op c) = client_parser c" "client_parser (fail what e c) = client_parser c" "client_parser (finish op c) = client_parser c"
  by (simp_all add: start_def fail_def finish_def)

lemma handler_frame:
  "client_parser (on_resolve ec c) = client_parser c" "client_parser (on_connect ec sni c) = client_parser c"
  "client_parser (on_ssl_handshake ec c) = client_parser c" "client_parser (on_ws_handshake ec c) = client_parser c"
  "client_parser (on_written ec c) = client_parser c" "client_parser (ws_close c) = client_parser c" "client_parser (on_close ec c) = client_parser c"
  by (simp_all add: on_resolve_def on_connect_def on_ssl_handshake_def on_ws_handshake_def do_subscribe_def on_written_def do_read_def
      ws_close_def on_close_def Let_def split: option.split)

lemma ws_step_parses:
  assumes inv: "chain_inv host port target k c" and step: "ws_step api fuel (c, s) e (c', s')"
  shows "parse_messages api fuel (messages [e]) (client_parser c) s = Some (client_parser c', s') \<and>
    (\<forall>m \<in> set (messages [e]). length m \<le> kReadBufferBytes)"
  using step
proof (rule ws_stepE)
  fix msg ec
  assume 1: "e = Received ec msg" "Read \<in> set (pending c)" "length (read_buffer c) + length msg \<le> kReadBufferBytes"
    "on_read api fuel ec (length msg) ((finish Read c)\<lparr>read_buffer := read_buffer c @ msg\<rparr>, s) = Some (Done (c', s'))"
  note c = chain_current(4) [OF inv 1(2), simplified]
  from 1(4) show ?thesis by (cases rule: on_read_cases) (use c 1(1,3) in \<open>auto simp: do_read_def\<close>)
qed (auto simp: handler_frame)

lemma ws_trace_parses:
  assumes "chain_inv host port target 0 c0"
  shows "ws_trace api fuel (c0, s0) es st \<Longrightarrow>
    parse_messages api fuel (messages es) (client_parser c0) s0 = Some (client_parser (fst st), snd st) \<and>
    (\<forall>m \<in> set (messages es). length m \<le> kReadBufferBytes)"
proof (induction rule: ws_trace.induct)
  case (trace_snoc es st' e st'')
  have "parse_messages api fuel (messages [e]) (client_parser (fst st')) (snd st') = Some (client_parser (fst st''), snd st'') \<and>
      (\<forall>m \<in> set (messages [e]). length m \<le> kReadBufferBytes)"
    using ws_step_parses [OF ws_trace_chain [OF assms trace_snoc.hyps(1)]] trace_snoc.hyps(2) by (metis prod.collapse)
  then show ?case using trace_snoc.IH by (auto simp: messages_append parse_messages_append)
qed simp

lemma parse_messages_buffer:
  "parse_messages api fuel ms p s = Some (p', s') \<Longrightarrow> length (parser_buffer p) = kMaxPayloadBytes + padding api \<Longrightarrow>
   length (parser_buffer p') = kMaxPayloadBytes + padding api"
proof (induction ms arbitrary: p s)
  case (Cons m ms)
  obtain p1 r where p1: "parse_tick api kTickQueueSize fuel m p s = Some (p1, r)" "length (parser_buffer p1) = kMaxPayloadBytes + padding api"
    using parse_tick_buffer [OF Cons.prems(2)] by blast
  show ?case
  proof (cases "m = []")
    case True
    then show ?thesis using Cons by simp
  next
    case False
    then obtain b s1 where "r = Done (b, s1)" "parse_messages api fuel ms p1 s1 = Some (p', s')"
      using Cons.prems(1) by (auto simp: p1(1) split: outcome.splits)
    then show ?thesis using Cons.IH p1(2) by blast
  qed
qed simp

abbreviation started :: "market_parser \<Rightarrow> string \<Rightarrow> string \<Rightarrow> string \<Rightarrow> 'e ws_client" where
  "started p host port target \<equiv> ws_run host port target (ws_client_init p)"

lemma started_parser [simp]: "client_parser (started p host port target) = p"
  by (simp add: ws_run_def ws_client_init_def Let_def)

section \<open>Faults\<close>

text \<open>What can come out of the read handler, for a parser whose buffer is as it was made.\<close>

lemma on_read_result:
  assumes "length (parser_buffer (client_parser c)) = kMaxPayloadBytes + padding api"
  obtains c' s' where "on_read api fuel ec n (c, s) = Some (Done (c', s'))" "length (parser_buffer (client_parser c')) = kMaxPayloadBytes + padding api"
    "ec = None \<Longrightarrow> c' = do_read (c\<lparr>client_parser := client_parser c', read_buffer := []\<rparr>)"
  | "on_read api fuel ec n (c, s) = Some Terminated" "\<exists>it j. fst (arr_deref api it j) = None"
  | "on_read api fuel ec n (c, s) = Some No_fuel" "\<And>rank m. forward_only api rank m \<Longrightarrow> m < fuel \<Longrightarrow> False"
proof (cases ec)
  case (Some e)
  then show ?thesis using assms by (intro that(1) [of "fail ''read'' e c" s]) (simp_all add: on_read_def)
next
  case None
  show ?thesis
  proof (cases "n = 0")
    case True
    then show ?thesis using assms None by (intro that(1) [of "do_read (c\<lparr>read_buffer := []\<rparr>)" s]) (simp_all add: on_read_def do_read_def start_def)
  next
    case False
    obtain p' r where r: "parse_tick api kTickQueueSize fuel (take n (read_buffer c)) (client_parser c) s = Some (p', r)"
      "length (parser_buffer p') = kMaxPayloadBytes + padding api"
      using parse_tick_buffer [OF assms] by blast
    show ?thesis
    proof (cases r)
      case (Done bs)
      then show ?thesis using None False r
        by (intro that(1) [of "do_read (c\<lparr>client_parser := p', read_buffer := []\<rparr>)" "snd bs"])
          (simp_all add: on_read_def do_read_def start_def case_prod_beta)
    next
      case Terminated
      have "\<exists>it j. fst (arr_deref api it j) = None"
      proof (rule ccontr)
        assume "\<not> ?thesis"
        then have "fst (arr_deref api it j) \<noteq> None" for it j by simp
        from parse_tick_survives [of api, OF this] show False using r(1) Terminated by simp
      qed
      then show ?thesis using None False r Terminated by (intro that(2)) (simp_all add: on_read_def)
    next
      case No_fuel
      show ?thesis
      proof (rule that(3))
        show "on_read api fuel ec n (c, s) = Some No_fuel" using None False r No_fuel by (simp add: on_read_def)
        show False if "forward_only api rank m" "m < fuel" for rank m
          using parse_tick_fuel [OF that] r(1) No_fuel by blast
      qed
    qed
  qed
qed

lemma ws_fault_causes:
  assumes "ws_fault api fuel (c, s) e f" "length (parser_buffer (client_parser c)) = kMaxPayloadBytes + padding api"
  shows "f = Terminate \<and> (\<exists>it j. fst (arr_deref api it j) = None) \<or>
    f = Diverges \<and> (\<forall>rank m. forward_only api rank m \<longrightarrow> fuel \<le> m)"
  using assms(1)
proof (rule ws_faultE)
  fix msg ec
  let ?c = "(finish Read c)\<lparr>read_buffer := read_buffer c @ msg\<rparr>"
  have len: "length (parser_buffer (client_parser ?c)) = kMaxPayloadBytes + padding api" using assms(2) by simp
  note res = on_read_result [OF len, of fuel ec "length msg" s]
  show ?thesis if "f = Terminate" "on_read api fuel ec (length msg) (?c, s) = Some Terminated"
    using that by (cases rule: res) simp_all
  show ?thesis if "f = Buffer_overrun" "on_read api fuel ec (length msg) (?c, s) = None"
    using that by (cases rule: res) simp_all
  show ?thesis if "f = Diverges" "on_read api fuel ec (length msg) (?c, s) = Some No_fuel"
    using that by (cases rule: res) (simp_all, meson not_le)
qed

lemma ws_step_buffer:
  assumes "ws_step api fuel (c, s) e (c', s')" "length (parser_buffer (client_parser c)) = kMaxPayloadBytes + padding api"
  shows "length (parser_buffer (client_parser c')) = kMaxPayloadBytes + padding api"
  using assms(1)
proof (rule ws_stepE)
  fix msg ec
  let ?c = "(finish Read c)\<lparr>read_buffer := read_buffer c @ msg\<rparr>"
  assume 1: "on_read api fuel ec (length msg) (?c, s) = Some (Done (c', s'))"
  have "length (parser_buffer (client_parser ?c)) = kMaxPayloadBytes + padding api" using assms(2) by simp
  then show ?thesis by (rule on_read_result [of ?c api fuel ec "length msg" s]) (use 1 in auto)
qed (use assms(2) in \<open>auto simp: handler_frame\<close>)

section \<open>A session\<close>

text \<open>A session with one empty message, for a library over a JSON tree.\<close>

abbreviation session_start :: "nat ws_client \<times> unit pstate" where
  "session_start \<equiv> (started (parser_init sample_api True) ''h'' ''1'' ''/'', ((), spsc_init kTickQueueSize))"

abbreviation connect_events :: "nat event list" where
  "connect_events \<equiv> [Resolved None, Connected None None, Tls_done None, Ws_done None, Written None]"

lemma session_connects:
  "\<exists>c. ws_trace api fuel (started p ''h'' ''1'' ''/'', s) connect_events (c, s) \<and> pending c = [Read]"
proof -
  define c0 where "c0 = (started p ''h'' ''1'' ''/'' :: nat ws_client)"
  define c1 where "c1 = on_resolve None (finish (Resolve ''h'' ''1'') c0)"
  define c2 where "c2 = on_connect None None (finish Connect c1)"
  define c3 where "c3 = on_ssl_handshake None (finish Tls_handshake c2)"
  define c4 where "c4 = on_ws_handshake None (finish (Ws_handshake ''h:1'' ''/'') c3)"
  define c5 where "c5 = on_written None (finish (Write kSubscriptionPayload) c4)"
  have p0: "pending c0 = [Resolve ''h'' ''1'']" "host_header c0 = ''h:1''" "client_target c0 = ''/''"
    by (simp_all add: c0_def ws_run_def ws_client_init_def start_def Let_def)
  have p1: "pending c1 = [Connect]" "host_header c1 = ''h:1''" "client_target c1 = ''/''"
    using p0 by (simp_all add: c1_def on_resolve_def start_def finish_def)
  have p2: "pending c2 = [Tls_handshake]" "host_header c2 = ''h:1''" "client_target c2 = ''/''"
    using p1 by (simp_all add: c2_def on_connect_def start_def finish_def)
  have p3: "pending c3 = [Ws_handshake ''h:1'' ''/'']"
    using p2 by (simp add: c3_def on_ssl_handshake_def start_def finish_def Let_def)
  have p4: "pending c4 = [Write kSubscriptionPayload]"
    using p3 by (simp add: c4_def on_ws_handshake_def do_subscribe_def start_def finish_def)
  have p5: "pending c5 = [Read]" using p4 by (simp add: c5_def on_written_def do_read_def start_def finish_def)
  have "ws_step api fuel (c0, s) (Resolved None) (c1, s)" "ws_step api fuel (c1, s) (Connected None None) (c2, s)"
    "ws_step api fuel (c2, s) (Tls_done None) (c3, s)" "ws_step api fuel (c3, s) (Ws_done None) (c4, s)"
    "ws_step api fuel (c4, s) (Written None) (c5, s)"
    using p0 p1 p2 p3 p4 unfolding c1_def c2_def c3_def c4_def c5_def by (intro ws_step.intros; simp)+
  note st = this
  have "ws_trace api fuel (c0, s) connect_events (c5, s)"
    using ws_trace.intros(2) [OF ws_trace.intros(2) [OF ws_trace.intros(2) [OF ws_trace.intros(2) [OF ws_trace.intros(2)
            [OF ws_trace.intros(1) st(1)] st(2)] st(3)] st(4)] st(5)] by simp
  then show ?thesis using p5 unfolding c0_def by blast
qed

lemma session_receives:
  "\<exists>c s. ws_trace sample_api 9 session_start (connect_events @ [Received None ''{}'']) (c, s) \<and>
     spsc_contents kTickQueueSize (snd s) = [\<lparr>price = 50, tsize = 200, is_bid = True\<rparr>, \<lparr>price = 50, tsize = 1, is_bid = True\<rparr>]"
proof -
  let ?s = "((), spsc_init kTickQueueSize) :: unit pstate"
  obtain c where c: "ws_trace sample_api 9 session_start connect_events (c, ?s)" "pending c = [Read]"
    using session_connects by blast
  have empty: "read_buffer c = []"
    using chain_current(4) [OF ws_trace_chain [OF chain_run c(1), simplified], of Read] c(2) by simp
  have parser: "client_parser c = parser_init sample_api True"
    using ws_trace_parses [OF chain_run c(1)] by simp
  obtain p' q' where run: "parse_tick sample_api kTickQueueSize 9 ''{}'' (parser_init sample_api True) ?s = Some (p', Done (True, ((), q')))"
    "spsc_contents kTickQueueSize q' = take (unat kTickQueueSize) (message_ticks sample_message)"
    using parse_tick_reads [OF tree_reads sample_delivers sample_root sample_ok, of "parser_init sample_api True" "''{}''" kTickQueueSize
        "spsc_init kTickQueueSize" "()"] spsc_inv_init [OF valid_tick_queue]
    by (auto simp: kMaxPayloadBytes_def spsc_contents_init)
  have ticks: "spsc_contents kTickQueueSize q' = [\<lparr>price = 50, tsize = 200, is_bid = True\<rparr>, \<lparr>price = 50, tsize = 1, is_bid = True\<rparr>]"
    unfolding run(2) by (simp add: unat_kTickQueueSize sample_message_def change_ticks_def hint_ticks_def tick_of_def)
  have "\<exists>c'. on_read sample_api 9 None (length ''{}'') ((finish Read c)\<lparr>read_buffer := read_buffer c @ ''{}''\<rparr>, ?s) = Some (Done (c', ((), q')))"
    using run(1) by (simp add: on_read_def empty parser)
  then obtain c' where "on_read sample_api 9 None (length ''{}'') ((finish Read c)\<lparr>read_buffer := read_buffer c @ ''{}''\<rparr>, ?s) =
      Some (Done (c', ((), q')))" by blast
  then have "ws_step sample_api 9 (c, ?s) (Received None ''{}'') (c', ((), q'))"
    by (rule ws_step.received [rotated 2]) (simp_all add: c(2) empty kReadBufferBytes_def)
  from trace_snoc [OF c(1) this] ticks show ?thesis by fastforce
qed

section \<open>Properties\<close>

text \<open>
  C9: after any sequence of completions, with closes at any point, either exactly one operation of the chain is pending, the one that
  follows the completions so far, with the values given to \<open>run\<close>, and nothing has failed; or none is pending and exactly one failure of the current stage has
  been printed. There is no retry: after a failure the chain is over.
\<close>
theorem client_never_stalls_silently:
  assumes "ws_trace api fuel (started p host port target, s0) es (c, s)"
  shows "filter (\<lambda>op. op \<noteq> Close_frame) (pending c) = [stage_op host port target (progress es)] \<and> chain_failures c = [] \<or>
    filter (\<lambda>op. op \<noteq> Close_frame) (pending c) = [] \<and>
      (\<exists>what e. filter (\<lambda>f. fst f \<noteq> ''close'') (failures c) = [(what, e)] \<and> what \<in> stage_names (progress es))"
  using ws_trace_chain [OF chain_run assms] unfolding chain_inv_def chain_ops_def chain_failures_def by simp blast

theorem client_never_stalls_silently_witness:
  "\<exists>c. pending c = [Read] \<and> chain_failures (c :: nat ws_client) = []"
proof -
  obtain c where c: "ws_trace sample_api 9 session_start connect_events
      (c, ((), spsc_init kTickQueueSize))" "pending c = [Read]" using session_connects by blast
  show ?thesis using client_never_stalls_silently [OF c(1)] c(2) by auto
qed

text \<open>
  C8: the parser and the tick ring are at every point what one call of \<open>parse_tick\<close> per received message, in order, makes of them: no
  message is parsed twice, mixed with the rest of another or lost between two reads, and none is longer than the read buffer, hence than the parser's limit.
\<close>
theorem client_parses_every_message:
  assumes "ws_trace api fuel (started p host port target, s0) es (c, s)"
  shows "parse_messages api fuel (messages es) p s0 = Some (client_parser c, s) \<and>
    (\<forall>m \<in> set (messages es). length m \<le> kReadBufferBytes \<and> length m \<le> kMaxPayloadBytes)"
  using ws_trace_parses [OF chain_run assms] by (auto simp: kReadBufferBytes_def kMaxPayloadBytes_def)

theorem client_parses_every_message_witness:
  "\<exists>p s. parse_messages sample_api 9 [''{}''] (parser_init sample_api True) ((), spsc_init kTickQueueSize) = Some (p, s) \<and>
     spsc_contents kTickQueueSize (snd s) = [\<lparr>price = 50, tsize = 200, is_bid = True\<rparr>, \<lparr>price = 50, tsize = 1, is_bid = True\<rparr>]"
proof -
  obtain c s where c: "ws_trace sample_api 9 session_start (connect_events @ [Received None ''{}'']) (c, s)"
    "spsc_contents kTickQueueSize (snd s) = [\<lparr>price = 50, tsize = 200, is_bid = True\<rparr>, \<lparr>price = 50, tsize = 1, is_bid = True\<rparr>]"
    using session_receives by blast
  show ?thesis using client_parses_every_message [OF c(1)] c(2) by auto
qed

text \<open>
  C26: over a library whose iterators move forward, a client that waits for a message deals with every message that fits its
  buffer, and there are two ways. Either the handler returns, nothing goes wrong, and the next read is pending; or the process is
  terminated, which takes a library that reports an array element as an error to a range-\<open>for\<close> loop. Exactly one of them
  happens, and in neither is the parser's buffer overrun or a loop left running.
\<close>
theorem pending_read_is_served:
  assumes "ws_trace api fuel (started (parser_init api ok) host port target, s0) es (c, s)" "Read \<in> set (pending c)"
    and "length msg \<le> kReadBufferBytes" "forward_only api rank n" "n < fuel"
  shows "(\<exists>c' s'. ws_step api fuel (c, s) (Received None msg) (c', s') \<and> Read \<in> set (pending c')) \<and>
      (\<forall>f. \<not> ws_fault api fuel (c, s) (Received None msg) f) \<or>
    (\<forall>t. \<not> ws_step api fuel (c, s) (Received None msg) t) \<and>
      (\<forall>f. ws_fault api fuel (c, s) (Received None msg) f \<longleftrightarrow> f = Terminate) \<and>
      (\<exists>it j. fst (arr_deref api it j) = None)"
proof -
  have empty: "read_buffer c = []" using chain_current(4) [OF ws_trace_chain [OF chain_run assms(1), simplified] assms(2)] by simp
  let ?c = "(finish Read c)\<lparr>read_buffer := read_buffer c @ msg\<rparr>"
  have "length (parser_buffer (client_parser c)) = kMaxPayloadBytes + padding api"
  proof (rule parse_messages_buffer)
    show "parse_messages api fuel (messages es) (parser_init api ok) s0 = Some (client_parser c, s)"
      using ws_trace_parses [OF chain_run assms(1)] by simp
  qed simp
  then have len: "length (parser_buffer (client_parser ?c)) = kMaxPayloadBytes + padding api" by simp
  from len show ?thesis
  proof (rule on_read_result [where fuel = fuel and ec = None and n = "length msg" and s = s])
    fix c' s' assume r: "on_read api fuel None (length msg) (?c, s) = Some (Done (c', s'))"
      "(None :: 'e option) = None \<Longrightarrow> c' = do_read (?c\<lparr>client_parser := client_parser c', read_buffer := []\<rparr>)"
    have "Read \<in> set (pending c')" by (subst r(2) [OF refl]) (simp add: do_read_def start_def)
    then show ?thesis using assms(2,3) empty r(1) by (auto simp: received_step_iff received_fault_iff)
  next
    assume "on_read api fuel None (length msg) (?c, s) = Some Terminated" "\<exists>it j. fst (arr_deref api it j) = None"
    then show ?thesis using assms(2,3) empty by (auto simp: received_step_iff received_fault_iff)
  next
    assume "\<And>rank m. forward_only api rank m \<Longrightarrow> m < fuel \<Longrightarrow> False"
    then show ?thesis using assms(4,5) by blast
  qed
qed

definition total_api :: "(unit, handle) simdjson" where
  "total_api = (limited 8 sample_api)\<lparr>arr_deref := (\<lambda>_ j. (Some (HVal 1 JOther), j))\<rparr>"

lemma total_api: "forward_only total_api (\<lambda>h _. length (tree_items h)) 8" "fst (arr_deref total_api it j) \<noteq> None" "padding total_api = 64"
  using limited_forward [of 8 "JObj sample_fields"]
  by (simp_all add: total_api_def forward_only_def keeps_rank_def limited_def tree_api_def tree_items_def)

theorem pending_read_is_served_witness:
  "\<exists>c s c' s'. ws_trace total_api 9 (started (parser_init total_api True) ''h'' ''1'' ''/'', ((), spsc_init kTickQueueSize)) connect_events (c, s) \<and>
     ws_step total_api 9 (c, s) (Received None ''{}'') (c', s') \<and> Read \<in> set (pending c')"
proof -
  obtain c where c: "ws_trace total_api 9 (started (parser_init total_api True) ''h'' ''1'' ''/'', ((), spsc_init kTickQueueSize)) connect_events
      (c, ((), spsc_init kTickQueueSize))" "pending c = [Read]"
    using session_connects by blast
  have "Read \<in> set (pending c)" "length ''{}'' \<le> kReadBufferBytes" "8 < (9 :: nat)" by (simp_all add: c(2) kReadBufferBytes_def)
  from pending_read_is_served [OF c(1) this(1,2) total_api(1) this(3)] total_api(2) c(1) show ?thesis by blast
qed

end
