(* ===== verification/MainProgram.thy ===== *)
theory MainProgram
  imports StrategyEngine WebSocketClient "HOL-Library.Sublist"
begin

text \<open>
  The program of \<open>src/main.cpp\<close>: the command line, the objects it creates, and its four threads (main, network, strategy, the logger's worker) as steps on one
  state, up to the joins of the shutdown and the destructor of the logger. The stop flag is set by the signal handler. A completion handler of the network thread, with the
  pushes of its message, is one step; so is an iteration of the strategy loop, with its pop and its calls of the logger, and a program point of the worker, with at most one pop.
  What the two threads of a ring do to each other inside a call is the subject of SpscConcurrent. Streams, signal registration and thread pinning have no part in the state.
\<close>

section \<open>The command line\<close>

definition starts_with :: "string \<Rightarrow> string \<Rightarrow> bool" where
  "starts_with pre arg \<longleftrightarrow> take (length pre) arg = pre"

definition select_strategy :: "string \<Rightarrow> strategy_selection \<times> bool" where
  "select_strategy value =
     (if value = ''momentum'' then (Momentum, True)
      else if value = ''ofi'' then (Ofi, True)
      else if value = ''both'' then (Both, True)
      else (Both, False))"

fun scan_strategy :: "string list \<Rightarrow> strategy_selection \<times> bool" where
  "scan_strategy [] = (Both, True)"
| "scan_strategy (arg # rest) =
     (if starts_with ''--strategy='' arg then select_strategy (drop (length ''--strategy='') arg)
      else if arg = ''--strategy'' then
        (case rest of [] \<Rightarrow> (Both, False) | value # _ \<Rightarrow> select_strategy value)
      else scan_strategy rest)"

definition parse_strategy_selection :: "string list \<Rightarrow> strategy_selection \<times> bool" where
  "parse_strategy_selection argv = scan_strategy (drop 1 argv)"

fun strategy_name :: "strategy_selection \<Rightarrow> string" where
  "strategy_name Momentum = ''momentum''"
| "strategy_name Ofi = ''ofi''"
| "strategy_name Both = ''both''"

fun collect_positional :: "string list \<Rightarrow> string list \<Rightarrow> string list" where
  "collect_positional [] positional = positional"
| "collect_positional (arg # rest) positional =
     (if arg = ''--strategy'' then (case rest of [] \<Rightarrow> positional | _ # rest \<Rightarrow> collect_positional rest positional)
      else if starts_with ''--strategy='' arg then collect_positional rest positional
      else let positional = positional @ [arg]
           in if 3 \<le> length positional then positional else collect_positional rest positional)"

record config =
  cfg_strategy :: strategy_selection
  cfg_host :: string
  cfg_port :: string
  cfg_target :: string

text \<open>\<open>Inl\<close> is the exit status of a start that was refused.\<close>

definition EXIT_FAILURE :: int where
  "EXIT_FAILURE = 1"

definition read_config :: "string list \<Rightarrow> int + config" where
  "read_config argv =
     (let (selection, strategy_ok) = parse_strategy_selection argv;
          positional = collect_positional (drop 1 argv) [];
          host = (if 0 < length positional then positional ! 0 else ''example.com'');
          port = (if 1 < length positional then positional ! 1 else ''443'');
          target = (if 2 < length positional then positional ! 2 else ''/'')
      in if \<not> strategy_ok then Inl EXIT_FAILURE
         else Inr \<lparr>cfg_strategy = selection, cfg_host = host, cfg_port = port, cfg_target = target\<rparr>)"

section \<open>The threads\<close>

datatype main_pc =
    M_wait
  | M_stop
  | M_post_close
  | M_ioc_stop
  | M_join_strategy
  | M_join_network
  | M_destroy_logger
  | M_join_worker
  | M_exit

record ('e, 'j) engine_sys =
  g_stop :: bool
  main_at :: main_pc
  strat :: strategy_sys
  ws :: "'e ws_client"
  json_state :: 'j
  logger :: logger_sys
  close_posted :: bool
  ioc_stopped :: bool
  strategy_done :: bool
  network_done :: bool
  log_calls :: "(LogEvent \<times> nat \<times> bool) list"

text \<open>The log ring belongs to the logger and is shared with the strategy, whose component holds it here.\<close>

definition logger_of :: "('e, 'j) engine_sys \<Rightarrow> logger_sys" where
  "logger_of s = (logger s)\<lparr>lqueue := log_queue (strat s)\<rparr>"

definition startup :: "('j, 'h) simdjson \<Rightarrow> bool \<Rightarrow> 'j \<Rightarrow> config \<Rightarrow> ('e, 'j) engine_sys" where
  "startup api allocated j cfg =
     (let l = push_event (strategy_event (strategy_name (cfg_strategy cfg))) logger_init;
          s = strategy_init (cfg_strategy cfg)
      in \<lparr>g_stop = False, main_at = M_wait, strat = s\<lparr>log_queue := lqueue l\<rparr>,
          ws = ws_run (cfg_host cfg) (cfg_port cfg) (cfg_target cfg) (ws_client_init (parser_init api allocated)),
          json_state = j, logger = l, close_posted = False, ioc_stopped = False, strategy_done = False, network_done = False, log_calls = []\<rparr>)"

definition on_signal :: "('e, 'j) engine_sys \<Rightarrow> ('e, 'j) engine_sys" where
  "on_signal s = s\<lparr>g_stop := True\<rparr>"

text \<open>
  One statement of the main thread after the threads have been started; \<open>None\<close> while it sleeps or waits in a join. The last two
  are the destructor of the logger, which runs when \<open>main\<close> returns.
\<close>

definition main_step :: "(nat \<Rightarrow> u64) \<Rightarrow> ('e, 'j) engine_sys \<Rightarrow> ('e, 'j) engine_sys option" where
  "main_step clk s =
     (case main_at s of
        M_wait \<Rightarrow> if g_stop s then Some (s\<lparr>main_at := M_stop\<rparr>) else None
      | M_stop \<Rightarrow> map_option (\<lambda>t. s\<lparr>strat := t, main_at := M_post_close\<rparr>) (perform clk Stop (strat s))
      | M_post_close \<Rightarrow> Some (s\<lparr>close_posted := True, main_at := M_ioc_stop\<rparr>)
      | M_ioc_stop \<Rightarrow> Some (s\<lparr>ioc_stopped := True, main_at := M_join_strategy\<rparr>)
      | M_join_strategy \<Rightarrow> if strategy_done s then Some (s\<lparr>main_at := M_join_network\<rparr>) else None
      | M_join_network \<Rightarrow> if network_done s then Some (s\<lparr>main_at := M_destroy_logger\<rparr>) else None
      | M_destroy_logger \<Rightarrow> Some (s\<lparr>logger := request_shutdown (logger s), main_at := M_join_worker\<rparr>)
      | M_join_worker \<Rightarrow> if wpc (logger s) = W_done then Some (s\<lparr>main_at := M_exit\<rparr>) else None
      | M_exit \<Rightarrow> None)"

text \<open>
  The strategy thread: its function returns when \<open>running_\<close> is false. The history \<open>log_calls\<close> has every event that an iteration hands to the logger, with
  the number of events in the ring at the call and the answer of \<open>push\<close>, which the engine ignores; those answered true extend the logger's history of accepted events.
\<close>

fun call_results :: "LogEvent list \<Rightarrow> LogEvent spsc \<Rightarrow> (LogEvent \<times> nat \<times> bool) list" where
  "call_results [] q = []"
| "call_results (ev # evs) q =
     (let (ok, q') = spsc_push kQueueSize ev q
      in (ev, length (spsc_contents kQueueSize q), ok) # call_results evs q')"

definition taken_calls :: "(LogEvent \<times> nat \<times> bool) list \<Rightarrow> LogEvent list" where
  "taken_calls calls = map fst (filter (\<lambda>(ev, n, ok). ok) calls)"

definition put_log :: "strategy_sys \<Rightarrow> ('e, 'j) engine_sys \<Rightarrow> ('e, 'j) engine_sys" where
  "put_log t s =
     (let calls = call_results (drop (length (emitted_events (strat s))) (emitted_events t)) (log_queue (strat s))
      in s\<lparr>strat := t, logger := (logger s)\<lparr>accepted := accepted (logger s) @ taken_calls calls\<rparr>,
           log_calls := log_calls s @ calls\<rparr>)"

definition strategy_step :: "(nat \<Rightarrow> u64) \<Rightarrow> ('e, 'j) engine_sys \<Rightarrow> ('e, 'j) engine_sys option" where
  "strategy_step clk s =
     (if strategy_done s then None
      else if \<not> erunning (strat s) then Some (s\<lparr>strategy_done := True\<rparr>)
      else map_option (\<lambda>t. put_log t s) (perform clk Iterate (strat s)))"

text \<open>
  The tick ring is shared: a handler pushes into the ring of the strategy. The ticks it adds also extend the history
  of offered ticks.
\<close>

definition put_ring :: "market_tick spsc \<Rightarrow> strategy_sys \<Rightarrow> strategy_sys" where
  "put_ring q s = s\<lparr>tick_queue := q, offered_ticks := offered_ticks s @
     drop (length (spsc_contents kTickQueueSize (tick_queue s))) (spsc_contents kTickQueueSize q)\<rparr>"

inductive network_step :: "('j, 'h) simdjson \<Rightarrow> nat \<Rightarrow> ('e, 'j) engine_sys \<Rightarrow> ('e, 'j) engine_sys \<Rightarrow> bool" for api fuel where
  handler: "\<not> network_done s \<Longrightarrow> \<not> ioc_stopped s \<Longrightarrow> e \<noteq> Close_called \<Longrightarrow>
    ws_step api fuel (ws s, (json_state s, tick_queue (strat s))) e (c, (j, q)) \<Longrightarrow>
    network_step api fuel s (s\<lparr>ws := c, json_state := j, strat := put_ring q (strat s)\<rparr>)"
| posted: "\<not> network_done s \<Longrightarrow> \<not> ioc_stopped s \<Longrightarrow> close_posted s \<Longrightarrow>
    network_step api fuel s (s\<lparr>ws := ws_close (ws s), close_posted := False\<rparr>)"
| returns: "\<not> network_done s \<Longrightarrow> ioc_stopped s \<or> pending (ws s) = [] \<and> \<not> close_posted s \<Longrightarrow>
    network_step api fuel s (s\<lparr>network_done := True\<rparr>)"

definition put_logger :: "logger_sys \<Rightarrow> ('e, 'j) engine_sys \<Rightarrow> ('e, 'j) engine_sys" where
  "put_logger l s = s\<lparr>logger := l, strat := (strat s)\<lparr>log_queue := lqueue l\<rparr>\<rparr>"

inductive program_step :: "('j, 'h) simdjson \<Rightarrow> nat \<Rightarrow> (nat \<Rightarrow> u64) \<Rightarrow> ('e, 'j) engine_sys \<Rightarrow> ('e, 'j) engine_sys \<Rightarrow> bool" for api fuel clk where
  signal: "program_step api fuel clk s (on_signal s)"
| main: "main_step clk s = Some t \<Longrightarrow> program_step api fuel clk s t"
| strategy: "strategy_step clk s = Some t \<Longrightarrow> program_step api fuel clk s t"
| network: "network_step api fuel s t \<Longrightarrow> program_step api fuel clk s t"
| worker: "worker_step opens now (logger_of s) = Some l \<Longrightarrow> program_step api fuel clk s (put_logger l s)"

inductive program_reachable :: "('j, 'h) simdjson \<Rightarrow> nat \<Rightarrow> (nat \<Rightarrow> u64) \<Rightarrow> ('e, 'j) engine_sys \<Rightarrow> ('e, 'j) engine_sys \<Rightarrow> bool"
  for api fuel clk s0 where
  program_start: "program_reachable api fuel clk s0 s0"
| program_next: "program_reachable api fuel clk s0 s \<Longrightarrow> program_step api fuel clk s t \<Longrightarrow> program_reachable api fuel clk s0 t"

text \<open>
  Where a step would be undefined, or ends the process, there is no \<open>program_step\<close> but a fault: a read handler that does not return, a position that
  overflows, a dead cell of the tick ring, a worker that reads a dead cell or past a label. A process runs until it has a fault.
\<close>

inductive program_fault :: "('j, 'h) simdjson \<Rightarrow> nat \<Rightarrow> (nat \<Rightarrow> u64) \<Rightarrow> ('e, 'j) engine_sys \<Rightarrow> fault \<Rightarrow> bool" for api fuel clk where
  handler_faults: "\<not> network_done s \<Longrightarrow> \<not> ioc_stopped s \<Longrightarrow>
    ws_fault api fuel (ws s, (json_state s, tick_queue (strat s))) e f \<Longrightarrow> program_fault api fuel clk s f"
| position_overflows: "\<not> strategy_done s \<Longrightarrow> erunning (strat s) \<Longrightarrow>
    spsc_pop kTickQueueSize (tick_queue (strat s)) = (Pop_item tick, q) \<Longrightarrow> process_tick clk tick (eng (strat s)) = None \<Longrightarrow>
    program_fault api fuel clk s Signed_overflow"
| tick_is_dead: "\<not> strategy_done s \<Longrightarrow> erunning (strat s) \<Longrightarrow>
    spsc_pop kTickQueueSize (tick_queue (strat s)) = (Pop_undefined, q) \<Longrightarrow> program_fault api fuel clk s Dead_cell"
| worker_faults: "worker_step opens now (logger_of s) = None \<Longrightarrow> program_fault api fuel clk s Bad_read"

datatype ('e, 'j) process =
    Running "('e, 'j) engine_sys"
  | Faulted fault

inductive process_step :: "('j, 'h) simdjson \<Rightarrow> nat \<Rightarrow> (nat \<Rightarrow> u64) \<Rightarrow> ('e, 'j) process \<Rightarrow> ('e, 'j) process \<Rightarrow> bool" for api fuel clk where
  runs: "program_step api fuel clk s t \<Longrightarrow> process_step api fuel clk (Running s) (Running t)"
| faults: "program_fault api fuel clk s f \<Longrightarrow> process_step api fuel clk (Running s) (Faulted f)"

inductive_cases program_faultE: "program_fault api fuel clk s f"
inductive_cases process_stepE: "process_step api fuel clk p p'"
inductive_cases network_stepE: "network_step api fuel s t"
inductive_cases program_stepE: "program_step api fuel clk s t"

section \<open>What a command line means\<close>

datatype cli_item =
    Positional string
  | Flag_equals string
  | Flag_value string

fun render :: "cli_item \<Rightarrow> string list" where
  "render (Positional s) = [s]"
| "render (Flag_equals v) = [''--strategy='' @ v]"
| "render (Flag_value v) = [''--strategy'', v]"

fun valid_item :: "cli_item \<Rightarrow> bool" where
  "valid_item (Positional s) \<longleftrightarrow> s \<noteq> ''--strategy'' \<and> \<not> starts_with ''--strategy='' s"
| "valid_item _ \<longleftrightarrow> True"

fun flags :: "cli_item list \<Rightarrow> string list" where
  "flags [] = []"
| "flags (Positional s # items) = flags items"
| "flags (Flag_equals v # items) = v # flags items"
| "flags (Flag_value v # items) = v # flags items"

fun positionals :: "cli_item list \<Rightarrow> string list" where
  "positionals [] = []"
| "positionals (Positional s # items) = s # positionals items"
| "positionals (_ # items) = positionals items"

definition command_line :: "cli_item list \<Rightarrow> bool \<Rightarrow> string list" where
  "command_line items dangling = concat (map render items) @ (if dangling then [''--strategy''] else [])"

lemma starts_with_append [simp]: "starts_with pre (pre @ v)"
  by (simp add: starts_with_def)

lemma flag_is_no_prefix [simp]: "\<not> starts_with ''--strategy='' ''--strategy''" "''--strategy='' @ v \<noteq> ''--strategy''"
  by (simp_all add: starts_with_def)

lemma command_line_simps [simp]:
  "command_line [] dangling = (if dangling then [''--strategy''] else [])"
  "command_line (item # items) dangling = render item @ command_line items dangling"
  by (simp_all add: command_line_def)

lemma scan_command_line:
  "list_all valid_item items \<Longrightarrow> scan_strategy (command_line items dangling) =
     (case flags items of [] \<Rightarrow> (Both, \<not> dangling) | v # _ \<Rightarrow> select_strategy v)"
proof (induction items rule: flags.induct)
  case (3 v items)
  have "starts_with ''--strategy='' (''--strategy='' @ v)" by (rule starts_with_append)
  then show ?case by simp
qed simp_all

lemma collect_command_line:
  "list_all valid_item items \<Longrightarrow> length acc < 3 \<Longrightarrow>
   collect_positional (command_line items dangling) acc = take 3 (acc @ positionals items)"
proof (induction items arbitrary: acc rule: flags.induct)
  case (2 s items)
  show ?case
  proof (cases "3 \<le> length (acc @ [s])")
    case True
    then have "length acc = 2" using "2.prems"(2) by simp
    then show ?thesis using "2.prems" by (simp add: Let_def)
  next
    case False
    then have "3 - length acc = Suc (2 - length acc)" by simp
    then show ?thesis using 2 False by (simp add: Let_def)
  qed
next
  case (3 v items)
  have "starts_with ''--strategy='' (''--strategy='' @ v)" by (rule starts_with_append)
  then show ?case using 3 flag_is_no_prefix(2) [of v] by simp
qed simp_all

text \<open>Every list of arguments is a command line of this form.\<close>

lemma command_line_complete:
  "\<exists>items dangling. list_all valid_item items \<and> command_line items dangling = args"
proof (induction "length args" arbitrary: args rule: less_induct)
  case less
  show ?case
  proof (cases args)
    case Nil
    then show ?thesis by (intro exI [of _ "[]"] exI [of _ False]) simp
  next
    case (Cons a rest)
    obtain items dangling where r: "list_all valid_item items" "command_line items dangling = rest"
      using less [of rest] Cons by auto
    consider "a = ''--strategy''" "rest = []" | v rest' where "a = ''--strategy''" "rest = v # rest'"
      | "a \<noteq> ''--strategy''" "starts_with ''--strategy='' a" | "valid_item (Positional a)"
      by (cases rest) auto
    then show ?thesis
    proof cases
      case 1
      then show ?thesis using Cons by (intro exI [of _ "[]"] exI [of _ True]) simp
    next
      case (2 v rest')
      obtain items' d' where "list_all valid_item items'" "command_line items' d' = rest'"
        using less [of rest'] Cons 2 by auto
      then show ?thesis using Cons 2 by (intro exI [of _ "Flag_value v # items'"] exI [of _ d']) simp
    next
      case 3
      have "a = take (length ''--strategy='') a @ drop (length ''--strategy='') a" by (rule append_take_drop_id [symmetric])
      then have "a = ''--strategy='' @ drop (length ''--strategy='') a" using 3(2) unfolding starts_with_def by argo
      then have "render (Flag_equals (drop (length ''--strategy='') a)) = [a]" by simp
      then show ?thesis using Cons r
        by (intro exI [of _ "Flag_equals (drop (length ''--strategy='') a) # items"] exI [of _ dangling]) simp
    next
      case 4
      then show ?thesis using Cons r by (intro exI [of _ "Positional a # items"] exI [of _ dangling]) simp
    qed
  qed
qed

lemma select_strategy_name: "select_strategy (strategy_name sel) = (sel, True)"
  by (cases sel) (simp_all add: select_strategy_def)

lemma select_strategy_Some: "snd (select_strategy v) \<longleftrightarrow> (\<exists>sel. v = strategy_name sel)"
proof
  assume "snd (select_strategy v)"
  then have "v = strategy_name Momentum \<or> v = strategy_name Ofi \<or> v = strategy_name Both"
    by (auto simp: select_strategy_def split: if_splits)
  then show "\<exists>sel. v = strategy_name sel" by blast
qed (auto simp: select_strategy_name)

definition nth_or :: "'a \<Rightarrow> nat \<Rightarrow> 'a list \<Rightarrow> 'a" where
  "nth_or d i xs = (if i < length xs then xs ! i else d)"

lemma nth_or_take: "i < n \<Longrightarrow> nth_or d i (take n xs) = nth_or d i xs"
  by (simp add: nth_or_def)

lemma read_config_command_line:
  assumes "list_all valid_item items"
  shows "read_config (prog # command_line items dangling) =
    (let (sel, ok) = (case flags items of [] \<Rightarrow> (Both, \<not> dangling) | v # _ \<Rightarrow> select_strategy v)
     in if ok then Inr \<lparr>cfg_strategy = sel, cfg_host = nth_or ''example.com'' 0 (positionals items),
            cfg_port = nth_or ''443'' 1 (positionals items), cfg_target = nth_or ''/'' 2 (positionals items)\<rparr>
        else Inl EXIT_FAILURE)"
proof -
  have p: "collect_positional (command_line items dangling) [] = take 3 (positionals items)"
    using collect_command_line [OF assms, of "[]" dangling] by simp
  have s: "parse_strategy_selection (prog # command_line items dangling) =
      (case flags items of [] \<Rightarrow> (Both, \<not> dangling) | v # _ \<Rightarrow> select_strategy v)"
    using scan_command_line [OF assms] by (simp add: parse_strategy_selection_def)
  show ?thesis
    using nth_or_take [of 0 3 "''example.com''" "positionals items"] nth_or_take [of 1 3 "''443''" "positionals items"]
      nth_or_take [of 2 3 "''/''" "positionals items"]
    unfolding read_config_def s drop_Suc_Cons p One_nat_def drop_0 Let_def nth_or_def [symmetric]
    by (simp split: prod.split)
qed

section \<open>Shutdown\<close>

definition main_inv :: "('e, 'j) engine_sys \<Rightarrow> bool" where
  "main_inv s \<longleftrightarrow>
     (main_at s \<noteq> M_wait \<longrightarrow> g_stop s) \<and>
     (erunning (strat s) \<longleftrightarrow> main_at s \<in> {M_wait, M_stop}) \<and>
     (ioc_stopped s \<longleftrightarrow> main_at s \<notin> {M_wait, M_stop, M_post_close, M_ioc_stop}) \<and>
     (strategy_done s \<longrightarrow> \<not> erunning (strat s)) \<and>
     (main_at s \<in> {M_join_network, M_destroy_logger, M_join_worker, M_exit} \<longrightarrow> strategy_done s) \<and>
     (main_at s \<in> {M_destroy_logger, M_join_worker, M_exit} \<longrightarrow> network_done s) \<and>
     (lrunning (logger s) \<longleftrightarrow> main_at s \<notin> {M_join_worker, M_exit}) \<and>
     (main_at s = M_exit \<longrightarrow> wpc (logger s) = W_done)"

lemma perform_running:
  "perform clk a s = Some t \<Longrightarrow> erunning t = (erunning s \<and> a \<noteq> Stop)"
  by (cases a) (auto simp: perform_def split: prod.splits pop_result.splits if_splits bind_splits)

lemma put_simps [simp]:
  "erunning (put_ring q u) = erunning u"
  "main_at (put_log t s) = main_at s" "g_stop (put_log t s) = g_stop s" "strat (put_log t s) = t" "ioc_stopped (put_log t s) = ioc_stopped s"
  "strategy_done (put_log t s) = strategy_done s" "network_done (put_log t s) = network_done s"
  "lrunning (logger (put_log t s)) = lrunning (logger s)" "wpc (logger (put_log t s)) = wpc (logger s)"
  "main_at (put_logger l s) = main_at s" "g_stop (put_logger l s) = g_stop s" "logger (put_logger l s) = l" "ioc_stopped (put_logger l s) = ioc_stopped s"
  "strategy_done (put_logger l s) = strategy_done s" "network_done (put_logger l s) = network_done s"
  "erunning (strat (put_logger l s)) = erunning (strat s)"
  "ws (put_log t s) = ws s" "close_posted (put_log t s) = close_posted s" "ws (put_logger l s) = ws s" "close_posted (put_logger l s) = close_posted s"
  by (simp_all add: put_ring_def put_log_def put_logger_def Let_def)

lemma logger_of_simps [simp]:
  "lrunning (logger_of s) = lrunning (logger s)" "wpc (logger_of s) = wpc (logger s)" "lqueue (logger_of s) = log_queue (strat s)"
  "accepted (logger_of s) = accepted (logger s)" "rows (logger_of s) = rows (logger s)" "file_open (logger_of s) = file_open (logger s)"
  "flushed_rows (logger_of s) = flushed_rows (logger s)"
  by (simp_all add: logger_of_def)

lemma logger_commute:
  "l\<lparr>accepted := a, lqueue := q\<rparr> = l\<lparr>lqueue := q, accepted := a\<rparr>" "l\<lparr>lrunning := b, lqueue := q\<rparr> = l\<lparr>lqueue := q, lrunning := b\<rparr>"
  by (cases l; simp)+

lemma worker_frame:
  "worker_step opens now l = Some l' \<Longrightarrow> lrunning l' = lrunning l \<and> accepted l' = accepted l \<and> (wpc l = W_done \<longrightarrow> l' = l)"
  by (auto simp: worker_step_def write_row_def maybe_flush_frame split: worker_pc.splits prod.splits pop_result.splits if_splits)

lemma main_inv_startup: "main_inv (startup api ok j cfg)"
  by (simp add: main_inv_def startup_def Let_def strategy_init_def push_event_def logger_init_def split: prod.split)

lemma main_step_inv:
  assumes "main_inv s" "main_step clk s = Some t"
  shows "main_inv t"
proof (cases "main_at s")
  case M_stop
  then obtain u where "perform clk Stop (strat s) = Some u" "t = s\<lparr>strat := u, main_at := M_post_close\<rparr>"
    using assms(2) by (auto simp: main_step_def)
  then show ?thesis using assms(1) M_stop perform_running [of clk Stop "strat s" u] by (simp add: main_inv_def)
qed (use assms in \<open>auto simp: main_inv_def main_step_def request_shutdown_def split: if_splits\<close>)

lemma strategy_step_cases:
  assumes "strategy_step clk s = Some t"
  obtains "\<not> strategy_done s" "\<not> erunning (strat s)" "t = s\<lparr>strategy_done := True\<rparr>"
  | u where "\<not> strategy_done s" "erunning (strat s)" "perform clk Iterate (strat s) = Some u" "t = put_log u s"
  using assms by (auto simp: strategy_step_def split: if_splits)

lemma strategy_step_inv:
  assumes "main_inv s" "strategy_step clk s = Some t"
  shows "main_inv t"
  using assms(2)
proof (cases rule: strategy_step_cases)
  case 1
  then show ?thesis using assms(1) by (auto simp: main_inv_def)
next
  case (2 u)
  then show ?thesis using assms(1) perform_running [of clk Iterate "strat s" u] by (auto simp: main_inv_def)
qed

lemma network_step_inv: "network_step api fuel s t \<Longrightarrow> main_inv s \<Longrightarrow> main_inv t"
  by (induction rule: network_step.induct) (auto simp: main_inv_def)

lemma program_step_inv:
  assumes "program_step api fuel clk s t" "main_inv s"
  shows "main_inv t"
  using assms(1)
proof cases
  case signal
  then show ?thesis using assms(2) by (auto simp: on_signal_def main_inv_def)
next
  case main
  then show ?thesis using main_step_inv [OF assms(2)] by blast
next
  case strategy
  then show ?thesis using strategy_step_inv [OF assms(2)] by blast
next
  case network
  then show ?thesis using network_step_inv assms(2) by blast
next
  case (worker opens now l)
  have "lrunning l = lrunning (logger s)" "wpc (logger s) = W_done \<longrightarrow> wpc l = W_done"
    using worker_frame [OF worker(2)] by auto
  then show ?thesis using assms(2) worker(1) by (auto simp: main_inv_def)
qed

lemma reachable_main_inv: "program_reachable api fuel clk s0 s \<Longrightarrow> main_inv s0 \<Longrightarrow> main_inv s"
  by (induction rule: program_reachable.induct) (auto intro: program_step_inv)

text \<open>The steps of the main thread and the returns of the other two that are left.\<close>

definition main_left :: "main_pc \<Rightarrow> nat" where
  "main_left pc =
     (case pc of M_wait \<Rightarrow> 8 | M_stop \<Rightarrow> 7 | M_post_close \<Rightarrow> 6 | M_ioc_stop \<Rightarrow> 5 | M_join_strategy \<Rightarrow> 4 | M_join_network \<Rightarrow> 3
      | M_destroy_logger \<Rightarrow> 2 | M_join_worker \<Rightarrow> 1 | M_exit \<Rightarrow> 0)"

definition work_left :: "('e, 'j) engine_sys \<Rightarrow> nat" where
  "work_left s = main_left (main_at s) + (if strategy_done s then 0 else 1) + (if network_done s then 0 else 1)"

lemma work_left_put [simp]: "work_left (put_log t s) = work_left s" "work_left (put_logger l s) = work_left s"
  by (simp_all add: work_left_def)

lemma main_step_left: "main_step clk s = Some t \<Longrightarrow> Suc (work_left t) = work_left s"
  by (auto simp: main_step_def work_left_def main_left_def split: main_pc.splits if_splits)

lemma strategy_step_left: "strategy_step clk s = Some t \<Longrightarrow> work_left t \<le> work_left s"
  by (erule strategy_step_cases) (auto simp: work_left_def)

lemma network_step_left: "network_step api fuel s t \<Longrightarrow> work_left t \<le> work_left s"
  by (induction rule: network_step.induct) (auto simp: work_left_def)

lemma program_step_left:
  assumes "program_step api fuel clk s t"
  shows "work_left t \<le> work_left s"
  using assms
proof cases
  case signal
  then show ?thesis by (simp add: on_signal_def work_left_def)
next
  case main
  then show ?thesis using main_step_left [of clk s t] by simp
next
  case strategy
  then show ?thesis using strategy_step_left by blast
next
  case network
  then show ?thesis using network_step_left by blast
qed simp

text \<open>A step that brings the shutdown forward is always enabled: it lowers \<open>work_left\<close>, or what the worker has left to drain.\<close>

lemma shutdown_enabled:
  assumes "main_inv s" "logger_inv (logger_of s)" "g_stop s" "main_at s \<noteq> M_exit"
  shows "\<exists>t. program_step api fuel clk s t \<and> g_stop t \<and>
    (work_left t < work_left s \<or> main_at s = M_join_worker \<and> work_left t = work_left s \<and> steps_left (logger_of t) < steps_left (logger_of s))"
proof -
  have main: ?thesis if "main_step clk s = Some t" "g_stop t" for t
    using program_step.main [OF that(1)] that(2) main_step_left [OF that(1)] by (metis lessI)
  consider "main_at s \<in> {M_wait, M_stop, M_post_close, M_ioc_stop, M_destroy_logger} \<or> main_at s = M_join_strategy \<and> strategy_done s \<or>
        main_at s = M_join_network \<and> network_done s \<or> main_at s = M_join_worker \<and> wpc (logger s) = W_done"
    | "main_at s = M_join_strategy" "\<not> strategy_done s" | "main_at s = M_join_network" "\<not> network_done s"
    | "main_at s = M_join_worker" "wpc (logger s) \<noteq> W_done"
    using assms(4) by (cases "main_at s") auto
  then show ?thesis
  proof cases
    case 1
    then show ?thesis using assms(3) main by (auto simp: main_step_def perform_def)
  next
    case 2
    then have "\<not> erunning (strat s)" using assms(1) by (simp add: main_inv_def)
    then have step: "strategy_step clk s = Some (s\<lparr>strategy_done := True\<rparr>)" using 2 by (simp add: strategy_step_def)
    show ?thesis using program_step.strategy [OF step] 2 assms(3)
      by (intro exI [of _ "s\<lparr>strategy_done := True\<rparr>"]) (simp add: work_left_def)
  next
    case 3
    then have "ioc_stopped s" using assms(1) by (simp add: main_inv_def)
    then have step: "network_step api fuel s (s\<lparr>network_done := True\<rparr>)" using 3 by (intro network_step.returns) auto
    show ?thesis using program_step.network [OF step] 3 assms(3)
      by (intro exI [of _ "s\<lparr>network_done := True\<rparr>"]) (simp add: work_left_def)
  next
    case 4
    obtain l where l: "worker_step True 0 (logger_of s) = Some l" using worker_step_inv [OF assms(2)] by blast
    have off: "\<not> lrunning (logger_of s)" using assms(1) 4 by (simp add: main_inv_def)
    have "0 < steps_left (logger_of s)" using 4 by (cases "wpc (logger s)") (simp_all add: steps_left_def)
    then have "steps_left l < steps_left (logger_of s)" using worker_progress [OF assms(2) off l] by linarith
    moreover have "logger_of (put_logger l s) = l" by (simp add: logger_of_def put_logger_def)
    ultimately show ?thesis using program_step.worker [OF l] 4 assms(3) by (intro exI [of _ "put_logger l s"]) simp
  qed
qed

section \<open>The log\<close>

text \<open>The events that fit are pushed one after the other, as the producer of the logger does.\<close>

lemma call_results_simps [simp]: "map fst (call_results evs q) = evs" "taken_calls [] = []"
  "taken_calls (calls @ calls') = taken_calls calls @ taken_calls calls'"
  by (induction evs arbitrary: q) (simp_all add: taken_calls_def case_prod_beta Let_def)

lemma call_results_room:
  "spsc_inv kQueueSize q \<Longrightarrow> (ev, n, ok) \<in> set (call_results evs q) \<Longrightarrow> ok \<longleftrightarrow> n < unat kQueueSize"
proof (induction evs arbitrary: q)
  case (Cons e evs)
  obtain b q' where p: "spsc_push kQueueSize e q = (b, q')" by fastforce
  have "b \<longleftrightarrow> length (spsc_contents kQueueSize q) < unat kQueueSize" "spsc_inv kQueueSize q'"
    using log_ring.push_accepts [OF Cons.prems(1), of e] log_ring.inv_push [OF Cons.prems(1), of e] by (simp_all add: p)
  then show ?case using Cons by (auto simp: p)
qed simp

lemma push_events:
  "fold push_event evs l = l\<lparr>lqueue := push_all (spsc_push kQueueSize) evs (lqueue l),
    accepted := accepted l @ taken_calls (call_results evs (lqueue l))\<rparr>"
  by (induction evs arbitrary: l) (simp_all add: push_event_def taken_calls_def case_prod_beta Let_def)

definition hot_event :: "LogEvent \<Rightarrow> bool" where
  "hot_event ev \<longleftrightarrow> (\<exists>ts kind p n pnl lat. ev = make_event ts kind p n pnl lat)"

lemma hot_event_made [simp]: "hot_event (make_event ts kind p n pnl lat)"
  unfolding hot_event_def by (intro exI) (rule refl)

lemma push_events_reachable:
  "logger_reachable l \<Longrightarrow> lrunning l \<Longrightarrow> list_all hot_event evs \<Longrightarrow> logger_reachable (fold push_event evs l)"
proof (induction evs arbitrary: l)
  case (Cons ev evs)
  have "logger_reachable (push_event ev l)"
    using Cons.prems logger_reachable.step [OF Cons.prems(1) logger_step.log] by (auto simp: hot_event_def)
  moreover have "lrunning (push_event ev l)" using Cons.prems(2) by (simp add: push_event_def split: prod.split)
  ultimately show ?case using Cons by simp
qed simp

lemma report_hot:
  "report_pnl clk t0 bb ba e = (e', evs) \<Longrightarrow> list_all hot_event evs"
  "initial_report clk t0 bb ba e = (e', evs) \<Longrightarrow> list_all hot_event evs"
  "periodic_report clk t0 bb ba e = (e', evs) \<Longrightarrow> list_all hot_event evs"
  "execute_trade clk t0 d e = Some (e', evs) \<Longrightarrow> list_all hot_event evs"
  by (auto simp: report_pnl_def initial_report_def periodic_report_def execute_trade_def Let_def split: if_splits prod.splits bind_splits)

lemma process_tick_hot:
  assumes "process_tick clk t e = Some (e', evs)"
  shows "list_all hot_event evs"
  using assms by (auto simp: process_tick_def Let_def split: if_splits bind_splits prod.splits dest: report_hot(2-4))

text \<open>
  The logger's part of the state is one that AsyncLogger reaches, and what it has accepted is the label of the strategy
  followed by those events of the engine that found room.
\<close>

definition log_ok :: "strategy_selection \<Rightarrow> ('e, 'j) engine_sys \<Rightarrow> bool" where
  "log_ok sel s \<longleftrightarrow> logger_reachable (logger_of s) \<and>
     accepted (logger s) = strategy_event (strategy_name sel) # taken_calls (log_calls s) \<and>
     map fst (log_calls s) = emitted_events (strat s) \<and>
     (\<forall>(ev, n, ok) \<in> set (log_calls s). ok \<longleftrightarrow> n < unat kQueueSize)"

lemma log_ok_startup: "log_ok (cfg_strategy cfg) (startup api ok j cfg)"
proof -
  let ?ev = "strategy_event (strategy_name (cfg_strategy cfg))"
  have inv: "spsc_inv kQueueSize (lqueue logger_init)" "queued logger_init = []"
    using spsc_inv_init [OF log_ring.static_assert, where 'a = LogEvent] spsc_contents_init [of kQueueSize, where 'a = LogEvent]
    by (simp_all add: logger_init_def)
  have "length (queued logger_init) < unat kQueueSize" unfolding inv by (simp add: kQueueSize_def)
  then obtain q where q: "spsc_push kQueueSize ?ev (lqueue logger_init) = (True, q)" using log_ring.push_room [OF inv(1)] by blast
  have l: "push_event ?ev logger_init = logger_init\<lparr>lqueue := q, accepted := [?ev]\<rparr>"
    by (simp add: push_event_def q) (simp add: logger_init_def)
  have "logger_reachable (push_event ?ev logger_init)"
    by (rule logger_reachable.step [OF logger_reachable.start logger_step.label]) (simp add: logger_init_def)
  then show ?thesis by (simp add: log_ok_def startup_def Let_def l logger_of_def strategy_init_def logger_commute)
qed

lemma perform_iterate_log:
  assumes "perform clk Iterate u = Some t" "spsc_inv kQueueSize (log_queue u)"
  obtains evs where "list_all hot_event evs" "log_queue t = push_all (spsc_push kQueueSize) evs (log_queue u)"
    "emitted_events t = emitted_events u @ evs"
proof (cases "erunning u \<and> (\<exists>x q. spsc_pop kTickQueueSize (tick_queue u) = (Pop_item x, q))")
  case True
  then obtain x q e evs where "process_tick clk x (eng u) = Some (e, evs)"
    "log_queue t = push_all (spsc_push kQueueSize) evs (log_queue u)" "emitted_events t = emitted_events u @ evs"
    using assms(1) by (auto simp: perform_def split: bind_splits)
  then show thesis using that process_tick_hot by blast
next
  case False
  then have "log_queue t = log_queue u" "emitted_events t = emitted_events u"
    using assms(1) by (auto simp: perform_def split: if_splits prod.splits pop_result.splits)
  then show thesis using that [of "[]"] by simp
qed

lemma log_ok_iterate:
  assumes "log_ok sel s" "lrunning (logger s)" "perform clk Iterate (strat s) = Some t"
  shows "log_ok sel (put_log t s)"
proof -
  have reach: "logger_reachable (logger_of s)" using assms(1) by (simp add: log_ok_def)
  have inv: "spsc_inv kQueueSize (log_queue (strat s))"
    using logger_reachable_inv [OF reach] by (simp add: logger_inv_def history_inv_def)
  obtain evs where evs: "list_all hot_event evs" "log_queue t = push_all (spsc_push kQueueSize) evs (log_queue (strat s))"
    "emitted_events t = emitted_events (strat s) @ evs"
    by (rule perform_iterate_log [OF assms(3) inv])
  have "logger_of (put_log t s) = fold push_event evs (logger_of s)"
    using push_events [of evs "logger_of s"] by (simp add: logger_of_def put_log_def evs(2,3) Let_def)
  then have "logger_reachable (logger_of (put_log t s))" using push_events_reachable [OF reach _ evs(1)] assms(2) by simp
  then show ?thesis using assms(1) call_results_room [OF inv, of _ _ _ evs]
    by (auto simp: log_ok_def put_log_def Let_def evs(3))
qed

lemma program_step_log:
  assumes "program_step api fuel clk s t" "log_ok sel s" "main_inv s"
  shows "log_ok sel t"
  using assms(1)
proof cases
  case signal
  then show ?thesis using assms(2) by (simp add: log_ok_def logger_of_def on_signal_def)
next
  case main
  have "logger_reachable ((request_shutdown (logger s))\<lparr>lqueue := log_queue (strat s)\<rparr>)"
    using logger_reachable.step [OF _ logger_step.shutdown, of "logger_of s"] assms(2)
    by (simp add: log_ok_def logger_of_def request_shutdown_def logger_commute)
  moreover have "log_queue u = log_queue (strat s) \<and> emitted_events u = emitted_events (strat s)" if "perform clk Stop (strat s) = Some u" for u
    using that by (auto simp: perform_def)
  ultimately show ?thesis using main assms(2)
    by (auto simp: main_step_def log_ok_def logger_of_def request_shutdown_def split: main_pc.splits if_splits)
next
  case strategy
  then show ?thesis
  proof (cases rule: strategy_step_cases)
    case 1
    then show ?thesis using assms(2) by (simp add: log_ok_def logger_of_def)
  next
    case (2 u)
    have "lrunning (logger s)" using assms(3) 2(2) by (auto simp: main_inv_def)
    then show ?thesis unfolding 2(4) by (rule log_ok_iterate [OF assms(2) _ 2(3)])
  qed
next
  case network
  then show ?thesis using assms(2)
    by cases (auto simp: log_ok_def logger_of_def put_ring_def)
next
  case (worker opens now l)
  have "logger_reachable l"
    using logger_reachable.step [OF _ logger_step.worker [OF worker(2)]] assms(2) by (simp add: log_ok_def)
  moreover have "logger_of (put_logger l s) = l" by (simp add: logger_of_def put_logger_def)
  moreover have "accepted l = accepted (logger s)" using worker_frame [OF worker(2)] by simp
  ultimately show ?thesis using assms(2) by (simp add: worker(1) log_ok_def put_logger_def)
qed

lemma reachable_log:
  "program_reachable api fuel clk s0 s \<Longrightarrow> main_inv s0 \<Longrightarrow> log_ok sel s0 \<Longrightarrow> main_inv s \<and> log_ok sel s"
  by (induction rule: program_reachable.induct) (auto intro: program_step_inv program_step_log)

section \<open>Reaching the exit\<close>

lemma reachable_trans:
  "program_reachable api fuel clk s t \<Longrightarrow> program_reachable api fuel clk r s \<Longrightarrow> program_reachable api fuel clk r t"
  by (induction rule: program_reachable.induct) (auto intro: program_reachable.intros)

lemma shutdown_reaches_exit:
  "main_inv s \<Longrightarrow> log_ok sel s \<Longrightarrow> g_stop s \<Longrightarrow> \<exists>t. program_reachable api fuel clk s t \<and> main_at t = M_exit"
proof (induction "(work_left s, steps_left (logger_of s))" arbitrary: s rule: wf_induct_rule [OF wf_lex_prod [OF wf_less_than wf_less_than]])
  case 1
  show ?case
  proof (cases "main_at s = M_exit")
    case True
    then show ?thesis using program_start by blast
  next
    case False
    have "logger_inv (logger_of s)" using 1(3) logger_reachable_inv by (auto simp: log_ok_def)
    then obtain t where t: "program_step api fuel clk s t" "g_stop t"
      "work_left t < work_left s \<or> work_left t = work_left s \<and> steps_left (logger_of t) < steps_left (logger_of s)"
      using shutdown_enabled [OF 1(2) _ 1(4) False] by blast
    obtain u where u: "program_reachable api fuel clk t u" "main_at u = M_exit"
      using 1(1) [of t] t(2,3) program_step_inv [OF t(1) 1(2)] program_step_log [OF t(1) 1(3,2)] by auto
    have "program_reachable api fuel clk s t" by (rule program_next [OF program_start t(1)])
    then show ?thesis using reachable_trans [OF u(1)] u(2) by blast
  qed
qed

section \<open>From the network to the position\<close>

definition flow_ok :: "(nat \<Rightarrow> u64) \<Rightarrow> strategy_selection \<Rightarrow> strategy_sys \<Rightarrow> bool" where
  "flow_ok clk sel s \<longleftrightarrow>
     spsc_inv kTickQueueSize (tick_queue s) \<and>
     offered_ticks s = processed_ticks s @ spsc_contents kTickQueueSize (tick_queue s) \<and>
     (\<forall>t \<in> set (offered_ticks s). price t \<le> kMaxPrice) \<and>
     run_ticks clk (processed_ticks s) (engine_init sel) = Some (eng s, emitted_events s)"

lemma flow_ok_perform:
  assumes "flow_ok clk sel s" "perform clk a s = Some t" "\<forall>x. a \<noteq> Produce x"
  shows "flow_ok clk sel t"
proof -
  have inv: "spsc_inv kTickQueueSize (tick_queue s)" using assms(1) by (simp add: flow_ok_def)
  show ?thesis
  proof (cases "a = Iterate \<and> erunning s")
    case False
    then show ?thesis using assms by (cases a) (auto simp: perform_def flow_ok_def)
  next
    case True
    from inv show ?thesis
    proof (rule tick_ring.pop_cases)
      assume "spsc_pop kTickQueueSize (tick_queue s) = (Pop_empty, tick_queue s)"
      then show ?thesis using True assms by (simp add: perform_def)
    next
      fix x q'
      assume pop: "spsc_pop kTickQueueSize (tick_queue s) = (Pop_item x, q')" "spsc_inv kTickQueueSize q'"
        "spsc_contents kTickQueueSize (tick_queue s) = x # spsc_contents kTickQueueSize q'"
      obtain e evs where step: "process_tick clk x (eng s) = Some (e, evs)"
        and t: "t = s\<lparr>tick_queue := q', log_queue := push_all (spsc_push kQueueSize) evs (log_queue s), eng := e,
          processed_ticks := processed_ticks s @ [x], emitted_events := emitted_events s @ evs\<rparr>"
        using assms(2) True pop(1) by (auto simp: perform_def split: bind_splits)
      show ?thesis using assms(1) pop(2,3) step by (simp add: t flow_ok_def run_ticks_snoc)
    qed
  qed
qed

lemma flow_ok_put_ring:
  assumes "flow_ok clk sel s" "spsc_inv kTickQueueSize q"
    and "spsc_contents kTickQueueSize q = spsc_contents kTickQueueSize (tick_queue s) @ ts" "\<forall>t \<in> set ts. price t \<le> kMaxPrice"
  shows "flow_ok clk sel (put_ring q s)"
  using assms by (auto simp: flow_ok_def put_ring_def)

lemma ws_step_ring:
  assumes "ws_step api fuel (c, (j, q)) e (c', (j', q'))" "spsc_inv kTickQueueSize q"
  shows "emits kTickQueueSize q q'"
  using assms(1)
proof (rule ws_stepE)
  fix msg ec
  assume "on_read api fuel ec (length msg) ((finish Read c)\<lparr>read_buffer := read_buffer c @ msg\<rparr>, (j, q)) = Some (Done (c', (j', q')))"
  then show ?thesis
    by (cases rule: on_read_cases) (use parse_tick_emits [OF assms(2)] emits_refl [OF assms(2)] in auto)
qed (use emits_refl [OF assms(2)] in auto)

lemma program_step_flow:
  assumes "program_step api fuel clk s t" "flow_ok clk sel (strat s)"
  shows "flow_ok clk sel (strat t)"
  using assms(1)
proof cases
  case main
  then show ?thesis using assms(2) flow_ok_perform [OF assms(2), of Stop]
    by (auto simp: main_step_def split: main_pc.splits if_splits)
next
  case strategy
  then show ?thesis
    by (cases rule: strategy_step_cases) (use assms(2) flow_ok_perform [OF assms(2), of Iterate] in auto)
next
  case network
  then show ?thesis
  proof cases
    case (handler e c j q)
    have "emits kTickQueueSize (tick_queue (strat s)) q"
      using ws_step_ring [OF handler(5)] assms(2) by (simp add: flow_ok_def)
    then show ?thesis using flow_ok_put_ring [OF assms(2)] handler(1) by (auto simp: emits_def list_all_iff)
  qed (use assms(2) in auto)
next
  case (worker opens now l)
  then show ?thesis using assms(2) by (simp add: put_logger_def flow_ok_def)
qed (use assms(2) in \<open>simp add: on_signal_def\<close>)

lemma flow_ok_startup: "flow_ok clk (cfg_strategy cfg) (strat (startup api ok j cfg))"
  using spsc_inv_init [OF tick_ring.static_assert, where 'a = market_tick]
    spsc_contents_init [of kTickQueueSize, where 'a = market_tick]
  by (simp add: flow_ok_def startup_def Let_def strategy_init_def)

lemma reachable_flow:
  "program_reachable api fuel clk s0 s \<Longrightarrow> flow_ok clk sel (strat s0) \<Longrightarrow> flow_ok clk sel (strat s)"
  by (induction rule: program_reachable.induct) (auto intro: program_step_flow)

lemma pending_startup: "pending (ws (startup api ok j cfg)) = [Resolve (cfg_host cfg) (cfg_port cfg)]"
  by (simp add: startup_def ws_run_def ws_client_init_def start_def Let_def)

lemma network_frozen:
  "program_reachable api fuel clk s t \<Longrightarrow> network_done s \<Longrightarrow>
   network_done t \<and> ws t = ws s \<and> (close_posted s \<longrightarrow> close_posted t)"
proof (induction rule: program_reachable.induct)
  case (program_next t u)
  from program_next.hyps(2) show ?case
  proof cases
    case main
    then show ?thesis using program_next by (auto simp: main_step_def split: main_pc.splits if_splits)
  next
    case strategy
    then show ?thesis by (cases rule: strategy_step_cases) (use program_next in auto)
  next
    case network
    then show ?thesis by cases (use program_next in auto)
  qed (use program_next in \<open>auto simp: on_signal_def\<close>)
qed simp

text \<open>The main thread gets to the post of the close without the network thread; and from the stop of the event loop to the exit.\<close>

lemma reach_post_close:
  assumes "main_at s \<in> {M_wait, M_stop, M_post_close}"
  shows "\<exists>u. program_reachable api fuel clk s u \<and> main_at u = M_post_close \<and> ws u = ws s \<and> network_done u = network_done s"
proof -
  have stop: "\<exists>u. program_reachable api fuel clk v u \<and> main_at u = M_post_close \<and> ws u = ws v \<and> network_done u = network_done v"
    if "main_at v = M_stop" for v :: "('a, 'b) engine_sys"
  proof -
    define u where "u = v\<lparr>strat := (strat v)\<lparr>erunning := False\<rparr>, main_at := M_post_close\<rparr>"
    have "main_step clk v = Some u" using that by (simp add: u_def main_step_def perform_def)
    from program_next [OF program_start program_step.main [OF this]] show ?thesis by (intro exI [of _ u]) (simp add: u_def)
  qed
  consider "main_at s = M_wait" | "main_at s = M_stop" | "main_at s = M_post_close" using assms by blast
  then show ?thesis
  proof cases
    case 1
    define v where "v = (on_signal s)\<lparr>main_at := M_stop\<rparr>"
    have "main_step clk (on_signal s) = Some v" using 1 by (simp add: v_def main_step_def on_signal_def)
    from program_next [OF program_next [OF program_start program_step.signal] program_step.main [OF this]]
    have r: "program_reachable api fuel clk s v" .
    have v: "main_at v = M_stop" "ws v = ws s" "network_done v = network_done s" by (simp_all add: v_def on_signal_def)
    obtain u where "program_reachable api fuel clk v u" "main_at u = M_post_close" "ws u = ws v" "network_done u = network_done v"
      using stop [OF v(1)] by blast
    then show ?thesis using reachable_trans [OF _ r] v by (intro exI [of _ u]) simp
  next
    case 2
    then show ?thesis by (rule stop)
  next
    case 3
    then show ?thesis using program_start by (intro exI [of _ s]) simp
  qed
qed

lemma finish_shutdown:
  assumes "main_at v = M_ioc_stop" "main_inv v" "log_ok sel v" "\<not> network_done v"
  shows "\<exists>t. program_reachable api fuel clk v t \<and> main_at t = M_exit \<and> ws t = ws v \<and> (close_posted v \<longrightarrow> close_posted t)"
proof -
  define v1 where "v1 = v\<lparr>ioc_stopped := True, main_at := M_join_strategy\<rparr>"
  define v2 where "v2 = v1\<lparr>network_done := True\<rparr>"
  have "main_step clk v = Some v1" using assms(1) by (simp add: v1_def main_step_def)
  moreover have "network_step api fuel v1 v2" unfolding v2_def using assms(4) by (intro network_step.returns) (simp_all add: v1_def)
  ultimately have r: "program_reachable api fuel clk v v2"
    by (intro program_next [OF program_next [OF program_start program_step.main] program_step.network])
  have "main_inv v2 \<and> log_ok sel v2" using reachable_log [OF r assms(2,3)] .
  moreover have "g_stop v2" using assms(1,2) by (simp add: v1_def v2_def main_inv_def)
  ultimately obtain t where t: "program_reachable api fuel clk v2 t" "main_at t = M_exit"
    using shutdown_reaches_exit [of v2 sel] by blast
  have "network_done v2" "ws v2 = ws v" "close_posted v2 = close_posted v" by (simp_all add: v1_def v2_def)
  then show ?thesis using network_frozen [OF t(1)] reachable_trans [OF t(1) r] t(2) by (intro exI [of _ t]) simp
qed

text \<open>The posted close may be overtaken by the stop of the event loop, or run before it.\<close>

lemma close_lost_or_run:
  assumes inv: "main_inv s" "log_ok sel s" and at: "main_at s \<in> {M_wait, M_stop, M_post_close}" and live: "\<not> network_done s"
  shows "\<exists>t. program_reachable api fuel clk s t \<and> main_at t = M_exit \<and> close_posted t \<and> ws t = ws s"
    "\<exists>t. program_reachable api fuel clk s t \<and> main_at t = M_exit \<and> ws t = ws_close (ws s)"
proof -
  obtain u where u: "program_reachable api fuel clk s u" "main_at u = M_post_close" "ws u = ws s" "\<not> network_done u"
    using reach_post_close [OF at] live by blast
  have iu: "main_inv u \<and> log_ok sel u" using reachable_log [OF u(1) inv] .
  define v where "v = u\<lparr>close_posted := True, main_at := M_ioc_stop\<rparr>"
  define w where "w = v\<lparr>ws := ws_close (ws v), close_posted := False\<rparr>"
  have "main_step clk u = Some v" using u(2) by (simp add: v_def main_step_def)
  then have rv: "program_reachable api fuel clk s v" by (rule program_next [OF u(1) program_step.main])
  have iv: "main_inv v \<and> log_ok sel v" using reachable_log [OF rv inv] .
  have fv: "main_at v = M_ioc_stop" "\<not> network_done v" "close_posted v" "ws v = ws s" using u by (simp_all add: v_def)
  then have "network_step api fuel v w" using iv unfolding w_def by (intro network_step.posted) (simp_all add: main_inv_def)
  then have rw: "program_reachable api fuel clk s w" by (rule program_next [OF rv program_step.network])
  have iw: "main_inv w \<and> log_ok sel w" using reachable_log [OF rw inv] .
  have fw: "main_at w = M_ioc_stop" "\<not> network_done w" "ws w = ws_close (ws s)" using fv by (simp_all add: w_def)
  obtain t where "program_reachable api fuel clk v t" "main_at t = M_exit" "ws t = ws v" "close_posted t"
    using finish_shutdown [OF fv(1) conjunct1 [OF iv] conjunct2 [OF iv] fv(2)] fv(3) by blast
  then show "\<exists>t. program_reachable api fuel clk s t \<and> main_at t = M_exit \<and> close_posted t \<and> ws t = ws s"
    using reachable_trans [OF _ rv] fv(4) by (intro exI [of _ t]) simp
  obtain x where "program_reachable api fuel clk w x" "main_at x = M_exit" "ws x = ws w"
    using finish_shutdown [OF fw(1) conjunct1 [OF iw] conjunct2 [OF iw] fw(2)] by blast
  then show "\<exists>t. program_reachable api fuel clk s t \<and> main_at t = M_exit \<and> ws t = ws_close (ws s)"
    using reachable_trans [OF _ rw] fw(3) by (intro exI [of _ x]) simp
qed

lemma startup_simps [simp]:
  "main_at (startup api ok j cfg) = M_wait" "\<not> network_done (startup api ok j cfg)" "\<not> ioc_stopped (startup api ok j cfg)"
  "json_state (startup api ok j cfg) = j" "ws (startup api ok j cfg) = started (parser_init api ok) (cfg_host cfg) (cfg_port cfg) (cfg_target cfg)"
  "tick_queue (strat (startup api ok j cfg)) = spsc_init kTickQueueSize"
  by (simp_all add: startup_def Let_def strategy_init_def)

lemma hasty_shutdown:
  "\<exists>s. program_reachable api fuel clk (startup api ok j cfg) s \<and> main_at s = M_exit \<and> close_posted s \<and> ws s = ws (startup api ok j cfg)"
  by (rule close_lost_or_run(1) [OF main_inv_startup log_ok_startup]) simp_all

text \<open>A session of the client is a run of the program in which only the network thread moves.\<close>

lemma session_in_program:
  "ws_trace api fuel st es st' \<Longrightarrow> st = (ws s, (json_state s, tick_queue (strat s))) \<Longrightarrow> Close_called \<notin> set es \<Longrightarrow>
   \<not> network_done s \<Longrightarrow> \<not> ioc_stopped s \<Longrightarrow>
   \<exists>t. program_reachable api fuel clk s t \<and> st' = (ws t, (json_state t, tick_queue (strat t))) \<and>
     main_at t = main_at s \<and> \<not> network_done t \<and> \<not> ioc_stopped t"
proof (induction rule: ws_trace.induct)
  case trace_nil
  then show ?case using program_start by (intro exI [of _ s]) simp
next
  case (trace_snoc es st' e st'')
  obtain t where t: "program_reachable api fuel clk s t" "st' = (ws t, (json_state t, tick_queue (strat t)))"
    "main_at t = main_at s" "\<not> network_done t" "\<not> ioc_stopped t" using trace_snoc by auto
  obtain c k q where c: "st'' = (c, (k, q))" by (metis surj_pair)
  have "network_step api fuel t (t\<lparr>ws := c, json_state := k, strat := put_ring q (strat t)\<rparr>)" (is "network_step api fuel t ?u")
    using trace_snoc.hyps(2) trace_snoc.prems(2) t(2,4,5) c by (intro network_step.handler) auto
  then have "program_reachable api fuel clk s ?u" by (rule program_next [OF t(1) program_step.network])
  then show ?case using t(3-5) c by (intro exI [of _ ?u]) (simp add: put_ring_def)
qed

section \<open>Faults\<close>

text \<open>The strategy thread is never just stuck: where it has no step it has a fault.\<close>

lemma strategy_stuck:
  assumes "\<not> strategy_done s" "strategy_step clk s = None"
  shows "\<exists>f. program_fault api fuel clk s f"
proof -
  have "erunning (strat s)" "perform clk Iterate (strat s) = None" using assms by (auto simp: strategy_step_def split: if_splits)
  then have "(\<exists>q. spsc_pop kTickQueueSize (tick_queue (strat s)) = (Pop_undefined, q)) \<or>
      (\<exists>tick q. spsc_pop kTickQueueSize (tick_queue (strat s)) = (Pop_item tick, q) \<and> process_tick clk tick (eng (strat s)) = None)"
    by (auto simp: perform_def split: prod.splits pop_result.splits bind_splits)
  then show ?thesis using program_fault.position_overflows program_fault.tick_is_dead assms(1) \<open>erunning (strat s)\<close> by metis
qed

definition buffer_ok :: "('j, 'h) simdjson \<Rightarrow> ('e, 'j) engine_sys \<Rightarrow> bool" where
  "buffer_ok api s \<longleftrightarrow> length (parser_buffer (client_parser (ws s))) = kMaxPayloadBytes + padding api"

lemma program_step_buffer:
  assumes "program_step api fuel clk s t" "buffer_ok api s"
  shows "buffer_ok api t"
  using assms(1)
proof cases
  case main
  then show ?thesis using assms(2) by (auto simp: main_step_def buffer_ok_def split: main_pc.splits if_splits)
next
  case strategy
  then show ?thesis by (cases rule: strategy_step_cases) (use assms(2) in \<open>auto simp: buffer_ok_def\<close>)
next
  case network
  then show ?thesis
  proof cases
    case (handler e c k q)
    then show ?thesis using ws_step_buffer [OF handler(5)] assms(2) by (simp add: buffer_ok_def)
  qed (use assms(2) in \<open>auto simp: buffer_ok_def handler_frame\<close>)
qed (use assms(2) in \<open>auto simp: buffer_ok_def on_signal_def\<close>)

lemma reachable_buffer:
  "program_reachable api fuel clk (startup api ok j cfg) s \<Longrightarrow> buffer_ok api s"
  by (induction rule: program_reachable.induct) (simp add: buffer_ok_def, rule program_step_buffer)

lemma tick_overflow:
  assumes "process_tick clk tick e = None"
  shows "int_max < \<bar>position_size (epm e)\<bar> + 10"
proof (rule ccontr)
  let ?book = "apply_tick tick (ebook e)" and ?d = "decision_on (apply_tick tick (ebook e)) tick (signals e)"
  assume small: "\<not> ?thesis"
  have tr: "tradable ?book" using assms process_tick_idle [of tick e clk] by (cases "tradable ?book") simp_all
  then have "fst ?d \<in> {0, 10, - 10}" using decision_on_bounds(1) by (auto simp: tradable_def)
  then have "\<bar>position_size (epm e)\<bar> + \<bar>fst ?d\<bar> \<le> int_max" using small by auto
  then have "add_fill (fst ?d) (snd ?d) (epm e) \<noteq> None" using add_fill_defined by blast
  then show False using process_tick_tradable [OF tr, of clk] assms by auto
qed

lemma overflow_is_late:
  assumes "flow_ok clk sel u" "process_tick clk tick (eng u) = None"
  shows "2 ^ 27 \<le> length (processed_ticks u)"
proof (rule ccontr)
  assume "\<not> ?thesis"
  then have n: "length (processed_ticks u) < 2 ^ 27" by simp
  then have "engine_ok (length (processed_ticks u)) (eng u)"
    using engine_run [OF engine_ok_init, of "processed_ticks u" clk sel] assms(1) by (auto simp: flow_ok_def)
  then obtain e evs where "process_tick clk tick (eng u) = Some (e, evs)" by (rule engine_step [OF _ n])
  then show False using assms(2) by simp
qed

lemma program_fault_causes:
  assumes "program_fault api fuel clk s f" "flow_ok clk sel (strat s)" "buffer_ok api s" "logger_inv (logger_of s)"
  shows "f = Terminate \<and> \<not> network_done s \<and> Read \<in> set (pending (ws s)) \<and> (\<exists>it k. fst (arr_deref api it k) = None) \<or>
    f = Diverges \<and> \<not> network_done s \<and> Read \<in> set (pending (ws s)) \<and> (\<forall>rank m. forward_only api rank m \<longrightarrow> fuel \<le> m) \<or>
    f = Signed_overflow \<and> \<not> strategy_done s \<and> 2 ^ 27 \<le> length (processed_ticks (strat s)) \<and>
      int_max < \<bar>position_size (epm (eng (strat s)))\<bar> + 10"
  using assms(1)
proof cases
  case (handler_faults e)
  have "Read \<in> set (pending (ws s))" using handler_faults(3) by (auto elim: ws_faultE)
  moreover have "f = Terminate \<and> (\<exists>it k. fst (arr_deref api it k) = None) \<or>
      f = Diverges \<and> (\<forall>rank m. forward_only api rank m \<longrightarrow> fuel \<le> m)"
    using assms(3) unfolding buffer_ok_def by (rule ws_fault_causes [OF handler_faults(3)])
  ultimately show ?thesis using handler_faults(1) by (elim disjE) simp_all
next
  case (position_overflows tick q)
  then show ?thesis using overflow_is_late [OF assms(2)] tick_overflow by auto
next
  case (tick_is_dead q)
  then show ?thesis using tick_ring.pop_defined [of "tick_queue (strat s)"] assms(2) by (simp add: flow_ok_def)
next
  case (worker_faults opens now)
  then show ?thesis using worker_step_inv [OF assms(4), of opens now] by simp
qed

lemma process_runs:
  "(process_step api fuel clk)\<^sup>*\<^sup>* (Running s0) p \<Longrightarrow>
   (case p of Running s \<Rightarrow> program_reachable api fuel clk s0 s
    | Faulted f \<Rightarrow> \<exists>s. program_reachable api fuel clk s0 s \<and> program_fault api fuel clk s f)"
proof (induction rule: rtranclp_induct)
  case base
  then show ?case using program_start by simp
next
  case (step p p')
  from step.hyps(2) show ?case by cases (use step.IH in \<open>auto intro: program_next\<close>)
qed

lemma reachable_process:
  "program_reachable api fuel clk s0 s \<Longrightarrow> (process_step api fuel clk)\<^sup>*\<^sup>* (Running s0) (Running s)"
  by (induction rule: program_reachable.induct) (auto intro: rtranclp.rtrancl_into_rtrancl runs)

text \<open>A library that reports an array element as an error ends the process.\<close>

lemma bad_element_faults:
  "\<exists>s. program_reachable bad_api 9 clk (startup bad_api True () \<lparr>cfg_strategy = Ofi, cfg_host = ''h'', cfg_port = ''1'', cfg_target = ''/''\<rparr> ::
      (nat, unit) engine_sys) s \<and> program_fault bad_api 9 clk s Terminate"
proof -
  let ?s0 = "startup bad_api True () \<lparr>cfg_strategy = Ofi, cfg_host = ''h'', cfg_port = ''1'', cfg_target = ''/''\<rparr> :: (nat, unit) engine_sys"
  obtain c where c: "ws_trace bad_api 9 (ws ?s0, (json_state ?s0, tick_queue (strat ?s0))) connect_events
      (c, (json_state ?s0, tick_queue (strat ?s0)))" "pending c = [Read]"
    using session_connects [of bad_api 9 "parser_init bad_api True" "(json_state ?s0, tick_queue (strat ?s0))"] by auto
  obtain s where s: "program_reachable bad_api 9 clk ?s0 s" "ws s = c" "\<not> network_done s" "\<not> ioc_stopped s"
    using session_in_program [OF c(1) refl] by auto
  have run: "ws_trace bad_api 9 (started (parser_init bad_api True) ''h'' ''1'' ''/'', ((), spsc_init kTickQueueSize)) connect_events
      (c, ((), spsc_init kTickQueueSize))" using c(1) by simp
  have empty: "read_buffer c = []"
    using chain_current(4) [OF ws_trace_chain [OF chain_run run, simplified], of Read] c(2) by simp
  have parser: "client_parser c = parser_init bad_api True" using ws_trace_parses [OF chain_run run] by simp
  obtain p' where "parse_tick bad_api kTickQueueSize 9 ''{}'' (parser_init bad_api True) ((), tick_queue (strat s)) = Some (p', Terminated)"
    using bad_element_terminates [of "parser_init bad_api True"] by auto
  then have "on_read bad_api 9 None (length ''{}'') ((finish Read c)\<lparr>read_buffer := read_buffer c @ ''{}''\<rparr>, ((), tick_queue (strat s))) = Some Terminated"
    by (simp add: on_read_def empty parser)
  then have "ws_fault bad_api 9 (c, ((), tick_queue (strat s))) (Received None ''{}'') Terminate"
    by (rule ws_fault.aborts [rotated 2]) (simp_all add: c(2) empty kReadBufferBytes_def)
  then have "program_fault bad_api 9 clk s Terminate" using s by (intro program_fault.handler_faults) simp_all
  with s(1) show ?thesis by (intro exI [of _ s]) simp
qed

section \<open>Properties\<close>

text \<open>
  C1: in every interleaving of the main, network, strategy and logger threads from the start of the program, the ticks that the network handlers
  got into the ring are those the strategy has processed, in order, followed by those still in the ring; their prices are on the ladder; and the book, the position, the
  signals and the events of the engine are those of processing exactly these ticks one after the other.
\<close>
theorem engine_follows_the_network:
  assumes "program_reachable api fuel clk (startup api ok j cfg) s"
  shows "offered_ticks (strat s) = processed_ticks (strat s) @ spsc_contents kTickQueueSize (tick_queue (strat s)) \<and>
    (\<forall>t \<in> set (offered_ticks (strat s)). price t \<le> kMaxPrice) \<and>
    run_ticks clk (processed_ticks (strat s)) (engine_init (cfg_strategy cfg)) = Some (eng (strat s), emitted_events (strat s))"
  using reachable_flow [OF assms flow_ok_startup] by (simp add: flow_ok_def)

abbreviation sample_config :: config where
  "sample_config \<equiv> \<lparr>cfg_strategy = Ofi, cfg_host = ''h'', cfg_port = ''1'', cfg_target = ''/''\<rparr>"

theorem engine_follows_the_network_witness:
  "\<exists>s. program_reachable sample_api 9 (\<lambda>_. 0) (startup sample_api True () sample_config :: (nat, unit) engine_sys) s \<and> main_at s = M_exit \<and>
     run_ticks (\<lambda>_. 0) (processed_ticks (strat s)) (engine_init Ofi) = Some (eng (strat s), emitted_events (strat s))"
proof -
  obtain s where s: "program_reachable sample_api 9 (\<lambda>_. 0) (startup sample_api True () sample_config :: (nat, unit) engine_sys) s"
    "main_at s = M_exit" using hasty_shutdown [of sample_api 9 "\<lambda>_. 0" True "()" sample_config] by blast
  then show ?thesis using engine_follows_the_network [OF s(1)] by auto
qed

text \<open>
  C10: from every state the program can reach in which the stop flag is set, until the exit, a step is enabled that brings the shutdown forward: it lowers the number of
  statements and returns that are left, at most ten, or, while the main thread joins the logger's worker, what the worker has left to drain. No step of any thread raises that number, and the exit is
  reachable. At the exit all three threads have returned.
\<close>
theorem shutdown_completes:
  assumes "program_reachable api fuel clk (startup api ok j cfg) s" "g_stop s"
  shows "(main_at s = M_exit \<and> strategy_done s \<and> network_done s \<and> wpc (logger s) = W_done \<or>
      (\<exists>t. program_step api fuel clk s t \<and> g_stop t \<and>
         (work_left t < work_left s \<or>
          main_at s = M_join_worker \<and> work_left t = work_left s \<and> steps_left (logger_of t) < steps_left (logger_of s)))) \<and>
    (\<forall>t. program_step api fuel clk s t \<longrightarrow> work_left t \<le> work_left s) \<and> work_left s \<le> 10 \<and>
    (\<exists>t. program_reachable api fuel clk s t \<and> main_at t = M_exit)"
proof -
  have inv: "main_inv s" "log_ok (cfg_strategy cfg) s"
    using reachable_log [OF assms(1) main_inv_startup log_ok_startup] by blast+
  have "logger_inv (logger_of s)" using inv(2) logger_reachable_inv by (auto simp: log_ok_def)
  moreover have "main_at s = M_exit \<Longrightarrow> strategy_done s \<and> network_done s \<and> wpc (logger s) = W_done" using inv(1) by (simp add: main_inv_def)
  moreover have "work_left s \<le> 10" by (simp add: work_left_def main_left_def split: main_pc.split)
  ultimately show ?thesis
    using shutdown_enabled [OF inv(1) _ assms(2)] program_step_left shutdown_reaches_exit [OF inv assms(2)] by blast
qed

theorem shutdown_completes_witness:
  "\<exists>t. program_reachable sample_api 9 (\<lambda>_. 0) (on_signal (startup sample_api True () sample_config :: (nat, unit) engine_sys)) t \<and> main_at t = M_exit"
proof -
  let ?s = "on_signal (startup sample_api True () sample_config :: (nat, unit) engine_sys)"
  have "program_reachable sample_api 9 (\<lambda>_. 0) (startup sample_api True () sample_config) ?s"
    by (rule program_next [OF program_start program_step.signal])
  from shutdown_completes [OF this] show ?thesis by (simp add: on_signal_def)
qed

text \<open>
  C2: when the program has ended, whatever the interleaving. The engine called the logger once for every event it reported, in order, and a call
  was answered true exactly if it found fewer than 4096 events in the ring. If the log file could be opened, what has been written to it is the header, the row that names the selected
  strategy, and one row for each call that was answered true, in order, all flushed; if not, nothing has been written.
\<close>
theorem log_file_records_the_run:
  assumes "program_reachable api fuel clk (startup api ok j cfg) s" "main_at s = M_exit"
  shows "map fst (log_calls s) = emitted_events (strat s) \<and>
    list_all (\<lambda>(ev, occupied, answer). answer = (occupied < 4096)) (log_calls s) \<and>
    (if file_open (logger s)
     then map Some (rows (logger s)) = Some Header # csv_line (strategy_event (strategy_name (cfg_strategy cfg))) #
         [csv_line ev. (ev, occupied, answer) \<leftarrow> log_calls s, answer] \<and>
       flushed_rows (logger s) = length (rows (logger s))
     else rows (logger s) = [])"
proof -
  have inv: "main_inv s" "log_ok (cfg_strategy cfg) s"
    using reachable_log [OF assms(1) main_inv_startup log_ok_startup] by blast+
  have li: "logger_inv (logger_of s)" using inv(2) logger_reachable_inv by (auto simp: log_ok_def)
  have pc: "wpc (logger_of s) = W_done" using inv(1) assms(2) by (simp add: main_inv_def)
  have rows: "[csv_line ev. (ev, occupied, answer) \<leftarrow> calls, answer] = map csv_line (taken_calls calls)" for calls
    by (induction calls) (auto simp: taken_calls_def)
  have "unat kQueueSize = 4096" by (simp add: kQueueSize_def)
  then show ?thesis using done_file [OF li pc] inv(2) by (auto simp: log_ok_def rows list_all_iff)
qed

theorem log_file_records_the_run_witness:
  "\<exists>s. program_reachable sample_api 9 (\<lambda>_. 0) (startup sample_api True () sample_config :: (nat, unit) engine_sys) s \<and> main_at s = M_exit \<and>
     (file_open (logger s) \<longrightarrow> (\<exists>more. map Some (rows (logger s)) = Some Header # csv_line (strategy_event ''ofi'') # more))"
proof -
  obtain s where s: "program_reachable sample_api 9 (\<lambda>_. 0) (startup sample_api True () sample_config :: (nat, unit) engine_sys) s"
    "main_at s = M_exit" using hasty_shutdown [of sample_api 9 "\<lambda>_. 0" True "()" sample_config] by blast
  then show ?thesis using log_file_records_the_run [OF s] by (auto split: if_splits)
qed

text \<open>
  C28: whatever the interleaving, the messages and the library, a process that ends in a fault ends in one of three ways. It is terminated, or loops for ever, while the network thread
  handles a message, and then the library has reported an array element as an error, or has iterators that do not move forward (within the fuel). Or the position overflows, and then
  the engine has processed at least \<open>2 ^ 27\<close> ticks and the position is within ten of the limits of \<open>int\<close>. Never is a buffer overrun, a dead cell of a ring read, or a label read past its end.
\<close>
theorem process_faults_are_explained:
  assumes "(process_step api fuel clk)\<^sup>*\<^sup>* (Running (startup api ok j cfg :: ('e, 'j) engine_sys)) (Faulted f)"
  shows "\<exists>s :: ('e, 'j) engine_sys. program_reachable api fuel clk (startup api ok j cfg) s \<and>
    (f = Terminate \<and> \<not> network_done s \<and> Read \<in> set (pending (ws s)) \<and> (\<exists>it k. fst (arr_deref api it k) = None) \<or>
     f = Diverges \<and> \<not> network_done s \<and> Read \<in> set (pending (ws s)) \<and> (\<forall>rank m. forward_only api rank m \<longrightarrow> fuel \<le> m) \<or>
     f = Signed_overflow \<and> \<not> strategy_done s \<and> 2 ^ 27 \<le> length (processed_ticks (strat s)) \<and>
       int_max < \<bar>position_size (epm (eng (strat s)))\<bar> + 10)"
proof -
  obtain s :: "('e, 'j) engine_sys" where s: "program_reachable api fuel clk (startup api ok j cfg) s" "program_fault api fuel clk s f"
    using process_runs [OF assms] by auto
  have "log_ok (cfg_strategy cfg) s" using reachable_log [OF s(1) main_inv_startup log_ok_startup] by simp
  then have "logger_inv (logger_of s)" using logger_reachable_inv by (simp add: log_ok_def)
  from program_fault_causes [OF s(2) reachable_flow [OF s(1) flow_ok_startup] reachable_buffer [OF s(1)] this] s(1)
  show ?thesis by (intro exI [of _ s]) simp
qed

text \<open>A process over a library that reports every array element as an error is terminated, and it was reading.\<close>
theorem process_faults_are_explained_witness:
  "(process_step bad_api 9 (\<lambda>_. 0))\<^sup>*\<^sup>* (Running (startup bad_api True () sample_config :: (nat, unit) engine_sys)) (Faulted Terminate) \<and>
   (\<exists>s :: (nat, unit) engine_sys. program_reachable bad_api 9 (\<lambda>_. 0) (startup bad_api True () sample_config) s \<and> Read \<in> set (pending (ws s)))"
proof -
  obtain s where s: "program_reachable bad_api 9 (\<lambda>_. 0) (startup bad_api True () sample_config :: (nat, unit) engine_sys) s"
    "program_fault bad_api 9 (\<lambda>_. 0) s Terminate" using bad_element_faults [of "\<lambda>_. 0"] by blast
  have run: "(process_step bad_api 9 (\<lambda>_. 0))\<^sup>*\<^sup>* (Running (startup bad_api True () sample_config :: (nat, unit) engine_sys)) (Faulted Terminate)"
    using reachable_process [OF s(1)] faults [OF s(2)] by (rule rtranclp.rtrancl_into_rtrancl)
  from process_faults_are_explained [OF run] run show ?thesis by auto
qed

text \<open>
  C37: whether the connection is closed on shutdown is a race that the code does not decide. From every state the program can reach before the close is posted
  and in which the event loop still runs, whatever the client is doing (connecting, or connected and reading), the program can exit with the close still posted and
  the client untouched, and it can exit with \<open>close\<close> having run on the client, so that the closing handshake was begun.
\<close>
theorem close_is_best_effort:
  assumes "program_reachable api fuel clk (startup api ok j cfg) s" "main_at s \<in> {M_wait, M_stop, M_post_close}" "\<not> network_done s"
  shows "(\<exists>t. program_reachable api fuel clk s t \<and> main_at t = M_exit \<and> close_posted t \<and> ws t = ws s) \<and>
    (\<exists>t. program_reachable api fuel clk s t \<and> main_at t = M_exit \<and> pending (ws t) = pending (ws s) @ [Close_frame])"
proof -
  have inv: "main_inv s" "log_ok (cfg_strategy cfg) s"
    using reachable_log [OF assms(1) main_inv_startup log_ok_startup] by blast+
  have "pending (ws_close (ws s)) = pending (ws s) @ [Close_frame]" by (simp add: ws_close_def start_def)
  then show ?thesis using close_lost_or_run [OF inv assms(2,3)] by metis
qed

text \<open>A client that is connected and waits for a message.\<close>
theorem close_is_best_effort_witness:
  "\<exists>s. program_reachable sample_api 9 (\<lambda>_. 0) (startup sample_api True () sample_config :: (nat, unit) engine_sys) s \<and> pending (ws s) = [Read] \<and>
    (\<exists>t. program_reachable sample_api 9 (\<lambda>_. 0) s t \<and> main_at t = M_exit \<and> pending (ws t) = [Read]) \<and>
    (\<exists>t. program_reachable sample_api 9 (\<lambda>_. 0) s t \<and> main_at t = M_exit \<and> pending (ws t) = [Read, Close_frame])"
proof -
  let ?s0 = "startup sample_api True () sample_config :: (nat, unit) engine_sys"
  obtain c where c: "ws_trace sample_api 9 (ws ?s0, (json_state ?s0, tick_queue (strat ?s0))) connect_events
      (c, (json_state ?s0, tick_queue (strat ?s0)))" "pending c = [Read]"
    using session_connects [of sample_api 9 "parser_init sample_api True" "(json_state ?s0, tick_queue (strat ?s0))"] by auto
  obtain s where s: "program_reachable sample_api 9 (\<lambda>_. 0) ?s0 s" "pending (ws s) = [Read]" "main_at s = M_wait" "\<not> network_done s"
    using session_in_program [OF c(1) refl] c(2) by auto
  from close_is_best_effort [OF s(1) _ s(4)] s show ?thesis by (intro exI [of _ s]) auto
qed

text \<open>
  C23: for every command line, a sequence of positional arguments and strategy flags in both spellings, possibly ending in a flag without its value: the first flag
  decides the strategy, whatever the others say; the first three positional arguments are host, port and target, with the documented defaults; and the start is refused exactly
  if the first flag does not name a strategy or the only flag has no value. The name that is printed for a strategy selects it.
\<close>
theorem command_line_meaning:
  assumes "list_all valid_item items"
  shows "(case flags items of
      [] \<Rightarrow> read_config (prog # command_line items False) = Inr \<lparr>cfg_strategy = Both, cfg_host = nth_or ''example.com'' 0 (positionals items),
          cfg_port = nth_or ''443'' 1 (positionals items), cfg_target = nth_or ''/'' 2 (positionals items)\<rparr> \<and>
        read_config (prog # command_line items True) = Inl EXIT_FAILURE
    | v # _ \<Rightarrow>
        if \<exists>sel. v = strategy_name sel
        then \<exists>sel. v = strategy_name sel \<and> read_config (prog # command_line items dangling) =
          Inr \<lparr>cfg_strategy = sel, cfg_host = nth_or ''example.com'' 0 (positionals items),
            cfg_port = nth_or ''443'' 1 (positionals items), cfg_target = nth_or ''/'' 2 (positionals items)\<rparr>
        else read_config (prog # command_line items dangling) = Inl EXIT_FAILURE)"
proof (cases "flags items")
  case (Cons v vs)
  show ?thesis
  proof (cases "\<exists>sel. v = strategy_name sel")
    case True
    then obtain sel where "v = strategy_name sel" by blast
    then show ?thesis by (auto simp: read_config_command_line [OF assms] Cons select_strategy_name)
  next
    case False
    then have "\<not> snd (select_strategy v)" by (simp add: select_strategy_Some)
    then show ?thesis using False by (simp add: read_config_command_line [OF assms] Cons case_prod_unfold Let_def)
  qed
qed (simp add: read_config_command_line [OF assms])

theorem command_line_meaning_witness:
  "read_config [''engine'', ''localhost'', ''--strategy'', ''ofi'', ''8443'', ''--strategy=both''] =
    Inr \<lparr>cfg_strategy = Ofi, cfg_host = ''localhost'', cfg_port = ''8443'', cfg_target = ''/''\<rparr>"
proof -
  let ?items = "[Positional ''localhost'', Flag_value ''ofi'', Positional ''8443'', Flag_equals ''both'']"
  have "list_all valid_item ?items" by (simp add: starts_with_def)
  from command_line_meaning [OF this, of "''engine''" False] have "\<exists>sel. ''ofi'' = strategy_name sel \<and>
      read_config (''engine'' # command_line ?items False) =
        Inr \<lparr>cfg_strategy = sel, cfg_host = ''localhost'', cfg_port = ''8443'', cfg_target = ''/''\<rparr>"
    using select_strategy_Some [of "''ofi''"] by (simp add: nth_or_def select_strategy_def split: if_splits)
  then obtain sel where "''ofi'' = strategy_name sel"
    "read_config (''engine'' # command_line ?items False) = Inr \<lparr>cfg_strategy = sel, cfg_host = ''localhost'', cfg_port = ''8443'', cfg_target = ''/''\<rparr>"
    by blast
  then show ?thesis by (cases sel) simp_all
qed

end
