(* ===== verification/Spec2Isabelle.thy ===== *)
theory Spec2Isabelle
  imports OrderBook SpscConcurrent PositionManager AlphaSignals AsyncLogger StrategyEngine MarketParser WebSocketClient MainProgram
begin

text \<open>
  A verification library for the low-latency prediction-market engine.

  The program has four threads. The network thread runs the event loop of a WebSocket client, parses each message
  into ticks (a price level in cents, a size, a side) and pushes them into a lock-free ring. The strategy thread pops them,
  keeps a limit order book, scores it with one or two alpha signals, trades against a position manager, and pushes events into a second
  ring. The logger's worker pops these and writes a CSV file. The main thread starts the others and shuts them down on a signal.

  \<^bold>\<open>Theories and the code they model\<close> (paths under src/)

  \<^item> Prelude: the C++ integer types, signed overflow as \<open>None\<close>, facts on words and lists.
  \<^item> Float64: binary64 arithmetic, one rounding per operation.
  \<^item> OrderBook, \<open>include/order_book.hpp\<close>: \<open>LimitOrderBook\<close> as two lists of 101 sizes; \<open>apply_tick\<close>, the two scans and the two lookups. The locale
    \<open>level_store\<close> and its extension with best prices are the contract that the other components use; both are interpreted on the model.
  \<^item> SpscQueue, \<open>include/spsc_queue.hpp\<close>: one operation at a time, indices as 64-bit words, cells that are live or not. The locale
    \<open>bounded_fifo\<close> is the contract of a bounded queue, \<open>ring_size\<close> the two static assertions; the tick ring (EngineConfig, 65536 cells)
    and the log ring (AsyncLogger, 4096 cells) are its interpretations.
  \<^item> SpscConcurrent: the same class with every atomic access and every access to a cell as a step, stale values for acquire loads, and a detector of races.
  \<^item> EngineConfig, \<open>include/engine_config.hpp\<close>.
  \<^item> PositionManager, \<open>include/position_manager.hpp\<close>: \<open>add_fill\<close> and \<open>get_unrealized_pnl\<close>.
  \<^item> AlphaSignals, \<open>include/alpha_base.hpp\<close>, \<open>include/momentum_alpha.hpp\<close>, \<open>include/ofi_alpha.hpp\<close>: the two signals and, as the locale \<open>alpha_signal\<close>, the contract of their interface.
  \<^item> AsyncLogger, \<open>include/async_logger.hpp\<close>: both calls, the worker as a step function on its program points, the destructor.
  \<^item> StrategyEngine, \<open>include/strategy_engine.hpp\<close> and \<open>src/strategy_engine.cpp\<close>: \<open>process_tick\<close> is the body of the loop in \<open>run\<close>, \<open>perform\<close> one iteration between the two rings.
  \<^item> PriceText, \<open>include/market_parser.hpp\<close>: \<open>parse_u32\<close>, \<open>parse_size_u32\<close>, \<open>parse_price_cents\<close>.
  \<^item> MarketParser, \<open>include/market_parser.hpp\<close>: \<open>parse_tick\<close> and everything it calls.
  \<^item> WebSocketClient, \<open>include/websocket_client.hpp\<close> and \<open>src/websocket_client.cpp\<close>: every handler, and the completion of operations as a step relation.
  \<^item> MainProgram, \<open>src/main.cpp\<close>: the command line, the start, all four threads on one state up to the end of the logger's destructor, and the faults that end a process.

  \<^bold>\<open>What the lemmas show\<close>

  \<^item> The rings: every interleaving of one producer and one consumer is free of data races, and the queue read off the cells and the indices is a bounded first-in first-out queue; the indices may wrap around.
  \<^item> The book: it replays the last update of each level, and the scans return the extreme live prices. The book is never cleared: a snapshot overwrites
    the levels it names and leaves the others.
  \<^item> The position: the change of implied cash by a fill and the equity, with explicit bounds on the rounding; no overflow while the fills add up to at most \<open>INT_MAX\<close>.
  \<^item> The signals: their exact value with one rounding per operation, and their range; what becomes of the microprice when the 32-bit sum of the two best sizes wraps around.
  \<^item> The engine: the position is the sum of the sizes of the trade events; when it trades, on which side, how much and at what price, in exact numbers, and when it reports;
    a tick that leaves the top of the book alone never trades; the loop drains its ring into a fold over the accepted ticks. The runs
    are bounded by \<open>2 ^ 27\<close> ticks of ten lots, which keeps the position below \<open>2 ^ 31\<close>; iterations on an empty ring are not counted, and where a run is given, as in MainProgram, no bound is needed.
  \<^item> The logger: the rows are the header and one per event taken from the ring; from any point, with or without a file, the shutdown ends the worker within a bounded number of steps, and with a file it
    writes and flushes the rest.
  \<^item> The texts: exactly which texts are accepted as prices and sizes, and their value.
  \<^item> The parser: for any answers of the JSON library, it only appends ticks on the ladder, never overruns its buffer, and ends the process only through an element error; over a library
    whose iterators only move forward it returns for every fuel above the number of elements (fuel stands for the number of iterations of a range-\<open>for\<close>); over a library that reads a message of a supported schema it emits exactly the ticks of the message.
  \<^item> The client: the chain of operations never stalls without a printed failure, the parser sees each message exactly once, and a message is either handled or ends the process.
  \<^item> The program: the engine follows the ticks of the network, and the log file the events of the engine that found room, in every interleaving; the shutdown completes; the close of the connection may or may not be run;
    which faults can end a process; the meaning of the command line.

  \<^bold>\<open>Parameters and assumptions\<close>

  \<^item> simdjson is the record \<open>simdjson\<close> of the calls the parser makes, over an abstract state. \<open>forward_only\<close> states its documented progress, \<open>reads\<close> and \<open>delivers\<close> what
    it answers on a valid document; both are satisfied by \<open>tree_api\<close>, an instance over a JSON tree. \<open>reads\<close> asks a call
    only for what on-demand parsing keeps: it may invalidate every handle that is nested as deep as its own, and leaves the enclosing objects and arrays alone.
  \<^item> Boost.Asio, Beast and OpenSSL appear only as the events that complete an operation. A message that does not fit the read buffer is an error event.
  \<^item> The clock is an arbitrary sequence of readings; the file opens or does not; the text of a number in the CSV file is the standard library's.
  \<^item> The atomics are modelled by histories of stores and a happens-before relation through release and acquire, not by the full C++ memory model.

  \<^item> A handler, an iteration or a program point that is undefined, ends the process or does not return has no \<open>program_step\<close>; it is a \<open>program_fault\<close> (\<open>ws_fault\<close> for the client), and a
    \<open>process_step\<close> into the final state \<open>Faulted\<close>. A thread without a step and without a fault waits or has returned.

  \<^bold>\<open>Not modelled\<close>

  Thread creation and pinning, registration of signal handlers and console output in \<open>src/main.cpp\<close>; the options and timers of the streams beyond their values. The log file is the list of rows
  streamed into it: a write or flush that fails after the file has opened is not modelled (the code never looks at the state of the stream). In MainProgram a handler with the pushes of its message, and an
  iteration with its pop and its at most three calls of the logger, are single steps: the other thread of the ring does not move in between. SpscConcurrent, where it does, shows that each call acts on its
  ring as one operation on a queue; a worker that pops between two calls of one iteration only leaves more room for the second. The test driver \<open>tests/test_main.cpp\<close>, the Python tools and the build files.
\<close>

end
